(* ===== verification/Prelude.thy ===== *)
theory Prelude
  imports Main "HOL-Library.Word"
begin

text \<open>
  Shared vocabulary of the development: the names of the machine integers of
  \<^verbatim>\<open>stdint.h\<close>, the ways a C function of the kernel can fail to return (a bad address,
  an index outside an array, an undefined shift, a halted processor, a loop that
  never ends), the result type that carries them, and the generic lemmas on words,
  lists and maps that the component theories use.
\<close>

unbundle bit_operations_syntax

section \<open>Machine integers\<close>

type_synonym u8 = "8 word"
type_synonym u16 = "16 word"
type_synonym u32 = "32 word"
type_synonym u64 = "64 word"

section \<open>Results of C functions\<close>

text \<open>
  A call either returns a value (\<open>Inr\<close>) or does not (\<open>Inl\<close>): \<open>BadAddr\<close> is an access
  to memory that holds no such object (in the kernel: a page fault that ends in
  \<^verbatim>\<open>hlt\<close>), \<open>Oob\<close> an index outside a static array, \<open>ShiftUB\<close> a shift of a 32-bit
  operand by 32 or more, \<open>DivZero\<close> the processor's divide error, \<open>Halt\<close> a call that
  stops the processor, \<open>Diverge\<close> a loop that is never left, and \<open>Deep\<close> that calls nest deeper than
  the bound of a definition that counts them.
\<close>

datatype fault =
    BadAddr u64
  | Oob int
  | ShiftUB nat
  | DivZero
  | Halt
  | Diverge
  | Deep

type_synonym 'a res = "fault + 'a"

definition rbind :: "'a res \<Rightarrow> ('a \<Rightarrow> 'b res) \<Rightarrow> 'b res" where
  "rbind r f = (case r of Inl e \<Rightarrow> Inl e | Inr x \<Rightarrow> f x)"

definition of_opt :: "fault \<Rightarrow> 'a option \<Rightarrow> 'a res" where
  "of_opt e x = (case x of None \<Rightarrow> Inl e | Some y \<Rightarrow> Inr y)"

text \<open>The value of a loop that was defined with \<open>None\<close> for "is never left".\<close>

definition of_loop :: "'a res option \<Rightarrow> 'a res" where
  "of_loop x = (case x of None \<Rightarrow> Inl Diverge | Some r \<Rightarrow> r)"

named_theorems res_simps \<open>evaluation of the result combinators\<close>

lemma rbind_simps [simp, res_simps]:
  "rbind (Inr x) f = f x"
  "rbind (Inl e) f = Inl e"
  by (simp_all add: rbind_def)

lemma of_opt_simps [simp, res_simps]:
  "of_opt e (Some x) = Inr x"
  "of_opt e None = Inl e"
  by (simp_all add: of_opt_def)

lemma of_loop_simps [simp, res_simps]:
  "of_loop (Some r) = r"
  "of_loop None = Inl Diverge"
  by (simp_all add: of_loop_def)

lemma rbind_eq_Inl: "rbind r f = Inl e \<longleftrightarrow> r = Inl e \<or> (\<exists>x. r = Inr x \<and> f x = Inl e)"
  by (cases r) auto

lemma rbind_eq_Inr: "rbind r f = Inr y \<longleftrightarrow> (\<exists>x. r = Inr x \<and> f x = Inr y)"
  by (cases r) auto

lemma of_loop_eq_Inr: "of_loop x = Inr y \<longleftrightarrow> x = Some (Inr y)"
  by (cases x) auto

lemma rbind_assoc: "rbind (rbind r f) g = rbind r (\<lambda>x. rbind (f x) g)"
  by (cases r) auto

section \<open>Words\<close>

text \<open>Offsets from a base address: no wrap-around below \<open>2 ^ 64\<close>.\<close>

lemma unat_add_of_nat:
  fixes a :: u64
  assumes "unat a + n < 2 ^ 64"
  shows "unat (a + of_nat n) = unat a + n"
proof -
  have n: "unat (of_nat n :: u64) = n"
    using assms by (simp add: unat_of_nat)
  then have "unat a + unat (of_nat n :: u64) < 2 ^ LENGTH(64)"
    using assms by simp
  then show ?thesis
    using n by (simp add: unat_word_ariths(1))
qed

lemma add_of_nat_inj:
  fixes a :: u64
  assumes "m < 2 ^ 64" and "n < 2 ^ 64"
  shows "a + of_nat m = a + of_nat n \<longleftrightarrow> m = n"
proof -
  have "of_nat m = (of_nat n :: u64) \<longleftrightarrow> m = n"
    using assms by (simp add: word_unat_eq_iff unat_of_nat)
  then show ?thesis by simp
qed


text \<open>The kernel window: an offset below 1 GB put under the top address bits.\<close>

lemma or_kernel_base:
  fixes x :: u64
  assumes "unat x < 2 ^ 30"
  shows "x OR 0xFFFFFFFFC0000000 = 0xFFFFFFFFC0000000 + x"
    and "unat (x OR 0xFFFFFFFFC0000000) = 0xFFFFFFFFC0000000 + unat x"
proof -
  have m: "(0xFFFFFFFFC0000000 :: u64) = NOT (mask 30)"
    by (simp add: mask_eq_exp_minus_1)
  have "x = take_bit 30 x"
    using assms by (simp add: word_unat_eq_iff unsigned_take_bit_eq take_bit_nat_eq_self)
  then have "x = x AND mask 30"
    by (simp add: take_bit_eq_mask)
  then have "x AND 0xFFFFFFFFC0000000 = 0"
    by (metis m and.assoc and.right_neutral bit.conj_cancel_right bit.conj_zero_right)
  then show eq: "x OR 0xFFFFFFFFC0000000 = 0xFFFFFFFFC0000000 + x"
    by (metis disjunctive_add_eq_or add.commute)
  have "unat (0xFFFFFFFFC0000000 + of_nat (unat x) :: u64) = unat (0xFFFFFFFFC0000000 :: u64) + unat x"
    by (rule unat_add_of_nat) (use assms in simp)
  then show "unat (x OR 0xFFFFFFFFC0000000) = 0xFFFFFFFFC0000000 + unat x"
    by (simp add: eq)
qed

lemma kernel_base_and:
  fixes x :: u64
  assumes "unat x < 2 ^ 30"
  shows "(x OR 0xFFFFFFFFC0000000) AND 0x3FFFFFFF = x"
proof -
  have m: "(0xFFFFFFFFC0000000 :: u64) = NOT (mask 30)" "(0x3FFFFFFF :: u64) = mask 30"
    by (simp_all add: mask_eq_exp_minus_1)
  have "x = take_bit 30 x"
    using assms by (simp add: word_unat_eq_iff unsigned_take_bit_eq take_bit_nat_eq_self)
  moreover have "(x OR NOT (mask 30)) AND mask 30 = take_bit 30 x"
    by (simp add: bit.conj_disj_distrib2 take_bit_eq_mask del: mask_numeral)
  ultimately show ?thesis unfolding m by simp
qed

section \<open>Words as bytes\<close>

lemma take_bit_join:
  fixes w :: "'a::len word"
  shows "take_bit m w OR push_bit m (take_bit n (drop_bit m w)) = take_bit (m + n) w"
  by (rule bit_word_eqI) (auto simp: bit_simps)

lemma byte_mask:
  fixes w :: u64
  shows "ucast (drop_bit n (w AND push_bit n 0xFF)) = (ucast (drop_bit n w) :: u8)"
proof -
  have m: "(0xFF :: u64) = mask 8" by (simp add: mask_eq_exp_minus_1)
  show ?thesis
    unfolding m by (rule bit_word_eqI) (auto simp: bit_simps dest: bit_imp_le_length)
qed

lemma ucast_ucast_byte:
  fixes w :: u64
  shows "ucast (ucast w :: u8) = take_bit 8 w"
  by (rule bit_word_eqI) (auto simp: bit_simps)

lemma join_bytes:
  fixes w :: u64
  shows "ucast (ucast w :: u8) OR push_bit 8 (ucast (ucast (drop_bit 8 w) :: u8))
     OR push_bit 16 (ucast (ucast (drop_bit 16 w) :: u8)) OR push_bit 24 (ucast (ucast (drop_bit 24 w) :: u8))
     OR push_bit 32 (ucast (ucast (drop_bit 32 w) :: u8)) OR push_bit 40 (ucast (ucast (drop_bit 40 w) :: u8))
     OR push_bit 48 (ucast (ucast (drop_bit 48 w) :: u8)) OR push_bit 56 (ucast (ucast (drop_bit 56 w) :: u8)) = w"
proof -
  have "take_bit 64 w = w" by (simp add: take_bit_word_eq_self)
  then show ?thesis
    unfolding ucast_ucast_byte
    using take_bit_join [of 8 w 8] take_bit_join [of 16 w 8] take_bit_join [of 24 w 8]
      take_bit_join [of 32 w 8] take_bit_join [of 40 w 8] take_bit_join [of 48 w 8] take_bit_join [of 56 w 8]
    by (simp only: or.assoc [symmetric]) simp
qed

lemma join_bytes16:
  fixes w :: u16
  shows "ucast (ucast w :: u8) OR push_bit 8 (ucast (ucast (drop_bit 8 w) :: u8)) = w"
  by (rule bit_word_eqI) (auto simp: bit_simps)

lemma join_bytes32:
  fixes w :: u32
  shows "ucast (ucast w :: u8) OR push_bit 8 (ucast (ucast (drop_bit 8 w) :: u8))
    OR push_bit 16 (ucast (ucast (drop_bit 16 w) :: u8)) OR push_bit 24 (ucast (ucast (drop_bit 24 w) :: u8)) = w"
proof -
  have c: "ucast (ucast v :: u8) = take_bit 8 v" for v :: u32
    by (rule bit_word_eqI) (auto simp: bit_simps)
  have "take_bit 32 w = w" by (simp add: take_bit_word_eq_self)
  then show ?thesis
    unfolding c
    using take_bit_join [of 8 w 8] take_bit_join [of 16 w 8] take_bit_join [of 24 w 8]
    by (simp only: or.assoc [symmetric]) simp
qed

end
