(* ===== verification/Frame_Spec.thy ===== *)
theory Frame_Spec
  imports Prelude
begin

text \<open>
  What the paging code relies on when it takes physical pages for tables and for data:
  a source of page frames that hands out an aligned frame not in use, or 0. The page
  bitmap of \<^verbatim>\<open>mm/phys.c\<close> implements it (theory \<open>Phys\<close>).
\<close>

definition page_aligned :: "u64 \<Rightarrow> bool" where
  "page_aligned p \<longleftrightarrow> take_bit 12 p = 0"

text \<open>Taking several frames in a row.\<close>

fun take_frames :: "('s \<Rightarrow> (u64 \<times> 's) res) \<Rightarrow> nat \<Rightarrow> 's \<Rightarrow> (u64 list \<times> 's) res" where
  "take_frames alloc 0 s = Inr ([], s)"
| "take_frames alloc (Suc n) s =
     rbind (alloc s) (\<lambda>(p, s'). rbind (take_frames alloc n s') (\<lambda>(ps, s''). Inr (p # ps, s'')))"

locale frame_source =
  fixes alloc :: "'s \<Rightarrow> (u64 \<times> 's) res"
    and inv :: "'s \<Rightarrow> bool"
    and used :: "'s \<Rightarrow> u64 set"
  assumes alloc_total: "inv s \<Longrightarrow> \<exists>p s'. alloc s = Inr (p, s')"
    and alloc_fresh: "inv s \<Longrightarrow> alloc s = Inr (p, s') \<Longrightarrow> p \<noteq> 0 \<Longrightarrow>
      inv s' \<and> page_aligned p \<and> p \<notin> used s \<and> used s' = insert p (used s)"
    and alloc_empty: "inv s \<Longrightarrow> alloc s = Inr (0, s') \<Longrightarrow> s' = s"
begin

lemma alloc_inv: "inv s \<Longrightarrow> alloc s = Inr (p, s') \<Longrightarrow> inv s'"
  using alloc_fresh alloc_empty by (cases "p = 0") blast+

lemma alloc_mono: "inv s \<Longrightarrow> alloc s = Inr (p, s') \<Longrightarrow> used s \<subseteq> used s'"
  using alloc_fresh alloc_empty by (cases "p = 0") blast+

lemma take_frames_total: "inv s \<Longrightarrow> \<exists>ps s'. take_frames alloc n s = Inr (ps, s') \<and> inv s'"
proof (induction n arbitrary: s)
  case (Suc n)
  obtain p s1 where "alloc s = Inr (p, s1)" using alloc_total Suc.prems by blast
  moreover from this have "inv s1" using alloc_inv Suc.prems by blast
  ultimately show ?case using Suc.IH [of s1] by fastforce
qed simp

text \<open>Frames that were handed out are distinct and were free before.\<close>

lemma take_frames_fresh:
  assumes "inv s" and "take_frames alloc n s = Inr (ps, s')" and "0 \<notin> set ps"
  shows "distinct ps \<and> set ps \<inter> used s = {} \<and> used s' = set ps \<union> used s
     \<and> (\<forall>p \<in> set ps. page_aligned p)"
  using assms
proof (induction n arbitrary: s ps)
  case (Suc n)
  obtain p s1 qs where a: "alloc s = Inr (p, s1)" "take_frames alloc n s1 = Inr (qs, s')"
    "ps = p # qs"
    using Suc.prems(2) by (auto simp: rbind_eq_Inr)
  then have "p \<noteq> 0" using Suc.prems(3) by auto
  then have s1: "inv s1" "page_aligned p" "p \<notin> used s" "used s1 = insert p (used s)"
    using alloc_fresh [OF Suc.prems(1) a(1)] by blast+
  then show ?case
    using Suc.IH [OF s1(1) a(2)] Suc.prems(3) a(3) by auto
qed simp

end

end
