(* ===== verification/Phys.thy ===== *)
theory Phys
  imports Frame_Spec
begin

text \<open>
  The physical page allocator of \<^verbatim>\<open>mm/phys.c\<close>: a bitmap with one bit per 4 KB page, set
  while the page is in use. \<^verbatim>\<open>alloc_phys_page\<close> looks for a clear bit from the first
  megabyte on, 64 pages at a time; \<^verbatim>\<open>free_phys_page\<close> clears a bit; \<^verbatim>\<open>phys_init\<close> builds the
  map from the memory map of the boot loader.
\<close>

section \<open>State\<close>

text \<open>
  \<^verbatim>\<open>phys_map\<close> as the words it points to, \<^verbatim>\<open>phys_size\<close> the number of words the code
  believes it has.
\<close>

record phys =
  phys_map :: "u64 list"
  phys_size :: u64

definition map_get :: "phys \<Rightarrow> nat \<Rightarrow> u64 res" where
  "map_get P i = (if i < length (phys_map P) then Inr (phys_map P ! i) else Inl (Oob (int i)))"

definition map_set :: "nat \<Rightarrow> u64 \<Rightarrow> phys \<Rightarrow> phys res" where
  "map_set i w P =
     (if i < length (phys_map P) then Inr (P\<lparr>phys_map := (phys_map P)[i := w]\<rparr>)
      else Inl (Oob (int i)))"

section \<open>Operations\<close>

text \<open>The loop over full words: the first index from \<open>i\<close> on whose word has a clear bit.\<close>

function alloc_scan :: "phys \<Rightarrow> nat \<Rightarrow> nat res" where
  "alloc_scan P i =
     (if i < unat (phys_size P) then
        (case map_get P i of
           Inl e \<Rightarrow> Inl e
         | Inr w \<Rightarrow> if w = 0xFFFFFFFFFFFFFFFF then alloc_scan P (Suc i) else Inr i)
      else Inr i)"
  by pat_completeness auto
termination
  by (relation "measure (\<lambda>(P, i). unat (phys_size P) - i)") auto

declare alloc_scan.simps [simp del]

text \<open>
  The bitmap read as an array of 32-bit words, \<^verbatim>\<open>ph_map[i*2 + k]\<close>, on a little-endian
  machine: the \<open>k\<close>-th half of word \<open>i\<close>.
\<close>

definition half :: "u64 \<Rightarrow> nat \<Rightarrow> u32" where
  "half w k = ucast (drop_bit (32 * k) w)"

definition set_half :: "nat \<Rightarrow> u32 \<Rightarrow> u64 \<Rightarrow> u64" where
  "set_half k v w = (w AND NOT (push_bit (32 * k) 0xFFFFFFFF)) OR push_bit (32 * k) (ucast v)"

text \<open>The loop over the bits of a half: the first clear bit from \<open>j\<close> on, or 32.\<close>

function find_bit :: "u32 \<Rightarrow> nat \<Rightarrow> nat" where
  "find_bit itmp j =
     (if j < 32 \<and> (itmp OR push_bit j 1) = itmp then find_bit itmp (Suc j) else j)"
  by pat_completeness auto
termination
  by (relation "measure (\<lambda>(itmp, j). 32 - j)") auto

declare find_bit.simps [simp del]

text \<open>The loop over the two halves; the values of \<^verbatim>\<open>k\<close>, \<^verbatim>\<open>itmp\<close> and \<^verbatim>\<open>j\<close> it leaves.\<close>

definition find_half :: "u64 \<Rightarrow> nat \<times> u32 \<times> nat" where
  "find_half w =
     (let itmp = half w 0; j = find_bit itmp 0
      in if j \<noteq> 32 then (0, itmp, j)
         else (let itmp = half w 1; j = find_bit itmp 0
               in if j \<noteq> 32 then (1, itmp, j) else (2, itmp, j)))"

definition alloc_phys_page :: "phys \<Rightarrow> (u64 \<times> phys) res" where
  "alloc_phys_page P =
     rbind (alloc_scan P 4) (\<lambda>i.
       if i = unat (phys_size P) then Inr (0, P)
       else rbind (map_get P i) (\<lambda>tmp.
         let (k, itmp, j) = find_half tmp in
         if j = 32 then Inr (0, P)
         else rbind (map_set i (set_half k (itmp OR push_bit j 1) tmp) P) (\<lambda>P'.
           Inr (push_bit 12 (of_nat (64 * i + (j + k * 32))), P'))))"

text \<open>
  \<^verbatim>\<open>~(1<<(pageaddr%64))\<close> is computed in \<^verbatim>\<open>int\<close>: the shift is undefined from 32 on, and the
  result is sign-extended to 64 bits by the conversion to \<^verbatim>\<open>uint64_t\<close>.
\<close>

definition int_bit_mask :: "nat \<Rightarrow> u64 res" where
  "int_bit_mask b = (if b < 32 then Inr (scast (NOT (push_bit b 1 :: 32 word))) else Inl (ShiftUB b))"

definition free_phys_page :: "u64 \<Rightarrow> phys \<Rightarrow> phys res" where
  "free_phys_page page P =
     (if page = 0 then Inr P
      else (let pageaddr = drop_bit 12 page;
                i = unat (drop_bit 6 pageaddr)
            in rbind (map_get P i) (\<lambda>w.
                 rbind (int_bit_mask (unat (pageaddr mod 64))) (\<lambda>m.
                   map_set i (w AND m) P))))"

text \<open>
  An entry of the boot loader's memory map (\<^verbatim>\<open>mmap_info_t\<close>); the map itself is the
  entries in memory, by address.
\<close>

record mmap_info =
  mm_size :: u32
  mm_base_addr :: u64
  mm_length :: u64
  mm_type :: u32

type_synonym mmap_mem = "u64 \<rightharpoonup> mmap_info"

text \<open>Every page in use, the first step of \<^verbatim>\<open>phys_init\<close>.\<close>

definition phys_fill :: "u64 \<Rightarrow> phys" where
  "phys_fill sz =
     \<lparr>phys_map = replicate (unat (push_bit 2 sz)) 0xFFFFFFFFFFFFFFFF, phys_size = push_bit 2 sz\<rparr>"

text \<open>The loop that frees the 256 KB units \<open>i\<close> up to \<open>lim\<close>.\<close>

function mark_free :: "nat \<Rightarrow> nat \<Rightarrow> phys \<Rightarrow> phys res" where
  "mark_free i lim P =
     (if i < lim \<and> i < unat (phys_size P) then
        (case map_set i 0 P of
           Inl e \<Rightarrow> Inl e
         | Inr P' \<Rightarrow> mark_free (Suc i) lim P')
      else Inr P)"
  by pat_completeness auto
termination
  by (relation "measure (\<lambda>(i, lim, P). lim - i)") auto

declare mark_free.simps [simp del]

text \<open>One entry: the area the kernel was loaded into is moved behind the kernel.\<close>

definition mmap_base :: "u64 \<Rightarrow> mmap_info \<Rightarrow> u64" where
  "mmap_base lst m =
     (if mm_base_addr m = 0x100000 then push_bit 18 (drop_bit 18 lst + 1) else mm_base_addr m)"

definition mmap_entry :: "u64 \<Rightarrow> u64 \<Rightarrow> mmap_info \<Rightarrow> mmap_mem \<times> phys \<Rightarrow> (mmap_mem \<times> phys) res" where
  "mmap_entry lst a m = (\<lambda>(M, P).
     if mm_type m = 1 then
       (let m' = m\<lparr>mm_base_addr := mmap_base lst m\<rparr>
        in rbind (mark_free (unat (drop_bit 18 (mm_base_addr m')))
                    (unat (drop_bit 18 (mm_base_addr m' + mm_length m'))) P)
             (\<lambda>P'. Inr (M(a \<mapsto> m'), P')))
     else Inr (M, P))"

text \<open>The loop over the memory map; \<open>None\<close> if it is never left.\<close>

partial_function (option) mmap_loop ::
    "u64 \<Rightarrow> u64 \<Rightarrow> u64 \<Rightarrow> mmap_mem \<times> phys \<Rightarrow> (mmap_mem \<times> phys) res option" where
  "mmap_loop lst lim a S =
     (if a < lim then
        (case fst S a of
           None \<Rightarrow> Some (Inl (BadAddr a))
         | Some m \<Rightarrow>
             (case mmap_entry lst a m S of
                Inl e \<Rightarrow> Some (Inl e)
              | Inr S' \<Rightarrow> mmap_loop lst lim (a + ucast (mm_size m) + 4) S'))
      else Some (Inr S))"

text \<open>
  The part of \<^verbatim>\<open>phys_init\<close> that fills the map, for a machine with \<open>sz\<close> megabytes whose
  first free page is \<open>lst\<close>, and the memory map of \<open>len\<close> bytes at \<open>addr\<close>.
\<close>

definition phys_init_map :: "u64 \<Rightarrow> u64 \<Rightarrow> u64 \<Rightarrow> u64 \<Rightarrow> mmap_mem \<Rightarrow> (mmap_mem \<times> phys) res" where
  "phys_init_map lst sz addr len M =
     of_loop (mmap_loop lst (addr + len) addr (M, phys_fill sz))"

section \<open>Pages in use\<close>

definition busy :: "phys \<Rightarrow> nat \<Rightarrow> bool" where
  "busy P n = bit (phys_map P ! (n div 64)) (n mod 64)"

definition npages :: "phys \<Rightarrow> nat" where
  "npages P = 64 * length (phys_map P)"

text \<open>
  The map is as long as the code believes, begins below the first megabyte's end and
  describes pages whose addresses fit the 52 bits of a physical address.
\<close>

definition phys_ok :: "phys \<Rightarrow> bool" where
  "phys_ok P \<longleftrightarrow> length (phys_map P) = unat (phys_size P) \<and> 4 \<le> unat (phys_size P)
     \<and> unat (phys_size P) \<le> 2 ^ 34"

section \<open>Bits and halves\<close>

lemma or_bit_eq:
  fixes w :: u32
  assumes "j < 32"
  shows "(w OR push_bit j 1) = w \<longleftrightarrow> bit w j" and "(w OR 2 ^ j) = w \<longleftrightarrow> bit w j"
proof -
  show "(w OR 2 ^ j) = w \<longleftrightarrow> bit w j"
  proof
    assume "w OR 2 ^ j = w"
    then have "bit (w OR 2 ^ j) j = bit w j" by simp
    then show "bit w j" using assms by (simp add: bit_simps)
  next
    assume "bit w j"
    then show "w OR 2 ^ j = w"
      by (intro bit_word_eqI) (auto simp: bit_simps)
  qed
  then show "(w OR push_bit j 1) = w \<longleftrightarrow> bit w j"
    by (simp add: push_bit_eq_mult)
qed

lemma find_bit_spec:
  assumes "j \<le> 32"
  shows "j \<le> find_bit w j \<and> find_bit w j \<le> 32
     \<and> (\<forall>i. j \<le> i \<and> i < find_bit w j \<longrightarrow> bit w i)
     \<and> (find_bit w j < 32 \<longrightarrow> \<not> bit w (find_bit w j))"
  using assms
proof (induction w j rule: find_bit.induct)
  case (1 w j)
  show ?case
  proof (cases "j < 32 \<and> (w OR push_bit j 1) = w")
    case True
    then have "bit w j" using or_bit_eq by blast
    moreover have "find_bit w j = find_bit w (Suc j)"
      using True by (simp add: find_bit.simps [of w j])
    moreover have "bit w i" if "j \<le> i" "i < find_bit w (Suc j)" for i
      using that "1.IH" [OF True] True \<open>bit w j\<close> by (cases "i = j") auto
    ultimately show ?thesis
      using "1.IH" [OF True] True by auto
  next
    case False
    then have "find_bit w j = j"
      by (subst find_bit.simps) auto
    then show ?thesis using False "1.prems" or_bit_eq [of j w] by auto
  qed
qed

lemma bit_half: "k < 2 \<Longrightarrow> n < 32 \<Longrightarrow> bit (half w k) n \<longleftrightarrow> bit w (32 * k + n)"
  by (auto simp: half_def bit_simps)

lemma mask_32_u64: "(0xFFFFFFFF :: u64) = mask 32"
  by (simp add: mask_eq_exp_minus_1)

lemma set_half_set_bit:
  assumes "k < 2" and "j < 32"
  shows "set_half k (half w k OR push_bit j 1) w = set_bit (32 * k + j) w"
proof (rule bit_word_eqI)
  fix n assume "n < LENGTH(64)"
  moreover have "k = 0 \<or> k = 1" using assms by auto
  ultimately show "bit (set_half k (half w k OR push_bit j 1) w) n = bit (set_bit (32 * k + j) w) n"
    using assms unfolding set_half_def half_def mask_32_u64 by (auto simp: bit_simps simp del: mask_numeral)
qed


text \<open>What the two loops over a word leave: its lowest clear bit, if it has one.\<close>

lemma find_half_spec:
  assumes "w \<noteq> 0xFFFFFFFFFFFFFFFF" and f: "find_half w = (k, itmp, j)"
  shows "k < 2 \<and> j < 32 \<and> itmp = half w k \<and> \<not> bit w (32 * k + j)
     \<and> (\<forall>i < 32 * k + j. bit w i)"
proof -
  note s0 = find_bit_spec [of 0 "half w 0"] and s1 = find_bit_spec [of 0 "half w 1"]
  show ?thesis
  proof (cases "find_bit (half w 0) 0 = 32")
    case False
    then have "k = 0" "itmp = half w 0" "j = find_bit (half w 0) 0"
      using f by (auto simp: find_half_def Let_def)
    then show ?thesis
      using s0 False by (auto simp: bit_half [of 0, simplified])
  next
    case True
    then have lo: "\<forall>i < 32. bit w i"
      using s0 by (auto simp: bit_half [of 0, simplified])
    have ne: "find_bit (half w 1) 0 \<noteq> 32"
    proof
      assume "find_bit (half w 1) 0 = 32"
      then have hi: "\<forall>i < 32. bit w (32 + i)"
        using s1 by (auto simp: bit_half [of 1, simplified])
      have "w = - 1"
      proof (rule bit_word_eqI)
        fix n assume "n < LENGTH(64)"
        then show "bit w n = bit (- 1 :: u64) n"
          using lo hi [rule_format, of "n - 32"] by (cases "n < 32") auto
      qed
      then show False using assms(1) by simp
    qed
    have "k = 1" "itmp = half w 1" "j = find_bit (half w 1) 0"
      using f True ne by (auto simp: find_half_def Let_def)
    moreover have "bit w i" if "i < 32 + find_bit (half w 1) 0" for i
    proof (cases "i < 32")
      case False
      then show ?thesis
        using that s1 ne bit_half [of 1 "i - 32" w] by auto
    qed (use lo in simp)
    ultimately show ?thesis
      using s1 ne bit_half [of 1 j w] by auto
  qed
qed

lemma alloc_scan_spec:
  assumes "length (phys_map P) = unat (phys_size P)" and "i \<le> unat (phys_size P)"
  shows "\<exists>r. alloc_scan P i = Inr r \<and> i \<le> r \<and> r \<le> unat (phys_size P)
     \<and> (\<forall>m. i \<le> m \<and> m < r \<longrightarrow> phys_map P ! m = 0xFFFFFFFFFFFFFFFF)
     \<and> (r < unat (phys_size P) \<longrightarrow> phys_map P ! r \<noteq> 0xFFFFFFFFFFFFFFFF)"
  using assms
proof (induction P i rule: alloc_scan.induct)
  case (1 P i)
  show ?case
  proof (cases "i < unat (phys_size P) \<and> phys_map P ! i = 0xFFFFFFFFFFFFFFFF")
    case True
    then have get: "map_get P i = Inr 0xFFFFFFFFFFFFFFFF"
      using "1.prems" by (simp add: map_get_def)
    then have "alloc_scan P i = alloc_scan P (Suc i)"
      using True by (simp add: alloc_scan.simps [of P i])
    moreover obtain r where "alloc_scan P (Suc i) = Inr r" "Suc i \<le> r" "r \<le> unat (phys_size P)"
      "\<forall>m. Suc i \<le> m \<and> m < r \<longrightarrow> phys_map P ! m = 0xFFFFFFFFFFFFFFFF"
      "r < unat (phys_size P) \<longrightarrow> phys_map P ! r \<noteq> 0xFFFFFFFFFFFFFFFF"
      using "1.IH" [OF _ get] True "1.prems" by auto
    ultimately show ?thesis
      using True by (metis Suc_leD le_eq_less_or_eq Suc_le_eq)
  next
    case False
    then have "alloc_scan P i = Inr i"
      using "1.prems" by (subst alloc_scan.simps) (auto simp: map_get_def)
    then show ?thesis using False "1.prems" by auto
  qed
qed


section \<open>Allocation takes the lowest free page\<close>

lemma full_word_busy:
  assumes "phys_map P ! (n div 64) = 0xFFFFFFFFFFFFFFFF"
  shows "busy P n"
proof -
  have m: "(0xFFFFFFFFFFFFFFFF :: u64) = - 1" by simp
  show ?thesis unfolding busy_def assms m by simp
qed

lemma busy_map_set:
  assumes "i < length (phys_map P)" and "b < 64" and "n < npages P"
  shows "busy (P\<lparr>phys_map := (phys_map P)[i := set_bit b (phys_map P ! i)]\<rparr>) n
     \<longleftrightarrow> n = 64 * i + b \<or> busy P n"
proof (cases "n div 64 = i")
  case True
  have "n mod 64 = b \<longleftrightarrow> n = 64 * i + b"
    using mult_div_mod_eq [of 64 n] unfolding True by linarith
  then show ?thesis
    using True assms by (auto simp: busy_def bit_simps)
next
  case False
  then have "n \<noteq> 64 * i + b"
    using assms(2) by auto
  then show ?thesis
    using False by (simp add: busy_def)
qed

lemma alloc_phys_page_some:
  assumes ok: "phys_ok P" and free: "256 \<le> m" "m < npages P" "\<not> busy P m"
  obtains n P' where "alloc_phys_page P = Inr (of_nat (4096 * n), P')"
    and "256 \<le> n" and "n < npages P" and "\<not> busy P n"
    and "\<forall>k. 256 \<le> k \<and> k < n \<longrightarrow> busy P k"
    and "\<forall>k < npages P. busy P' k \<longleftrightarrow> k = n \<or> busy P k"
    and "phys_size P' = phys_size P" and "length (phys_map P') = length (phys_map P)"
proof -
  have len: "length (phys_map P) = unat (phys_size P)" "4 \<le> unat (phys_size P)"
    using ok by (simp_all add: phys_ok_def)
  obtain i where i: "alloc_scan P 4 = Inr i" "4 \<le> i" "i \<le> unat (phys_size P)"
    and full: "\<forall>m. 4 \<le> m \<and> m < i \<longrightarrow> phys_map P ! m = 0xFFFFFFFFFFFFFFFF"
    and nf: "i < unat (phys_size P) \<longrightarrow> phys_map P ! i \<noteq> 0xFFFFFFFFFFFFFFFF"
    using alloc_scan_spec [OF len(1,2)] by blast
  have "m div 64 < length (phys_map P)"
    using free(2) by (simp add: npages_def less_mult_imp_div_less mult.commute)
  moreover have "\<not> m div 64 < i"
    using full full_word_busy [of P m] free by auto
  ultimately have ilt: "i < unat (phys_size P)" using len by simp
  obtain k itmp j where f: "find_half (phys_map P ! i) = (k, itmp, j)"
    by (cases "find_half (phys_map P ! i)") auto
  have h: "k < 2" "j < 32" "itmp = half (phys_map P ! i) k" "\<not> bit (phys_map P ! i) (32 * k + j)"
    "\<forall>b < 32 * k + j. bit (phys_map P ! i) b"
    using find_half_spec [OF _ f] nf ilt by auto
  let ?n = "64 * i + (32 * k + j)"
  let ?P' = "P\<lparr>phys_map := (phys_map P)[i := set_bit (32 * k + j) (phys_map P ! i)]\<rparr>"
  have dm: "?n div 64 = i" "?n mod 64 = 32 * k + j"
    using h by auto
  have "alloc_phys_page P = Inr (push_bit 12 (of_nat (64 * i + (j + k * 32))), ?P')"
    using i ilt len f h set_half_set_bit [OF h(1,2)]
    by (simp add: alloc_phys_page_def map_get_def map_set_def)
  moreover have "push_bit 12 (of_nat (64 * i + (j + k * 32))) = (of_nat (4096 * ?n) :: u64)"
    by (simp add: push_bit_eq_mult algebra_simps)
  ultimately have "alloc_phys_page P = Inr (of_nat (4096 * ?n), ?P')"
    by simp
  then show thesis
  proof (rule that)
    show "\<not> busy P ?n" using h dm by (simp add: busy_def)
    show "?n < npages P" using h ilt len by (simp add: npages_def)
    show "\<forall>q. 256 \<le> q \<and> q < ?n \<longrightarrow> busy P q"
    proof (intro allI impI)
      fix q assume q: "256 \<le> q \<and> q < ?n"
      show "busy P q"
      proof (cases "q div 64 = i")
        case True
        then have "q mod 64 < 32 * k + j" using q mult_div_mod_eq [of 64 q] by linarith
        then show ?thesis using h True by (simp add: busy_def)
      next
        case False
        then have "4 \<le> q div 64 \<and> q div 64 < i" using q h by auto
        then show ?thesis using full by (intro full_word_busy) blast
      qed
    qed
    show "\<forall>q < npages P. busy ?P' q \<longleftrightarrow> q = ?n \<or> busy P q"
      using busy_map_set [of i P "32 * k + j"] ilt len h by auto
  qed (use i in simp_all)
qed

lemma alloc_phys_page_none:
  assumes ok: "phys_ok P" and full: "\<forall>m. 256 \<le> m \<and> m < npages P \<longrightarrow> busy P m"
  shows "alloc_phys_page P = Inr (0, P)"
proof -
  have len: "length (phys_map P) = unat (phys_size P)" "4 \<le> unat (phys_size P)"
    using ok by (simp_all add: phys_ok_def)
  obtain i where i: "alloc_scan P 4 = Inr i" "4 \<le> i" "i \<le> unat (phys_size P)"
    and nf: "i < unat (phys_size P) \<longrightarrow> phys_map P ! i \<noteq> 0xFFFFFFFFFFFFFFFF"
    using alloc_scan_spec [OF len(1,2)] by blast
  have "i = unat (phys_size P)"
  proof (rule ccontr)
    assume "i \<noteq> unat (phys_size P)"
    then have ilt: "i < unat (phys_size P)" using i by simp
    obtain k itmp j where f: "find_half (phys_map P ! i) = (k, itmp, j)"
      by (cases "find_half (phys_map P ! i)") auto
    have h: "k < 2" "j < 32" "\<not> bit (phys_map P ! i) (32 * k + j)"
      using find_half_spec [OF _ f] nf ilt by auto
    let ?n = "64 * i + (32 * k + j)"
    have "?n div 64 = i" "?n mod 64 = 32 * k + j" using h by auto
    then have "\<not> busy P ?n" using h by (simp add: busy_def)
    moreover have "256 \<le> ?n" "?n < npages P"
      using h i ilt len by (auto simp: npages_def)
    ultimately show False using full by blast
  qed
  then show ?thesis using i by (simp add: alloc_phys_page_def)
qed


section \<open>Freeing a page\<close>

lemma int_bit_mask_low:
  assumes "b < 31"
  shows "int_bit_mask b = Inr (NOT (push_bit b 1))"
proof -
  have "scast (NOT (push_bit b 1 :: 32 word)) = (NOT (push_bit b 1) :: u64)"
    by (rule bit_word_eqI) (use assms in \<open>auto simp: bit_simps min_def\<close>)
  then show ?thesis using assms by (simp add: int_bit_mask_def del: push_bit_of_1)
qed

lemma int_bit_mask_31: "int_bit_mask 31 = Inr 0x7FFFFFFF"
  by (simp add: int_bit_mask_def)

lemma page_index:
  assumes "phys_ok P" and "n < npages P"
  shows "unat (drop_bit 12 (of_nat (4096 * n) :: u64)) = n"
    and "unat (drop_bit 6 (drop_bit 12 (of_nat (4096 * n) :: u64))) = n div 64"
    and "unat (drop_bit 12 (of_nat (4096 * n) :: u64) mod 64) = n mod 64"
    and "n \<noteq> 0 \<Longrightarrow> (of_nat (4096 * n) :: u64) \<noteq> 0"
proof -
  have lt: "4096 * n < 2 ^ 64"
    using assms by (simp add: phys_ok_def npages_def)
  then have un: "unat (of_nat (4096 * n) :: u64) = 4096 * n"
    by (simp only: unat_of_nat) (simp add: mod_less)
  define w :: u64 where "w = of_nat (4096 * n)"
  have w: "unat w = 4096 * n" using un unfolding w_def .
  have d: "unat (drop_bit 12 w) = n"
    by (simp only: unat_drop_bit_eq w drop_bit_nat_def) simp
  show "unat (drop_bit 12 (of_nat (4096 * n) :: u64)) = n"
    using d unfolding w_def .
  show "unat (drop_bit 6 (drop_bit 12 (of_nat (4096 * n) :: u64))) = n div 64"
    using d unfolding w_def [symmetric] by (simp only: unat_drop_bit_eq [of 6] drop_bit_nat_def) simp
  show "unat (drop_bit 12 (of_nat (4096 * n) :: u64) mod 64) = n mod 64"
    using d unfolding w_def [symmetric] by (simp add: unat_mod)
  show "(of_nat (4096 * n) :: u64) \<noteq> 0" if "n \<noteq> 0"
    using w that unfolding w_def [symmetric] by auto
qed

lemma free_phys_page_eq:
  assumes "phys_ok P" and "n < npages P" and "n \<noteq> 0"
  shows "free_phys_page (of_nat (4096 * n)) P =
     rbind (int_bit_mask (n mod 64)) (\<lambda>m.
       Inr (P\<lparr>phys_map := (phys_map P)[n div 64 := (phys_map P ! (n div 64)) AND m]\<rparr>))"
proof -
  have "n div 64 < length (phys_map P)"
    using assms(2) by (simp add: npages_def less_mult_imp_div_less mult.commute)
  then show ?thesis
    using page_index [OF assms(1,2)] assms(3)
    by (simp add: free_phys_page_def Let_def map_get_def map_set_def del: of_nat_mult)
qed

lemma busy_map_and:
  assumes "i < length (phys_map P)"
  shows "busy (P\<lparr>phys_map := (phys_map P)[i := (phys_map P ! i) AND m]\<rparr>) k
     \<longleftrightarrow> busy P k \<and> (k div 64 = i \<longrightarrow> bit m (k mod 64))"
  using assms by (cases "k div 64 = i") (auto simp: busy_def bit_and_iff)

lemma page_eq_iff: "k = n \<longleftrightarrow> k div 64 = n div 64 \<and> k mod 64 = (n mod 64 :: nat)"
  by (metis mult_div_mod_eq)

lemma word_of_page: "n < npages P \<Longrightarrow> n div 64 < length (phys_map P)"
  by (simp add: npages_def less_mult_imp_div_less mult.commute)

text \<open>
  C26. \<^verbatim>\<open>alloc_phys_page\<close> always returns: the address of the lowest free page above the first
  megabyte, after setting the bit of that page and of no other, or 0, with the map
  unchanged, exactly when no such page is free.
\<close>

theorem alloc_phys_page_lowest:
  assumes "phys_ok P"
  shows "if \<exists>m. 256 \<le> m \<and> m < npages P \<and> \<not> busy P m
     then \<exists>n P'. alloc_phys_page P = Inr (of_nat (4096 * n), P') \<and> 256 \<le> n \<and> n < npages P
        \<and> \<not> busy P n \<and> (\<forall>k. 256 \<le> k \<and> k < n \<longrightarrow> busy P k)
        \<and> (\<forall>k < npages P. busy P' k \<longleftrightarrow> k = n \<or> busy P k) \<and> phys_ok P' \<and> npages P' = npages P
     else alloc_phys_page P = Inr (0, P)"
proof (cases "\<exists>m. 256 \<le> m \<and> m < npages P \<and> \<not> busy P m")
  case True
  then obtain m where m: "256 \<le> m" "m < npages P" "\<not> busy P m" by blast
  obtain n P' where r: "alloc_phys_page P = Inr (of_nat (4096 * n), P')" "256 \<le> n" "n < npages P"
    "\<not> busy P n" "\<forall>k. 256 \<le> k \<and> k < n \<longrightarrow> busy P k"
    "\<forall>k < npages P. busy P' k \<longleftrightarrow> k = n \<or> busy P k"
    "phys_size P' = phys_size P" "length (phys_map P') = length (phys_map P)"
    by (rule alloc_phys_page_some [OF assms m])
  moreover have "phys_ok P'" "npages P' = npages P"
    using r(7,8) assms by (simp_all add: phys_ok_def npages_def)
  ultimately show ?thesis using True by auto
next
  case False
  then have "\<forall>m. 256 \<le> m \<and> m < npages P \<longrightarrow> busy P m" by blast
  then show ?thesis using alloc_phys_page_none [OF assms] False by auto
qed

definition demo_phys :: phys where
  "demo_phys = \<lparr>phys_map = [-1, -1, -1, -1, 1], phys_size = 5\<rparr>"

lemma demo_phys_ok: "phys_ok demo_phys" "npages demo_phys = 320" "\<not> busy demo_phys 257"
  by (simp_all add: demo_phys_def phys_ok_def npages_def busy_def)

theorem alloc_phys_page_lowest_witness:
  "\<exists>n P'. alloc_phys_page demo_phys = Inr (of_nat (4096 * n), P') \<and> 256 \<le> n \<and> \<not> busy demo_phys n"
proof -
  have "\<exists>m. 256 \<le> m \<and> m < npages demo_phys \<and> \<not> busy demo_phys m"
    by (rule exI [of _ 257]) (simp add: demo_phys_ok)
  then show ?thesis using alloc_phys_page_lowest [OF demo_phys_ok(1)] by auto
qed

text \<open>
  \<^verbatim>\<open>free_phys_page\<close> marks exactly the given page free when the page is one of the first
  31 of its group of 64.
\<close>

theorem free_phys_page_clears:
  assumes "phys_ok P" and "n < npages P" and "n \<noteq> 0" and "n mod 64 < 31"
  shows "\<exists>P'. free_phys_page (of_nat (4096 * n)) P = Inr P' \<and> phys_ok P' \<and> npages P' = npages P
     \<and> (\<forall>k < npages P. busy P' k \<longleftrightarrow> k \<noteq> n \<and> busy P k)"
proof -
  let ?P' = "P\<lparr>phys_map := (phys_map P)[n div 64 := (phys_map P ! (n div 64)) AND NOT (push_bit (n mod 64) 1)]\<rparr>"
  have "free_phys_page (of_nat (4096 * n)) P = Inr ?P'"
    unfolding free_phys_page_eq [OF assms(1-3)] int_bit_mask_low [OF assms(4)] by simp
  moreover have "phys_ok ?P'" "npages ?P' = npages P"
    using assms(1) by (simp_all add: phys_ok_def npages_def)
  moreover have "busy ?P' k \<longleftrightarrow> k \<noteq> n \<and> busy P k" for k
  proof -
    have "bit (NOT (push_bit (n mod 64) 1) :: u64) (k mod 64) \<longleftrightarrow> k mod 64 \<noteq> n mod 64"
      by (auto simp: bit_simps simp del: push_bit_of_1)
    then show ?thesis
      unfolding busy_map_and [OF word_of_page [OF assms(2)]] page_eq_iff [of k n] by blast
  qed
  ultimately show ?thesis by blast
qed

theorem free_phys_page_clears_witness:
  "\<exists>P'. free_phys_page (of_nat (4096 * 256)) demo_phys = Inr P' \<and> \<not> busy P' 256 \<and> busy P' 255"
proof -
  have b: "busy demo_phys 255" by (simp add: busy_def demo_phys_def)
  obtain P' where "free_phys_page (of_nat (4096 * 256)) demo_phys = Inr P'"
    "\<forall>k < npages demo_phys. busy P' k \<longleftrightarrow> k \<noteq> 256 \<and> busy demo_phys k"
    using free_phys_page_clears [OF demo_phys_ok(1), of 256] demo_phys_ok(2) by auto
  then show ?thesis using b demo_phys_ok(2) by auto
qed

text \<open>
  \<^verbatim>\<open>free_phys_page\<close> on the page 31 of a group of 64 frees the last 33 pages of the group,
  used or not, because the \<^verbatim>\<open>int\<close> mask is sign-extended; on the pages 32 to 63, which
  \<^verbatim>\<open>alloc_phys_page\<close> hands out too, the shift is undefined.
\<close>

theorem free_phys_page_high:
  assumes "phys_ok P" and "n < npages P" and "n \<noteq> 0" and "31 \<le> n mod 64"
  shows "if n mod 64 = 31
     then \<exists>P'. free_phys_page (of_nat (4096 * n)) P = Inr P'
        \<and> (\<forall>k < npages P. busy P' k \<longleftrightarrow> busy P k \<and> \<not> (n \<le> k \<and> k div 64 = n div 64))
     else free_phys_page (of_nat (4096 * n)) P = Inl (ShiftUB (n mod 64))"
proof (cases "n mod 64 = 31")
  case True
  let ?P' = "P\<lparr>phys_map := (phys_map P)[n div 64 := (phys_map P ! (n div 64)) AND 0x7FFFFFFF]\<rparr>"
  have "free_phys_page (of_nat (4096 * n)) P = Inr ?P'"
    unfolding free_phys_page_eq [OF assms(1-3)] True int_bit_mask_31 by simp
  moreover have "busy ?P' k \<longleftrightarrow> busy P k \<and> \<not> (n \<le> k \<and> k div 64 = n div 64)" for k
  proof -
    have "(0x7FFFFFFF :: u64) = mask 31" by (simp add: mask_eq_exp_minus_1)
    then have b: "bit (0x7FFFFFFF :: u64) (k mod 64) \<longleftrightarrow> k mod 64 < 31"
      by (simp only: bit_mask_iff) simp
    have "k div 64 = n div 64 \<Longrightarrow> n \<le> k \<longleftrightarrow> 31 \<le> k mod 64"
      using mult_div_mod_eq [of 64 n] mult_div_mod_eq [of 64 k] True by linarith
    then show ?thesis
      using busy_map_and [OF word_of_page [OF assms(2)], of "0x7FFFFFFF" k] b by auto
  qed
  ultimately show ?thesis using True by auto
next
  case False
  then show ?thesis
    using assms(4) by (simp add: free_phys_page_eq [OF assms(1-3)] int_bit_mask_def del: of_nat_mult)
qed

section \<open>The map built at boot\<close>

theorem free_phys_page_high_witness:
  "free_phys_page (of_nat (4096 * 288)) demo_phys = Inl (ShiftUB 32)"
  using free_phys_page_high [OF demo_phys_ok(1), of 288] demo_phys_ok(2) by simp

text \<open>The entries the loop over the memory map visits, none of them past the address space.\<close>

fun mmap_at :: "mmap_mem \<Rightarrow> u64 \<Rightarrow> u64 \<Rightarrow> mmap_info list \<Rightarrow> bool" where
  "mmap_at M lim a [] \<longleftrightarrow> \<not> a < lim"
| "mmap_at M lim a (m # ms) \<longleftrightarrow> a < lim \<and> M a = Some m
     \<and> unat a + unat (mm_size m) + 4 < 2 ^ 64 \<and> mmap_at M lim (a + ucast (mm_size m) + 4) ms"

text \<open>The 256 KB units that an entry makes available.\<close>

definition unit_freed :: "u64 \<Rightarrow> mmap_info \<Rightarrow> nat \<Rightarrow> bool" where
  "unit_freed lst m u \<longleftrightarrow> mm_type m = 1 \<and> unat (drop_bit 18 (mmap_base lst m)) \<le> u
     \<and> u < unat (drop_bit 18 (mmap_base lst m + mm_length m))"

lemma mark_free_spec:
  assumes "length (phys_map P) = unat (phys_size P)"
  shows "\<exists>P'. mark_free i lim P = Inr P' \<and> phys_size P' = phys_size P
     \<and> length (phys_map P') = length (phys_map P)
     \<and> (\<forall>u < length (phys_map P). phys_map P' ! u = (if i \<le> u \<and> u < lim then 0 else phys_map P ! u))"
  using assms
proof (induction i lim P rule: mark_free.induct)
  case (1 i lim P)
  show ?case
  proof (cases "i < lim \<and> i < unat (phys_size P)")
    case True
    let ?Q = "P\<lparr>phys_map := (phys_map P)[i := 0]\<rparr>"
    have set: "map_set i 0 P = Inr ?Q"
      using True "1.prems" by (simp add: map_set_def)
    then have "mark_free i lim P = mark_free (Suc i) lim ?Q"
      using True by (simp add: mark_free.simps [of i lim P])
    moreover obtain P' where "mark_free (Suc i) lim ?Q = Inr P'" "phys_size P' = phys_size ?Q"
      "length (phys_map P') = length (phys_map ?Q)"
      "\<forall>u < length (phys_map ?Q). phys_map P' ! u
          = (if Suc i \<le> u \<and> u < lim then 0 else phys_map ?Q ! u)"
      using "1.IH" [OF True set] "1.prems" by auto
    ultimately show ?thesis
      using True by (auto simp: nth_list_update)
  next
    case False
    then have "mark_free i lim P = Inr P"
      by (subst mark_free.simps) auto
    then show ?thesis using False "1.prems" by auto
  qed
qed

lemma mmap_at_cong:
  "(\<And>x. unat a \<le> unat x \<Longrightarrow> M x = M' x) \<Longrightarrow> mmap_at M lim a ms \<longleftrightarrow> mmap_at M' lim a ms"
proof (induction ms arbitrary: a)
  case (Cons m ms)
  have "unat (a + ucast (mm_size m) + 4) = unat a + unat (mm_size m) + 4"
    if "unat a + unat (mm_size m) + 4 < 2 ^ 64"
    using unat_add_of_nat [of a "unat (mm_size m) + 4"] that by (simp add: add.assoc)
  then show ?case using Cons.IH [of "a + ucast (mm_size m) + 4"] Cons.prems by auto
qed simp

lemma mmap_loop_spec:
  assumes "mmap_at M lim a ms" and "length (phys_map P) = unat (phys_size P)"
  shows "\<exists>M' P'. mmap_loop lst lim a (M, P) = Some (Inr (M', P')) \<and> phys_size P' = phys_size P
     \<and> length (phys_map P') = length (phys_map P)
     \<and> (\<forall>u < length (phys_map P). phys_map P' ! u
          = (if \<exists>m \<in> set ms. unit_freed lst m u then 0 else phys_map P ! u))"
  using assms
proof (induction ms arbitrary: a M P)
  case Nil
  then show ?case by (subst mmap_loop.simps) auto
next
  case (Cons m ms)
  let ?a = "a + ucast (mm_size m) + 4"
  have ua: "unat ?a = unat a + unat (mm_size m) + 4"
    using unat_add_of_nat [of a "unat (mm_size m) + 4"] Cons.prems(1) by (simp add: add.assoc)
  obtain M1 P1 where e: "mmap_entry lst a m (M, P) = Inr (M1, P1)" "phys_size P1 = phys_size P"
    "length (phys_map P1) = length (phys_map P)" "\<forall>x. x \<noteq> a \<longrightarrow> M1 x = M x"
    "\<forall>u < length (phys_map P). phys_map P1 ! u = (if unit_freed lst m u then 0 else phys_map P ! u)"
  proof (cases "mm_type m = 1")
    case True
    obtain P' where "mark_free (unat (drop_bit 18 (mmap_base lst m)))
        (unat (drop_bit 18 (mmap_base lst m + mm_length m))) P = Inr P'"
      "phys_size P' = phys_size P" "length (phys_map P') = length (phys_map P)"
      "\<forall>u < length (phys_map P). phys_map P' ! u = (if unit_freed lst m u then 0 else phys_map P ! u)"
      using mark_free_spec [OF Cons.prems(2)] True unfolding unit_freed_def by metis
    then show ?thesis
      using that [of "M(a \<mapsto> m\<lparr>mm_base_addr := mmap_base lst m\<rparr>)" P'] True
      by (simp add: mmap_entry_def Let_def)
  next
    case False
    then show ?thesis
      using that [of M P] by (simp add: mmap_entry_def unit_freed_def)
  qed
  have "M x = M1 x" if "unat ?a \<le> unat x" for x
    using that ua e(4) by (cases "x = a") auto
  then have "mmap_at M1 lim ?a ms"
    using Cons.prems(1) mmap_at_cong [of ?a M M1 lim ms] by simp
  then obtain M' P' where "mmap_loop lst lim ?a (M1, P1) = Some (Inr (M', P'))"
    "phys_size P' = phys_size P1" "length (phys_map P') = length (phys_map P1)"
    "\<forall>u < length (phys_map P1). phys_map P' ! u
       = (if \<exists>m \<in> set ms. unit_freed lst m u then 0 else phys_map P1 ! u)"
    using Cons.IH e(2,3) Cons.prems(2) by (metis (no_types, lifting))
  then show ?case
    using Cons.prems(1) e by (subst mmap_loop.simps) auto
qed

lemma phys_fill_ok:
  assumes "sz \<noteq> 0" and "unat sz \<le> 2 ^ 32"
  shows "phys_ok (phys_fill sz)" and "npages (phys_fill sz) = 256 * unat sz"
proof -
  have "unat (push_bit 2 sz) = 4 * unat sz"
    using assms by (simp add: push_bit_eq_mult unat_word_ariths)
  moreover have "1 \<le> unat sz" using assms(1) by (simp add: Suc_le_eq unat_gt_0)
  ultimately show "phys_ok (phys_fill sz)" "npages (phys_fill sz) = 256 * unat sz"
    using assms(2) by (simp_all add: phys_fill_def phys_ok_def npages_def)
qed

lemma phys_init_map_busy:
  assumes "mmap_at M (addr + len) addr ms" and "sz \<noteq> 0" and "unat sz \<le> 2 ^ 32"
  shows "\<exists>M' P'. phys_init_map lst sz addr len M = Inr (M', P') \<and> phys_ok P'
     \<and> npages P' = 256 * unat sz
     \<and> (\<forall>n < npages P'. busy P' n \<longleftrightarrow> \<not> (\<exists>m \<in> set ms. unit_freed lst m (n div 64)))"
proof -
  let ?F = "phys_fill sz"
  note F = phys_fill_ok [OF assms(2,3)]
  have len: "length (phys_map ?F) = unat (phys_size ?F)" using F by (simp add: phys_ok_def)
  obtain M' P' where l: "mmap_loop lst (addr + len) addr (M, ?F) = Some (Inr (M', P'))"
    "phys_size P' = phys_size ?F" "length (phys_map P') = length (phys_map ?F)"
    "\<forall>u < length (phys_map ?F). phys_map P' ! u
       = (if \<exists>m \<in> set ms. unit_freed lst m u then 0 else phys_map ?F ! u)"
    using mmap_loop_spec [OF assms(1) len] by blast
  have "busy P' n \<longleftrightarrow> \<not> (\<exists>m \<in> set ms. unit_freed lst m (n div 64))" if "n < npages P'" for n
  proof -
    have u: "n div 64 < length (phys_map ?F)" using word_of_page [OF that] l(3) by simp
    moreover have "phys_map ?F ! (n div 64) = - 1" using u by (simp add: phys_fill_def)
    ultimately show ?thesis using l(4) by (simp add: busy_def)
  qed
  moreover have "phys_ok P'" "npages P' = 256 * unat sz"
    using F l(2,3) by (simp_all add: phys_ok_def npages_def)
  ultimately show ?thesis
    using l(1) by (auto simp: phys_init_map_def)
qed


text \<open>
  On a memory map whose entries the loop can visit, \<^verbatim>\<open>phys_init\<close> ends, with a map in which
  a page is free exactly when some available area contains its whole 256 KB unit, the
  area at 1 MB counted from the first unit after the kernel on.
\<close>

theorem phys_init_map_spec:
  assumes "mmap_at M (addr + len) addr ms" and "sz \<noteq> 0" and "unat sz \<le> 2 ^ 32"
  shows "\<exists>M' P'. phys_init_map lst sz addr len M = Inr (M', P') \<and> phys_ok P'
     \<and> npages P' = 256 * unat sz
     \<and> (\<forall>n < npages P'. busy P' n \<longleftrightarrow> \<not> (\<exists>m \<in> set ms. unit_freed lst m (n div 64)))"
  by (rule phys_init_map_busy [OF assms])

text \<open>A machine with 16 MB whose only available area is the 7 MB from 1 MB to 8 MB.\<close>

definition area_7mb :: mmap_info where
  "area_7mb = \<lparr>mm_size = 20, mm_base_addr = 0x100000, mm_length = 0x700000, mm_type = 1\<rparr>"

definition map_7mb :: mmap_mem where
  "map_7mb = [0x1000 \<mapsto> area_7mb]"

lemma map_7mb_at: "mmap_at map_7mb (0x1000 + 24) 0x1000 [area_7mb]"
  by (simp add: map_7mb_def area_7mb_def)

lemma area_7mb_units: "unit_freed 0x180000 area_7mb u \<longleftrightarrow> 7 \<le> u \<and> u < 35"
  by (simp add: unit_freed_def area_7mb_def mmap_base_def)

theorem phys_init_map_spec_witness:
  "mmap_at map_7mb (0x1000 + 24) 0x1000 [area_7mb] \<and>
   (\<exists>M' P'. phys_init_map 0x180000 16 0x1000 24 map_7mb = Inr (M', P')
      \<and> busy P' 447 \<and> \<not> busy P' 448)"
  using phys_init_map_spec [OF map_7mb_at, of 16 "0x180000"] map_7mb_at
  by (auto simp: area_7mb_units)

text \<open>
  The area the kernel is loaded into is moved up but not shortened: on a 16 MB machine
  whose available memory ends at 8 MB, with the kernel ending at 1.5 MB, the pages from
  8 MB up to the page 0x8C0 are marked free, although no memory is there.
\<close>

theorem phys_init_frees_past_end:
  "\<exists>M' P'. phys_init_map 0x180000 16 0x1000 24 [0x1000 \<mapsto>
       \<lparr>mm_size = 20, mm_base_addr = 0x100000, mm_length = 0x700000, mm_type = 1\<rparr>] = Inr (M', P')
     \<and> {n. npages P' = 4096 \<and> 0x800 \<le> n \<and> n < 0x8C0} = {n. 0x800 \<le> n \<and> n < 0x1000 \<and> \<not> busy P' n}"
proof -
  obtain M' P' where r: "phys_init_map 0x180000 16 0x1000 24 map_7mb = Inr (M', P')"
    "npages P' = 4096"
    "\<forall>n < npages P'. busy P' n \<longleftrightarrow> \<not> (7 \<le> n div 64 \<and> n div 64 < 35)"
    using phys_init_map_busy [OF map_7mb_at, of 16 "0x180000"] by (auto simp: area_7mb_units)
  have "\<not> busy P' n \<longleftrightarrow> n < 0x8C0" if "0x800 \<le> n \<and> n < 0x1000" for n
  proof -
    have "busy P' n \<longleftrightarrow> \<not> (7 \<le> n div 64 \<and> n div 64 < 35)" using r(2,3) that by simp
    moreover have "7 \<le> n div 64" using div_le_mono [of 448 n 64] that by simp
    moreover have "n div 64 < 35 \<longleftrightarrow> n < 0x8C0" using div_less_iff_less_mult [of 64 n 35] by simp
    ultimately show ?thesis by blast
  qed
  moreover have b: "(0x8C0 :: nat) < 0x1000" by simp
  ultimately have "{n. npages P' = 4096 \<and> 0x800 \<le> n \<and> n < 0x8C0} = {n. 0x800 \<le> n \<and> n < 0x1000 \<and> \<not> busy P' n}"
    using r(2) by (intro Collect_cong) (meson b less_trans)
  then show ?thesis using r(1) unfolding map_7mb_def area_7mb_def by blast
qed

section \<open>The bitmap as a source of frames\<close>

definition used_frames :: "phys \<Rightarrow> u64 set" where
  "used_frames P = {of_nat (4096 * n) | n. n < npages P \<and> busy P n}"

lemma page_inj:
  assumes "phys_ok P" and "m < npages P" and "n < npages P"
  shows "(of_nat (4096 * m) :: u64) = of_nat (4096 * n) \<longleftrightarrow> m = n"
  using page_index(1) [OF assms(1,2)] page_index(1) [OF assms(1,3)] by metis

lemma page_aligned_page: "page_aligned (of_nat (4096 * n))"
proof -
  have "take_bit 12 (of_nat (4096 * n) :: u64) = of_nat (take_bit 12 (4096 * n))"
    by (rule take_bit_of_nat)
  then show ?thesis by (simp add: page_aligned_def take_bit_nat_def del: of_nat_mult)
qed

lemma alloc_frame:
  assumes ok: "phys_ok P" and a: "alloc_phys_page P = Inr (p, P')" and "p \<noteq> 0"
  shows "phys_ok P' \<and> page_aligned p \<and> p \<notin> used_frames P \<and> used_frames P' = insert p (used_frames P)"
proof -
  obtain m where m: "256 \<le> m" "m < npages P" "\<not> busy P m"
    using alloc_phys_page_none [OF ok] a \<open>p \<noteq> 0\<close> by force
  obtain n where n: "p = of_nat (4096 * n)" "n < npages P" "\<not> busy P n"
    and b: "\<forall>k < npages P. busy P' k \<longleftrightarrow> k = n \<or> busy P k"
    and s: "phys_size P' = phys_size P" "length (phys_map P') = length (phys_map P)"
    using alloc_phys_page_some [OF ok m] a by (metis Inr_inject prod.inject)
  have np: "npages P' = npages P" using s by (simp add: npages_def)
  have "p \<notin> used_frames P"
    using n page_inj [OF ok _ n(2)] unfolding used_frames_def by blast
  moreover have "used_frames P' = insert p (used_frames P)"
    using n b unfolding used_frames_def np by blast
  ultimately show ?thesis
    using ok s n(1) page_aligned_page by (simp add: phys_ok_def)
qed

text \<open>The frames that can still be handed out.\<close>

definition free_frames :: "phys \<Rightarrow> u64 set" where
  "free_frames P = {of_nat (4096 * n) | n. 256 \<le> n \<and> n < npages P \<and> \<not> busy P n}"

lemma free_used_disjoint: "phys_ok P \<Longrightarrow> free_frames P \<inter> used_frames P = {}"
  using page_inj unfolding free_frames_def used_frames_def by fastforce

lemma free_frame_small:
  assumes "phys_ok P" and "p \<in> free_frames P"
  shows "page_aligned p" and "unat p < 2 ^ 52" and "p \<noteq> 0"
proof -
  obtain n where n: "p = of_nat (4096 * n)" "256 \<le> n" "n < npages P"
    using assms(2) by (auto simp: free_frames_def)
  have lt: "4096 * n < 2 ^ 52"
    using n assms by (simp add: phys_ok_def npages_def)
  show "page_aligned p" using n(1) page_aligned_page by simp
  have "unat p = 4096 * n"
    unfolding n(1) unat_of_nat using lt by simp
  then show "unat p < 2 ^ 52" "p \<noteq> 0" using lt n(2) by auto
qed

lemma alloc_free_frame:
  assumes ok: "phys_ok P" and a: "alloc_phys_page P = Inr (p, P')" and "p \<noteq> 0"
  shows "p \<in> free_frames P" and "free_frames P' \<subseteq> free_frames P"
proof -
  obtain m where m: "256 \<le> m" "m < npages P" "\<not> busy P m"
    using alloc_phys_page_none [OF ok] a \<open>p \<noteq> 0\<close> by force
  obtain n where n: "p = of_nat (4096 * n)" "256 \<le> n" "n < npages P" "\<not> busy P n"
    and b: "\<forall>k < npages P. busy P' k \<longleftrightarrow> k = n \<or> busy P k"
    and s: "length (phys_map P') = length (phys_map P)"
    using alloc_phys_page_some [OF ok m] a by (metis Inr_inject prod.inject)
  show "p \<in> free_frames P" using n unfolding free_frames_def by blast
  have "npages P' = npages P" using s by (simp add: npages_def)
  then show "free_frames P' \<subseteq> free_frames P" using b unfolding free_frames_def by auto
qed

lemma alloc_total_frame:
  assumes "phys_ok P"
  shows "\<exists>p P'. alloc_phys_page P = Inr (p, P')"
proof (cases "\<exists>m. 256 \<le> m \<and> m < npages P \<and> \<not> busy P m")
  case True
  then show ?thesis using alloc_phys_page_some [OF assms] by metis
next
  case False
  then show ?thesis using alloc_phys_page_none [OF assms] by blast
qed

lemma alloc_none_same:
  assumes ok: "phys_ok P" and "alloc_phys_page P = Inr (0, P')"
  shows "P' = P"
proof (cases "\<exists>m. 256 \<le> m \<and> m < npages P \<and> \<not> busy P m")
  case True
  then obtain m where m: "256 \<le> m" "m < npages P" "\<not> busy P m" by blast
  obtain n P'' where "alloc_phys_page P = Inr (of_nat (4096 * n), P'')" "256 \<le> n" "n < npages P"
    using alloc_phys_page_some [OF ok m] by metis
  then show ?thesis using assms(2) page_index(4) [OF ok, of n] by auto
next
  case False
  then show ?thesis using alloc_phys_page_none [OF ok] assms(2) by force
qed

interpretation frames: frame_source alloc_phys_page phys_ok used_frames
  by unfold_locales (use alloc_total_frame alloc_frame alloc_none_same in blast)+

text \<open>
  C27. Frames taken one after the other are distinct, page aligned and were not in use before.
\<close>

theorem frames_distinct:
  assumes "phys_ok P" and "take_frames alloc_phys_page n P = Inr (ps, P')" and "0 \<notin> set ps"
  shows "distinct ps \<and> set ps \<inter> used_frames P = {} \<and> (\<forall>p \<in> set ps. page_aligned p)"
  using frames.take_frames_fresh [OF assms] by blast

definition demo_phys2 :: phys where
  "demo_phys2 = \<lparr>phys_map = [-1, -1, -1, -1, 7], phys_size = 5\<rparr>"

lemma demo_take: "take_frames alloc_phys_page 2 demo_phys = Inr ([0x101000, 0x102000], demo_phys2)"
  by code_simp

theorem frames_distinct_witness:
  "take_frames alloc_phys_page 2 demo_phys = Inr ([0x101000, 0x102000], demo_phys2)
   \<and> distinct [0x101000, 0x102000 :: u64]"
  using frames_distinct [OF demo_phys_ok(1) demo_take] demo_take by simp

end
