(* ===== verification/Page_Tables.thy ===== *)
theory Page_Tables
  imports Phys
begin

text \<open>
  Page tables in physical memory (\<^verbatim>\<open>mm/page.h\<close>): the bit fields of an entry and of an address,
  the tree of tables, the walk of the processor, and, as the specification of
  \<^verbatim>\<open>mount_page_do\<close>, the insertion of an entry by direct access to the tables.
\<close>

section \<open>Entries and addresses\<close>

text \<open>\<^verbatim>\<open>pte_desc\<close> is a 64-bit word with bit fields: flags by bit number, the frame in bits 12 to 51.\<close>

type_synonym pte_desc = u64

definition pte_address :: "pte_desc \<Rightarrow> u64" where
  "pte_address p = take_bit 40 (drop_bit 12 p)"

definition set_address :: "u64 \<Rightarrow> pte_desc \<Rightarrow> pte_desc" where
  "set_address a p = (p AND NOT (push_bit 12 (mask 40))) OR push_bit 12 (take_bit 40 a)"

definition set_flag :: "nat \<Rightarrow> bool \<Rightarrow> pte_desc \<Rightarrow> pte_desc" where
  "set_flag k b p = (if b then set_bit k p else unset_bit k p)"

abbreviation (input) EXISTS :: nat where "EXISTS \<equiv> 0"
abbreviation (input) WRITABLE :: nat where "WRITABLE \<equiv> 1"
abbreviation (input) R3_ACCESS :: nat where "R3_ACCESS \<equiv> 2"
abbreviation (input) CACHE_DISABLE :: nat where "CACHE_DISABLE \<equiv> 4"

text \<open>\<^verbatim>\<open>linear\<close>: the fields of an address.\<close>

definition lin_pt :: "u64 \<Rightarrow> nat" where "lin_pt a = unat (take_bit 9 (drop_bit 12 a))"
definition lin_pd :: "u64 \<Rightarrow> nat" where "lin_pd a = unat (take_bit 9 (drop_bit 21 a))"
definition lin_pdp :: "u64 \<Rightarrow> nat" where "lin_pdp a = unat (take_bit 9 (drop_bit 30 a))"
definition lin_pml4 :: "u64 \<Rightarrow> nat" where "lin_pml4 a = unat (take_bit 9 (drop_bit 39 a))"

definition slot :: "u64 \<Rightarrow> nat \<Rightarrow> u64" where
  "slot f i = f + 8 * of_nat i"

definition frame_of :: "pte_desc \<Rightarrow> u64" where
  "frame_of p = push_bit 12 (pte_address p)"

definition calc_page :: "u64 \<Rightarrow> pte_desc" where
  "calc_page phys_addr =
     set_flag WRITABLE True (set_flag EXISTS True (set_address (drop_bit 12 phys_addr) 0))"

section \<open>Frames and slots\<close>

lemma frame_of_eq: "frame_of p = p AND 0x000FFFFFFFFFF000"
proof -
  have m: "(0x000FFFFFFFFFF000 :: u64) = push_bit 12 (mask 40)"
    by (simp add: mask_eq_exp_minus_1)
  show ?thesis
    unfolding m frame_of_def pte_address_def
    by (rule bit_word_eqI) (auto simp: bit_simps simp del: mask_numeral dest: bit_imp_le_length)
qed

lemma bit_frame_of: "bit (frame_of p) n \<longleftrightarrow> 12 \<le> n \<and> n < 52 \<and> bit p n"
  unfolding frame_of_def pte_address_def
  by (auto simp: bit_simps dest: bit_imp_le_length)

lemma frame_of_calc_page [simp]: "frame_of (calc_page x) = frame_of x" "bit (calc_page x) 0"
  by (rule bit_word_eqI, auto simp: bit_frame_of calc_page_def set_flag_def set_address_def bit_simps)

lemma frame_of_idem [simp]: "frame_of (frame_of x) = frame_of x"
  by (rule bit_word_eqI) (auto simp: bit_frame_of)


lemma frame_of_small:
  assumes "page_aligned p" and "unat p < 2 ^ 52"
  shows "frame_of p = p"
proof (rule bit_word_eqI)
  fix n assume "n < LENGTH(64)"
  have "take_bit 52 p = p"
    using assms(2) by (simp add: word_unat_eq_iff unsigned_take_bit_eq take_bit_nat_eq_self)
  then have "\<not> bit p n" if "\<not> n < 52"
    using that by (metis bit_take_bit_iff)
  moreover have "\<not> bit p n" if "n < 12"
    using assms(1) that unfolding page_aligned_def by (metis bit_0_eq bit_take_bit_iff bot_apply bot_bool_def)
  ultimately show "bit (frame_of p) n = bit p n" 
    by (metis bit_frame_of linorder_not_less)
qed

lemma page_aligned_frame_of [simp]: "page_aligned (frame_of p)"
  unfolding page_aligned_def by (rule bit_word_eqI) (auto simp: bit_frame_of bit_simps)

lemma unat_slot:
  assumes "page_aligned f" and "i < 512"
  shows "unat (slot f i) = unat f + 8 * i"
    and "unat f mod 4096 = 0"
proof -
  have "unat (take_bit 12 f) = 0" using assms(1) by (simp add: page_aligned_def)
  then show m: "unat f mod 4096 = 0"
    by (simp add: unsigned_take_bit_eq take_bit_nat_def)
  then obtain q where q: "unat f = 4096 * q" by auto
  moreover have "unat f < 2 ^ LENGTH(64)" by (rule unsigned_less)
  ultimately have "unat f + 8 * i < 2 ^ 64" using assms(2) by simp
  then show "unat (slot f i) = unat f + 8 * i"
    using unat_add_of_nat [of f "8 * i"] by (simp add: slot_def)
qed

lemma slot_inj:
  assumes "page_aligned f" and "page_aligned g" and "i < 512" and "j < 512"
  shows "slot f i = slot g j \<longleftrightarrow> f = g \<and> i = j"
proof
  assume "slot f i = slot g j"
  then have e: "unat f + 8 * i = unat g + 8 * j"
    using unat_slot(1) assms by metis
  obtain q where q: "unat f = 4096 * q" using unat_slot(2) [OF assms(1,3)] by auto
  obtain r where r: "unat g = 4096 * r" using unat_slot(2) [OF assms(2,4)] by auto
  have "q = (4096 * q + 8 * i) div 4096" "r = (4096 * r + 8 * j) div 4096"
    using assms(3,4) by auto
  then have "q = r" using e unfolding q r by metis
  then have "q = r \<and> i = j" using e unfolding q r by simp
  then show "f = g \<and> i = j" using q r by (simp add: word_unat_eq_iff)
qed simp

section \<open>The tree of tables\<close>

type_synonym mem = "u64 \<Rightarrow> u64"

text \<open>
  The tables below \<open>f\<close>, a table with \<open>d\<close> levels beneath it; the tables form a tree when no
  table is reached in two ways and every entry that is not empty is present.
\<close>

fun tabs :: "mem \<Rightarrow> nat \<Rightarrow> u64 \<Rightarrow> u64 set" where
  "tabs m 0 f = {f}"
| "tabs m (Suc d) f =
     insert f (\<Union>i \<in> {i. i < 512 \<and> m (slot f i) \<noteq> 0}. tabs m d (frame_of (m (slot f i))))"

fun tree :: "mem \<Rightarrow> nat \<Rightarrow> u64 \<Rightarrow> bool" where
  "tree m 0 f \<longleftrightarrow> page_aligned f"
| "tree m (Suc d) f \<longleftrightarrow> page_aligned f
     \<and> (\<forall>i < 512. m (slot f i) \<noteq> 0 \<longrightarrow> bit (m (slot f i)) 0 \<and> tree m d (frame_of (m (slot f i)))
          \<and> f \<notin> tabs m d (frame_of (m (slot f i))))
     \<and> (\<forall>i < 512. \<forall>j < 512. i \<noteq> j \<longrightarrow> m (slot f i) \<noteq> 0 \<longrightarrow> m (slot f j) \<noteq> 0 \<longrightarrow>
          tabs m d (frame_of (m (slot f i))) \<inter> tabs m d (frame_of (m (slot f j))) = {})"

text \<open>The walk of the processor along a path of indices.\<close>

fun walk :: "mem \<Rightarrow> u64 \<Rightarrow> nat list \<Rightarrow> pte_desc option" where
  "walk m f [] = None"
| "walk m f [i] = (let e = m (slot f i) in if bit e 0 then Some e else None)"
| "walk m f (i # j # is) =
     (let e = m (slot f i) in if bit e 0 then walk m (frame_of e) (j # is) else None)"

text \<open>Insertion of an entry by direct access, with new tables from the bitmap.\<close>

fun map_path :: "pte_desc \<Rightarrow> u64 \<Rightarrow> nat list \<Rightarrow> mem \<times> phys \<Rightarrow> (mem \<times> phys) res" where
  "map_path ph f [] S = Inr S"
| "map_path ph f [i] (m, fr) = Inr (m(slot f i := ph), fr)"
| "map_path ph f (i # j # is) (m, fr) =
     (if m (slot f i) \<noteq> 0 then map_path ph (frame_of (m (slot f i))) (j # is) (m, fr)
      else rbind (alloc_phys_page fr) (\<lambda>(p, fr).
        let e = set_flag R3_ACCESS (bit ph R3_ACCESS) (calc_page p)
        in map_path ph (frame_of e) (j # is) (m(slot f i := e), fr)))"

definition path_ok :: "nat \<Rightarrow> nat list \<Rightarrow> bool" where
  "path_ok d is \<longleftrightarrow> length is = Suc d \<and> (\<forall>i \<in> set is. i < 512)"

lemma path_ok_0: "path_ok 0 is \<Longrightarrow> \<exists>i. is = [i] \<and> i < 512"
  by (auto simp: path_ok_def length_Suc_conv)

lemma path_ok_Suc: "path_ok (Suc d) is \<Longrightarrow> \<exists>i j js. is = i # j # js \<and> i < 512 \<and> path_ok d (j # js)"
  by (auto simp: path_ok_def length_Suc_conv)

text \<open>Frames not in use hold zeros; nothing of the code ensures it.\<close>

definition clean :: "mem \<Rightarrow> phys \<Rightarrow> bool" where
  "clean m fr \<longleftrightarrow> (\<forall>p \<in> free_frames fr. \<forall>i < 512. m (slot p i) = 0)"

definition available :: "nat \<Rightarrow> phys \<Rightarrow> bool" where
  "available n fr \<longleftrightarrow> (\<exists>ps fr'. take_frames alloc_phys_page n fr = Inr (ps, fr') \<and> 0 \<notin> set ps)"

lemma available_Suc:
  assumes "available (Suc n) fr"
  obtains p fr' where "alloc_phys_page fr = Inr (p, fr')" and "p \<noteq> 0" and "available n fr'"
  using assms by (auto simp: available_def rbind_eq_Inr)

lemma available_mono: "available n fr \<Longrightarrow> k \<le> n \<Longrightarrow> available k fr"
proof (induction k arbitrary: n fr)
  case 0
  then show ?case by (simp add: available_def)
next
  case (Suc k)
  then obtain n' where n: "n = Suc n'" by (cases n) auto
  obtain p fr' where p: "alloc_phys_page fr = Inr (p, fr')" "p \<noteq> 0" "available n' fr'"
    using available_Suc Suc.prems(1) n by metis
  then have "available k fr'" using Suc.IH Suc.prems(2) n by simp
  then obtain qs fr'' where "take_frames alloc_phys_page k fr' = Inr (qs, fr'')" "0 \<notin> set qs"
    by (auto simp: available_def)
  then show ?case using p unfolding available_def by (auto intro!: exI [of _ "p # qs"])
qed

lemma finite_free: "finite (free_frames fr)"
  by (rule finite_subset [of _ "(\<lambda>n. of_nat (4096 * n)) ` {..< npages fr}"]) (auto simp: free_frames_def simp del: of_nat_mult)

text \<open>As many frames are available as are free.\<close>

lemma available_card:
  assumes "phys_ok fr" and "n \<le> card (free_frames fr)"
  shows "available n fr"
  using assms
proof (induction n arbitrary: fr)
  case 0
  then show ?case by (simp add: available_def)
next
  case (Suc n)
  then have "free_frames fr \<noteq> {}" by auto
  then obtain m where m: "256 \<le> m" "m < npages fr" "\<not> busy fr m" by (auto simp: free_frames_def)
  obtain k fr' where r: "alloc_phys_page fr = Inr (of_nat (4096 * k), fr')" "256 \<le> k" "k < npages fr"
    "\<forall>i < npages fr. busy fr' i \<longleftrightarrow> i = k \<or> busy fr i"
    "phys_size fr' = phys_size fr" "length (phys_map fr') = length (phys_map fr)"
    by (rule alloc_phys_page_some [OF Suc.prems(1) m])
  have ok: "phys_ok fr'" and np: "npages fr' = npages fr"
    using r(5,6) Suc.prems(1) by (simp_all add: phys_ok_def npages_def)
  have "free_frames fr - {of_nat (4096 * k)} \<subseteq> free_frames fr'"
    using r(4) np by (auto simp: free_frames_def simp del: of_nat_mult)
  then have "card (free_frames fr - {of_nat (4096 * k)}) \<le> card (free_frames fr')"
    by (rule card_mono [OF finite_free])
  then have "n \<le> card (free_frames fr')" using Suc.prems(2) by (simp add: card_Diff_singleton_if split: if_splits)
  from Suc.IH [OF ok this] obtain ps fr'' where "take_frames alloc_phys_page n fr' = Inr (ps, fr'')" "0 \<notin> set ps"
    by (auto simp: available_def)
  moreover have "(of_nat (4096 * k) :: u64) \<noteq> 0" using page_index(4) [OF Suc.prems(1) r(3)] r(2) by simp
  ultimately show ?case
    using r(1) unfolding available_def by (intro exI [of _ "of_nat (4096 * k) # ps"]) (simp del: of_nat_mult)
qed

text \<open>Memory that agrees on the slots of a tree gives the same tree.\<close>

definition agree_on :: "u64 set \<Rightarrow> mem \<Rightarrow> mem \<Rightarrow> bool" where
  "agree_on F m m' \<longleftrightarrow> (\<forall>g \<in> F. \<forall>i < 512. m' (slot g i) = m (slot g i))"

lemma tabs_self [simp]: "f \<in> tabs m d f"
  by (cases d) auto

lemma tabs_child: "i < 512 \<Longrightarrow> m (slot f i) \<noteq> 0 \<Longrightarrow> tabs m d (frame_of (m (slot f i))) \<subseteq> tabs m (Suc d) f"
  by auto

lemma tabs_agree: "agree_on (tabs m d f) m m' \<Longrightarrow> tabs m' d f = tabs m d f"
proof (induction d arbitrary: f)
  case (Suc d)
  have e: "m' (slot f i) = m (slot f i)" if "i < 512" for i
    using Suc.prems that by (simp add: agree_on_def)
  have c: "tabs m' d (frame_of (m (slot f i))) = tabs m d (frame_of (m (slot f i)))"
    if "i < 512" "m (slot f i) \<noteq> 0" for i
  proof (rule Suc.IH)
    show "agree_on (tabs m d (frame_of (m (slot f i)))) m m'"
      using Suc.prems tabs_child [of i m f d, OF that] unfolding agree_on_def by blast
  qed
  have "{i. i < 512 \<and> m' (slot f i) \<noteq> 0} = {i. i < 512 \<and> m (slot f i) \<noteq> 0}"
    using e by auto
  then show ?case using c e by auto
qed simp

lemma tree_agree: "agree_on (tabs m d f) m m' \<Longrightarrow> tree m d f \<Longrightarrow> tree m' d f"
proof (induction d arbitrary: f)
  case (Suc d)
  have e: "m' (slot f i) = m (slot f i)" if "i < 512" for i
    using Suc.prems(1) that by (simp add: agree_on_def)
  have a: "agree_on (tabs m d (frame_of (m (slot f i)))) m m'"
    if "i < 512" "m (slot f i) \<noteq> 0" for i
    using Suc.prems(1) tabs_child [of i m f d, OF that] unfolding agree_on_def by blast
  show ?case
    using Suc.prems(2) Suc.IH [OF a] tabs_agree [OF a] e by (simp)
qed simp

lemma walk_agree:
  assumes "agree_on (tabs m d f) m m'" and "tree m d f" and "path_ok d is"
  shows "walk m' f is = walk m f is"
  using assms
proof (induction d arbitrary: f "is")
  case 0
  then obtain i where "is = [i]" "i < 512" using path_ok_0 by blast
  then show ?case using 0 by (simp add: agree_on_def)
next
  case (Suc d)
  then obtain i j js where p: "is = i # j # js" "i < 512" "path_ok d (j # js)"
    using path_ok_Suc by blast
  have e: "m' (slot f i) = m (slot f i)"
    using Suc.prems(1) p(2) by (simp add: agree_on_def)
  show ?case
  proof (cases "bit (m (slot f i)) 0")
    case True
    then have nz: "m (slot f i) \<noteq> 0" by auto
    have "agree_on (tabs m d (frame_of (m (slot f i)))) m m'"
      using Suc.prems(1) tabs_child [of i m f d, OF p(2) nz] unfolding agree_on_def by blast
    moreover have "tree m d (frame_of (m (slot f i)))" using Suc.prems(2) p(2) nz by simp
    ultimately show ?thesis using Suc.IH p(1,3) e by (simp add: Let_def)
  next
    case False
    then show ?thesis using p e by (simp add: Let_def)
  qed
qed

lemma tree_aligned: "tree m d f \<Longrightarrow> page_aligned f"
  by (cases d) auto

lemma tabs_aligned: "tree m d f \<Longrightarrow> g \<in> tabs m d f \<Longrightarrow> page_aligned g"
proof (induction d arbitrary: f)
  case (Suc d)
  then show ?case using tree_aligned by auto
qed simp

lemma agree_on_upd:
  assumes "page_aligned f" and "i < 512" and "\<forall>g \<in> F. page_aligned g" and "f \<notin> F"
  shows "agree_on F m (m(slot f i := v))"
  using assms slot_inj unfolding agree_on_def by (metis fun_upd_other)

text \<open>An empty table: nothing below it.\<close>

lemma empty_table:
  assumes "page_aligned p" and "\<forall>i < 512. m (slot p i) = 0"
  shows "tree m d p" and "tabs m d p = {p}" and "path_ok d is \<Longrightarrow> walk m p is = None"
proof -
  show "tree m d p" using assms by (cases d) auto
  show "tabs m d p = {p}" using assms by (cases d) auto
  show "walk m p is = None" if "path_ok d is"
  proof (cases "is" rule: remdups_adj.cases)
    case 1
    then show ?thesis by simp
  next
    case (2 i)
    then have "m (slot p i) = 0" using that assms(2) by (simp add: path_ok_def)
    then show ?thesis using 2 by simp
  next
    case (3 i j js)
    then have "m (slot p i) = 0" using that assms(2) by (simp add: path_ok_def)
    then show ?thesis using 3 by simp
  qed
qed

text \<open>Hanging an empty table under an empty entry.\<close>

lemma grow:
  assumes t: "tree m (Suc d) f" and i: "i < 512" "m (slot f i) = 0"
    and p: "page_aligned p" "p \<notin> tabs m (Suc d) f" "\<forall>i < 512. m (slot p i) = 0"
    and e: "frame_of e = p" "bit e 0"
  defines "m1 \<equiv> m(slot f i := e)"
  shows "tree m1 (Suc d) f" and "tabs m1 (Suc d) f = insert p (tabs m (Suc d) f)"
    and "path_ok (Suc d) js \<Longrightarrow> walk m1 f js = walk m f js"
proof -
  have nz: "e \<noteq> 0" using e(2) by auto
  have fa: "page_aligned f" using t by simp
  have fp: "f \<noteq> p" using p(2) by auto
  have s: "m1 (slot f j) = (if j = i then e else m (slot f j))" if "j < 512" for j
    using slot_inj [OF fa fa i(1) that] by (auto simp: m1_def)
  have ep: "\<forall>j < 512. m1 (slot p j) = 0"
    using slot_inj [OF fa p(1) i(1)] p(3) fp by (metis fun_upd_other m1_def)
  note emp = empty_table [OF p(1) ep]
  have old: "agree_on (tabs m d (frame_of (m (slot f j)))) m m1" (is "agree_on ?F m m1")
    and tr: "tree m d (frame_of (m (slot f j)))"
    and nf: "f \<notin> tabs m d (frame_of (m (slot f j)))"
    if "j < 512" "m (slot f j) \<noteq> 0" for j
  proof -
    show tr: "tree m d (frame_of (m (slot f j)))" and nf: "f \<notin> ?F" using t that by auto
    show "agree_on ?F m m1"
      unfolding m1_def using tabs_aligned [OF tr] nf fa i(1) by (intro agree_on_upd) auto
  qed
  have tb: "tabs m1 d (frame_of (m1 (slot f j))) =
      (if j = i then {p} else tabs m d (frame_of (m (slot f j))))"
    if "j < 512" "m1 (slot f j) \<noteq> 0" for j
    using that s emp(2) e(1) tabs_agree [OF old] by (cases "j = i") auto
  have dom: "{j. j < 512 \<and> m1 (slot f j) \<noteq> 0} = insert i {j. j < 512 \<and> m (slot f j) \<noteq> 0}"
    using s nz i by (auto split: if_splits)
  show T: "tabs m1 (Suc d) f = insert p (tabs m (Suc d) f)"
  proof -
    have 1: "tabs m1 d (frame_of (m1 (slot f i))) = {p}"
      using tb [OF i(1)] s [OF i(1)] nz by simp
    have 2: "tabs m1 d (frame_of (m1 (slot f j))) = tabs m d (frame_of (m (slot f j)))"
      if "j \<in> {j. j < 512 \<and> m (slot f j) \<noteq> 0}" for j
      using that tb [of j] s [of j] i by (cases "j = i") auto
    have "(\<Union>j \<in> {j. j < 512 \<and> m1 (slot f j) \<noteq> 0}. tabs m1 d (frame_of (m1 (slot f j)))) =
       {p} \<union> (\<Union>j \<in> {j. j < 512 \<and> m (slot f j) \<noteq> 0}. tabs m d (frame_of (m (slot f j))))"
      unfolding dom UN_insert 1 using 2 by simp
    then show ?thesis by (simp add: insert_commute)
  qed
  have notp: "p \<notin> tabs m d (frame_of (m (slot f j)))" if "j < 512" "m (slot f j) \<noteq> 0" for j
    using p(2) tabs_child [of j m f d, OF that] by blast
  have c: "bit (m1 (slot f j)) 0 \<and> tree m1 d (frame_of (m1 (slot f j)))
      \<and> f \<notin> tabs m1 d (frame_of (m1 (slot f j)))" if "j < 512" "m1 (slot f j) \<noteq> 0" for j
  proof (cases "j = i")
    case True
    then show ?thesis using s [OF that(1)] e emp fp by auto
  next
    case False
    then have j: "j < 512" "m (slot f j) \<noteq> 0" using that s by auto
    then show ?thesis
      using False s t tree_agree [OF old [OF j] tr [OF j]] tabs_agree [OF old [OF j]] nf [OF j] by auto
  qed
  have x: "tabs m1 d (frame_of (m1 (slot f j))) \<inter> tabs m1 d (frame_of (m1 (slot f k))) = {}"
    if jk: "j < 512" "k < 512" "j \<noteq> k" "m1 (slot f j) \<noteq> 0" "m1 (slot f k) \<noteq> 0" for j k
  proof -
    have o: "m (slot f l) \<noteq> 0" if "l < 512" "l \<noteq> i" "m1 (slot f l) \<noteq> 0" for l
      using that s by auto
    show ?thesis
    proof (cases "j = i \<or> k = i")
      case True
      then show ?thesis using tb jk o notp by (auto split: if_splits)
    next
      case False
      then show ?thesis using tb jk o t by auto
    qed
  qed
  show "tree m1 (Suc d) f" using fa c x by simp
  show "walk m1 f js = walk m f js" if pj: "path_ok (Suc d) js"
  proof -
    obtain j j' js' where js: "js = j # j' # js'" "j < 512" "path_ok d (j' # js')"
      using path_ok_Suc [OF pj] by blast
    show ?thesis
    proof (cases "j = i")
      case True
      then show ?thesis using js s e emp(3) [OF js(3)] i by (simp add: Let_def)
    next
      case False
      show ?thesis
      proof (cases "bit (m (slot f j)) 0")
        case True
        then have "m (slot f j) \<noteq> 0" by auto
        then show ?thesis
          using walk_agree [OF old tr js(3)] js s False True by (simp add: Let_def)
      next
        case False
        then show ?thesis using js s \<open>j \<noteq> i\<close> by (simp add: Let_def)
      qed
    qed
  qed
qed

text \<open>A change below one entry of a table.\<close>

lemma descend:
  assumes t: "tree m (Suc d) f" and i: "i < 512" "m (slot f i) \<noteq> 0"
    and g: "g = frame_of (m (slot f i))" "tree m' d g"
    and N: "tabs m' d g \<subseteq> tabs m d g \<union> N" "N \<inter> tabs m (Suc d) f = {}"
    and chg: "\<forall>h. page_aligned h \<longrightarrow> h \<notin> tabs m' d g \<longrightarrow> (\<forall>j < 512. m' (slot h j) = m (slot h j))"
  shows "tree m' (Suc d) f" and "tabs m' (Suc d) f \<subseteq> tabs m (Suc d) f \<union> N"
    and "tabs m' d g \<subseteq> tabs m' (Suc d) f"
    and "walk m' f (i # j # js) = (if bit (m (slot f i)) 0 then walk m' g (j # js) else None)"
    and "path_ok (Suc d) (k # ks) \<Longrightarrow> k \<noteq> i \<Longrightarrow> walk m' f (k # ks) = walk m f (k # ks)"
    and "\<And>k. k < 512 \<Longrightarrow> m' (slot f k) = m (slot f k)"
    and "\<And>k. k < 512 \<Longrightarrow> m (slot f k) \<noteq> 0 \<Longrightarrow> k \<noteq> i \<Longrightarrow>
      agree_on (tabs m d (frame_of (m (slot f k)))) m m'"
proof -
  have fa: "page_aligned f" using t by simp
  have fg: "f \<notin> tabs m' d g"
    using t i g(1) N by auto
  have s: "m' (slot f j) = m (slot f j)" if "j < 512" for j
    using chg fa fg that by blast
  have tr: "tree m d (frame_of (m (slot f k)))"
    and ag: "agree_on (tabs m d (frame_of (m (slot f k)))) m m'" (is "agree_on ?F m m'")
    and di: "tabs m d (frame_of (m (slot f k))) \<inter> tabs m' d g = {}"
    and nf: "f \<notin> tabs m d (frame_of (m (slot f k)))"
    if "k < 512" "m (slot f k) \<noteq> 0" "k \<noteq> i" for k
  proof -
    show tr: "tree m d (frame_of (m (slot f k)))" and nf: "f \<notin> ?F" using t that by auto
    have "?F \<inter> tabs m d g = {}" using t that i g(1) by auto
    moreover have "?F \<inter> N = {}" using tabs_child [of k m f d, OF that(1,2)] N(2) by blast
    ultimately show di: "?F \<inter> tabs m' d g = {}" using N(1) by blast
    show "agree_on ?F m m'"
      unfolding agree_on_def using di chg tabs_aligned [OF tr] by blast
  qed
  have tb: "tabs m' d (frame_of (m (slot f k))) = (if k = i then tabs m' d g else tabs m d (frame_of (m (slot f k))))"
    if "k < 512" "m (slot f k) \<noteq> 0" for k
    using tabs_agree [OF ag] that g(1) by auto
  show "\<And>k. k < 512 \<Longrightarrow> m' (slot f k) = m (slot f k)"
    and "\<And>k. k < 512 \<Longrightarrow> m (slot f k) \<noteq> 0 \<Longrightarrow> k \<noteq> i \<Longrightarrow>
      agree_on (tabs m d (frame_of (m (slot f k)))) m m'"
    by (rule s ag; assumption)+
  have dom: "{j. j < 512 \<and> m' (slot f j) \<noteq> 0} = {j. j < 512 \<and> m (slot f j) \<noteq> 0}"
    using s by auto
  have un: "tabs m' (Suc d) f = insert f (\<Union>k \<in> {k. k < 512 \<and> m (slot f k) \<noteq> 0}.
      (if k = i then tabs m' d g else tabs m d (frame_of (m (slot f k)))))"
    using tb s by (simp add: dom)
  show "tabs m' (Suc d) f \<subseteq> tabs m (Suc d) f \<union> N"
  proof -
    have "tabs m d g \<subseteq> tabs m (Suc d) f" using tabs_child [of i m f d] i g(1) by simp
    then have "(if k = i then tabs m' d g else tabs m d (frame_of (m (slot f k)))) \<subseteq> tabs m (Suc d) f \<union> N"
      if "k < 512" "m (slot f k) \<noteq> 0" for k
      using N(1) tabs_child [of k m f d, OF that] by (cases "k = i") auto
    then show ?thesis
      unfolding un using tabs_self [of f m "Suc d"] by blast
  qed
  show "tabs m' d g \<subseteq> tabs m' (Suc d) f" unfolding un using i by auto
  have c: "tree m' d (frame_of (m (slot f k))) \<and> f \<notin> tabs m' d (frame_of (m (slot f k)))"
    if "k < 512" "m (slot f k) \<noteq> 0" for k
    using tb [OF that] that tree_agree [OF ag tr] nf fg g by (cases "k = i") auto
  have x: "tabs m' d (frame_of (m (slot f j))) \<inter> tabs m' d (frame_of (m (slot f k))) = {}"
    if "j < 512" "k < 512" "j \<noteq> k" "m (slot f j) \<noteq> 0" "m (slot f k) \<noteq> 0" for j k
  proof -
    consider "j = i" | "k = i" | "j \<noteq> i \<and> k \<noteq> i" by blast
    then show ?thesis
    proof cases
      case 1
      then show ?thesis using tb that di [of k] by auto
    next
      case 2
      then show ?thesis using tb that di [of j] by auto
    next
      case 3
      then show ?thesis using tb that t by auto
    qed
  qed
  show "tree m' (Suc d) f" using t fa c x s by simp
  show "walk m' f (i # j # js) = (if bit (m (slot f i)) 0 then walk m' g (j # js) else None)"
    using s i(1) g(1) by (simp add: Let_def)
  show "walk m' f (k # ks) = walk m f (k # ks)" if kk: "path_ok (Suc d) (k # ks)" "k \<noteq> i"
  proof -
    obtain k' ks' where ks: "ks = k' # ks'" "k < 512" "path_ok d (k' # ks')"
      using kk by (cases ks) (auto simp: path_ok_def)
    show ?thesis
    proof (cases "bit (m (slot f k)) 0")
      case True
      then have nz: "m (slot f k) \<noteq> 0" by auto
      then show ?thesis
        using walk_agree [OF ag [OF ks(2) nz kk(2)] tr [OF ks(2) nz kk(2)] ks(3)] ks s True
        by (simp add: Let_def)
    next
      case False
      then show ?thesis using ks s by (simp add: Let_def)
    qed
  qed
qed

text \<open>The tables of the upper levels only.\<close>

lemma tabs_mono: "n \<le> d \<Longrightarrow> tabs m n f \<subseteq> tabs m d f"
proof (induction n arbitrary: d f)
  case (Suc n)
  then obtain d' where "d = Suc d'" "n \<le> d'" by (cases d) auto
  then show ?case using Suc.IH [of d'] by auto
qed simp

lemma agree_on_mono: "agree_on F m m' \<Longrightarrow> G \<subseteq> F \<Longrightarrow> agree_on G m m'"
  unfolding agree_on_def by blast

lemma tabs_upper:
  assumes "n \<le> Suc d"
    and "\<And>k. k < 512 \<Longrightarrow> m' (slot f k) \<noteq> 0 \<Longrightarrow> k \<noteq> i \<Longrightarrow> m' (slot f k) = m (slot f k)"
    and "\<And>k. k < 512 \<Longrightarrow> m' (slot f k) \<noteq> 0 \<Longrightarrow> k \<noteq> i \<Longrightarrow>
      agree_on (tabs m d (frame_of (m (slot f k)))) m m'"
    and "\<And>k. k \<le> d \<Longrightarrow> m' (slot f i) \<noteq> 0 \<Longrightarrow>
      tabs m' k (frame_of (m' (slot f i))) \<subseteq> tabs m (Suc k) f \<union> N"
  shows "tabs m' n f \<subseteq> tabs m n f \<union> N"
proof (cases n)
  case (Suc k)
  have "tabs m' k (frame_of (m' (slot f j))) \<subseteq> tabs m (Suc k) f \<union> N"
    if j: "j < 512" "m' (slot f j) \<noteq> 0" for j
  proof (cases "j = i")
    case True
    then show ?thesis using assms(1,4) Suc j by simp
  next
    case False
    then have e: "m' (slot f j) = m (slot f j)" using assms(2) j by blast
    have "agree_on (tabs m k (frame_of (m (slot f j)))) m m'"
      using agree_on_mono [OF assms(3) [OF j False] tabs_mono] assms(1) Suc by simp
    then have "tabs m' k (frame_of (m' (slot f j))) = tabs m k (frame_of (m (slot f j)))"
      using tabs_agree e by simp
    moreover have "m (slot f j) \<noteq> 0" using e j by simp
    ultimately show ?thesis
      using tabs_child [of j m f k, OF j(1)] by blast
  qed
  then show ?thesis unfolding Suc by auto
qed simp

text \<open>The table of the last level on a path, if every table on the way exists.\<close>

fun tab_at :: "mem \<Rightarrow> u64 \<Rightarrow> nat list \<Rightarrow> u64 option" where
  "tab_at m f [] = Some f"
| "tab_at m f (i # is) = (if m (slot f i) = 0 then None else tab_at m (frame_of (m (slot f i))) is)"

lemma tab_at_tabs: "path_ok d is \<Longrightarrow> tab_at m f (butlast is) = Some g \<Longrightarrow> g \<in> tabs m d f"
proof (induction d arbitrary: f "is")
  case 0
  then show ?case using path_ok_0 by fastforce
next
  case (Suc d)
  obtain i j js where p: "is = i # j # js" "i < 512" "path_ok d (j # js)"
    using path_ok_Suc [OF Suc.prems(1)] by blast
  then have nz: "m (slot f i) \<noteq> 0" and "tab_at m (frame_of (m (slot f i))) (butlast (j # js)) = Some g"
    using Suc.prems(2) by (auto split: if_splits)
  then have "g \<in> tabs m d (frame_of (m (slot f i)))" using Suc.IH p(3) by blast
  then show ?case using tabs_child [of i m f d, OF p(2) nz] by blast
qed

lemma tab_at_agree:
  assumes "agree_on (tabs m d f) m m'" and "path_ok d is"
  shows "tab_at m' f (butlast is) = tab_at m f (butlast is)"
  using assms
proof (induction d arbitrary: f "is")
  case 0
  then show ?case using path_ok_0 by fastforce
next
  case (Suc d)
  obtain i j js where p: "is = i # j # js" "i < 512" "path_ok d (j # js)"
    using path_ok_Suc [OF Suc.prems(2)] by blast
  have e: "m' (slot f i) = m (slot f i)"
    using Suc.prems(1) p(2) tabs_self [of f m "Suc d"] unfolding agree_on_def by blast
  show ?case
  proof (cases "m (slot f i) = 0")
    case False
    have "agree_on (tabs m d (frame_of (m (slot f i)))) m m'"
      using Suc.prems(1) tabs_child [of i m f d, OF p(2) False] by (rule agree_on_mono)
    then show ?thesis using Suc.IH [OF _ p(3)] p(1) e by simp
  qed (use p e in simp)
qed

section \<open>Inserting an entry\<close>

declare tabs.simps(2) [simp del] tree.simps(2) [simp del]

lemma new_entry:
  assumes "phys_ok fr" and "alloc_phys_page fr = Inr (p, fr')" and "p \<noteq> 0"
  shows "frame_of (set_flag 2 b (calc_page p)) = p" and "bit (set_flag 2 b (calc_page p)) 0"
proof -
  have "frame_of (set_flag 2 b q) = frame_of q" "bit (set_flag 2 b q) 0 = bit q 0" for q
    by (rule bit_word_eqI, auto simp: bit_frame_of set_flag_def bit_simps)
  moreover have "frame_of p = p"
    using frame_of_small free_frame_small [OF assms(1) alloc_free_frame(1) [OF assms]] by blast
  ultimately show "frame_of (set_flag 2 b (calc_page p)) = p" "bit (set_flag 2 b (calc_page p)) 0"
    by simp_all
qed

text \<open>What the insertion gives, for a table with \<open>d\<close> levels beneath it.\<close>

definition inserted :: "nat \<Rightarrow> u64 \<Rightarrow> nat list \<Rightarrow> pte_desc \<Rightarrow> mem \<Rightarrow> phys \<Rightarrow> mem \<Rightarrow> phys \<Rightarrow> bool" where
  "inserted d f is ph m fr m' fr' \<longleftrightarrow>
     phys_ok fr' \<and> used_frames fr \<subseteq> used_frames fr' \<and> clean m' fr' \<and> tree m' d f
     \<and> (\<forall>n \<le> d. tabs m' n f \<subseteq> tabs m n f \<union> (used_frames fr' - used_frames fr))
     \<and> (\<forall>h. page_aligned h \<longrightarrow> h \<notin> tabs m' d f \<longrightarrow> (\<forall>j < 512. m' (slot h j) = m (slot h j)))
     \<and> walk m' f is = (if bit ph 0 then Some ph else None)
     \<and> (\<forall>js. path_ok d js \<longrightarrow> js \<noteq> is \<longrightarrow> walk m' f js = walk m f js)
     \<and> (\<forall>js g. path_ok d js \<longrightarrow> g \<in> used_frames fr \<longrightarrow> tab_at m' f (butlast js) = Some g \<longrightarrow>
          tab_at m f (butlast js) = Some g)"

definition tables_ok :: "nat \<Rightarrow> u64 \<Rightarrow> mem \<Rightarrow> phys \<Rightarrow> bool" where
  "tables_ok d f m fr \<longleftrightarrow> phys_ok fr \<and> clean m fr \<and> tree m d f \<and> tabs m d f \<subseteq> used_frames fr"

lemma clean_agree:
  assumes "clean m fr" and "phys_ok fr'" and "free_frames fr' \<subseteq> free_frames fr"
    and "\<forall>h. page_aligned h \<longrightarrow> h \<notin> F \<longrightarrow> (\<forall>j < 512. m' (slot h j) = m (slot h j))"
    and "F \<subseteq> used_frames fr'"
  shows "clean m' fr'"
  unfolding clean_def
proof (intro ballI allI impI)
  fix p and j :: nat assume p: "p \<in> free_frames fr'" and j: "j < 512"
  have "p \<notin> F" using free_used_disjoint [OF assms(2)] assms(5) p by blast
  then have "m' (slot p j) = m (slot p j)" using assms(4) free_frame_small(1) [OF assms(2) p] j by blast
  then show "m' (slot p j) = 0" using assms(1,3) p j unfolding clean_def by auto
qed

lemma agree_outside_upd:
  assumes "page_aligned f" and "i < 512"
  shows "\<forall>h. page_aligned h \<longrightarrow> h \<notin> {f} \<longrightarrow> (\<forall>j < 512. (m(slot f i := v)) (slot h j) = m (slot h j))"
  using slot_inj [OF assms(1) _ assms(2)] by (metis fun_upd_other singletonI)

lemma insert_last:
  assumes "tables_ok 0 f m fr" and "i < 512"
  shows "inserted 0 f [i] ph m fr (m(slot f i := ph)) fr"
proof -
  have ok: "phys_ok fr" "clean m fr" "page_aligned f" "f \<in> used_frames fr"
    using assms(1) by (auto simp: tables_ok_def)
  note ag = agree_outside_upd [OF ok(3) assms(2), of m ph]
  have "clean (m(slot f i := ph)) fr"
    by (rule clean_agree [OF ok(2,1) _ ag]) (use ok in auto)
  moreover have "walk (m(slot f i := ph)) f js = walk m f js" if pj: "path_ok 0 js" "js \<noteq> [i]" for js
  proof -
    obtain j where "js = [j]" "j < 512" "j \<noteq> i"
      using path_ok_0 [OF pj(1)] pj(2) by blast
    moreover from this have "slot f j \<noteq> slot f i" using slot_inj [OF ok(3,3) _ assms(2)] by blast
    ultimately show ?thesis by simp
  qed
  moreover have "tab_at m f (butlast js) = Some g"
    if "path_ok 0 js" "tab_at (m(slot f i := ph)) f (butlast js) = Some g" for js g
    using path_ok_0 [OF that(1)] that(2) by auto
  ultimately show ?thesis
    using ok ag by (simp add: inserted_def)
qed

lemma insert_below:
  assumes ok: "tables_ok (Suc d) f m fr" and i: "i < 512" "m (slot f i) \<noteq> 0" and p: "path_ok d (j # js)"
    and ins: "inserted d (frame_of (m (slot f i))) (j # js) ph m fr m' fr'"
  shows "inserted (Suc d) f (i # j # js) ph m fr m' fr'"
proof -
  let ?g = "frame_of (m (slot f i))" and ?N = "used_frames fr' - used_frames fr"
  have t: "tree m (Suc d) f" and u: "tabs m (Suc d) f \<subseteq> used_frames fr"
    using ok by (auto simp: tables_ok_def)
  have b: "bit (m (slot f i)) 0" using t i by (simp add: tree.simps(2))
  have r: "phys_ok fr'" "used_frames fr \<subseteq> used_frames fr'" "clean m' fr'" "tree m' d ?g"
    "tabs m' d ?g \<subseteq> tabs m d ?g \<union> ?N" "\<forall>n \<le> d. tabs m' n ?g \<subseteq> tabs m n ?g \<union> ?N"
    "\<forall>h. page_aligned h \<longrightarrow> h \<notin> tabs m' d ?g \<longrightarrow> (\<forall>j < 512. m' (slot h j) = m (slot h j))"
    "walk m' ?g (j # js) = (if bit ph 0 then Some ph else None)"
    "\<forall>ks. path_ok d ks \<longrightarrow> ks \<noteq> j # js \<longrightarrow> walk m' ?g ks = walk m ?g ks"
    "\<forall>ks g. path_ok d ks \<longrightarrow> g \<in> used_frames fr \<longrightarrow> tab_at m' ?g (butlast ks) = Some g \<longrightarrow>
       tab_at m ?g (butlast ks) = Some g"
    using ins by (auto simp: inserted_def)
  have N: "?N \<inter> tabs m (Suc d) f = {}" using u by blast
  note D = descend [OF t i refl r(4,5) N r(7)]
  have "walk m' f ks = walk m f ks" if ks: "path_ok (Suc d) ks" "ks \<noteq> i # j # js" for ks
  proof -
    obtain k k' ks' where k: "ks = k # k' # ks'" "path_ok d (k' # ks')"
      using path_ok_Suc [OF ks(1)] by blast
    show ?thesis
    proof (cases "k = i")
      case True
      then have "walk m' ?g (k' # ks') = walk m ?g (k' # ks')" using r(9) k ks(2) by blast
      then show ?thesis using k D(4) True b by (simp add: Let_def)
    next
      case False
      then show ?thesis using D(5) [of k "k' # ks'"] k(1) ks(1) by (simp del: walk.simps)
    qed
  qed
  moreover have "\<forall>h. page_aligned h \<longrightarrow> h \<notin> tabs m' (Suc d) f \<longrightarrow> (\<forall>j < 512. m' (slot h j) = m (slot h j))"
    using r(7) D(3) by blast
  moreover have "walk m' f (i # j # js) = (if bit ph 0 then Some ph else None)"
    using D(4) [of j js] b r(8) by (simp del: walk.simps)
  moreover have "tabs m' n f \<subseteq> tabs m n f \<union> ?N" if "n \<le> Suc d" for n
  proof (rule tabs_upper [OF that, of m' f i m])
    fix k assume "k \<le> d"
    then show "tabs m' k (frame_of (m' (slot f i))) \<subseteq> tabs m (Suc k) f \<union> ?N"
      using r(6) D(6) [OF i(1)] tabs_child [of i m f k, OF i] by auto
  qed (use D(6,7) in auto)
  moreover have "tab_at m f (butlast ks) = Some g"
    if ks: "path_ok (Suc d) ks" "g \<in> used_frames fr" "tab_at m' f (butlast ks) = Some g" for ks g
  proof -
    obtain k k' ks' where k: "ks = k # k' # ks'" "k < 512" "path_ok d (k' # ks')"
      using path_ok_Suc [OF ks(1)] by blast
    then have nz: "m (slot f k) \<noteq> 0" and t: "tab_at m' (frame_of (m (slot f k))) (butlast (k' # ks')) = Some g"
      using ks(3) D(6) [OF k(2)] by (auto split: if_splits)
    have "tab_at m (frame_of (m (slot f k))) (butlast (k' # ks')) = Some g"
    proof (cases "k = i")
      case True
      then show ?thesis using r(10) k(3) ks(2) t by blast
    next
      case False
      then show ?thesis using tab_at_agree [OF D(7) [OF k(2) nz False] k(3)] t by simp
    qed
    then show ?thesis using k(1) nz by simp
  qed
  ultimately show ?thesis
    unfolding inserted_def using r(1-3) D(1) by blast
qed

text \<open>A new table in an empty entry.\<close>

lemma insert_new:
  fixes b :: bool
  assumes ok: "tables_ok (Suc d) f m fr" and i: "i < 512" "m (slot f i) = 0"
    and a: "alloc_phys_page fr = Inr (p, fr1)" "p \<noteq> 0"
  defines "m1 \<equiv> m(slot f i := set_flag 2 b (calc_page p))"
  shows "tables_ok (Suc d) f m1 fr1" and "m1 (slot f i) \<noteq> 0" and "frame_of (m1 (slot f i)) = p"
    and "tabs m1 (Suc d) f = insert p (tabs m (Suc d) f)"
    and "\<And>js. path_ok (Suc d) js \<Longrightarrow> walk m1 f js = walk m f js"
    and "\<And>n. n \<le> Suc d \<Longrightarrow> tabs m1 n f \<subseteq> tabs m n f \<union> {p}"
    and "\<And>js g. path_ok (Suc d) js \<Longrightarrow> g \<in> used_frames fr \<Longrightarrow> tab_at m1 f (butlast js) = Some g \<Longrightarrow>
       tab_at m f (butlast js) = Some g"
proof -
  have o: "phys_ok fr" "clean m fr" "tree m (Suc d) f" "tabs m (Suc d) f \<subseteq> used_frames fr"
    using ok by (auto simp: tables_ok_def)
  note e = new_entry [OF o(1) a, of b]
  have pf: "p \<in> free_frames fr" "free_frames fr1 \<subseteq> free_frames fr" by (rule alloc_free_frame [OF o(1) a])+
  have fr1: "phys_ok fr1" "p \<notin> used_frames fr" "used_frames fr1 = insert p (used_frames fr)"
    using alloc_frame [OF o(1) a] by auto
  have pa: "page_aligned p" by (rule free_frame_small(1) [OF o(1) pf(1)])
  have pt: "p \<notin> tabs m (Suc d) f" using fr1(2) o(4) by blast
  have z: "\<forall>i < 512. m (slot p i) = 0" using o(2) pf(1) by (simp add: clean_def)
  note G = grow [OF o(3) i pa pt z e, folded m1_def]
  have fa: "page_aligned f" by (rule tree_aligned [OF o(3)])
  have f: "f \<in> used_frames fr1" using o(4) fr1(3) tabs_self [of f m "Suc d"] by blast
  have "clean m1 fr1"
    unfolding m1_def
    by (rule clean_agree [OF o(2) fr1(1) pf(2) agree_outside_upd [OF fa i(1)]]) (use f in simp)
  then show "tables_ok (Suc d) f m1 fr1"
    unfolding tables_ok_def G(2) using G(1) fr1 o(4) by blast
  show "tabs m1 (Suc d) f = insert p (tabs m (Suc d) f)" by (rule G(2))
  show "m1 (slot f i) \<noteq> 0" and fm1: "frame_of (m1 (slot f i)) = p" using e by (auto simp: m1_def)
  show "walk m1 f js = walk m f js" if "path_ok (Suc d) js" for js by (rule G(3) [OF that])
  have fp: "f \<noteq> p" using pt tabs_self [of f m "Suc d"] by blast
  have ep: "\<forall>j < 512. m1 (slot p j) = 0"
    using slot_inj [OF fa pa i(1)] z fp by (metis fun_upd_other m1_def)
  have sl: "m1 (slot f k) = m (slot f k)" if "k < 512" "k \<noteq> i" for k
    using slot_inj [OF fa fa that(1) i(1)] that(2) by (simp add: m1_def)
  have ag: "agree_on (tabs m d (frame_of (m (slot f k)))) m m1" if "k < 512" "m (slot f k) \<noteq> 0" for k
  proof -
    have "tree m d (frame_of (m (slot f k)))" "f \<notin> tabs m d (frame_of (m (slot f k)))"
      using o(3) that by (auto simp: tree.simps(2))
    then show ?thesis
      unfolding m1_def using tabs_aligned fa i(1) by (intro agree_on_upd) auto
  qed
  show "tab_at m f (butlast js) = Some g"
    if js: "path_ok (Suc d) js" "g \<in> used_frames fr" "tab_at m1 f (butlast js) = Some g" for js g
  proof -
    obtain k k' ks where k: "js = k # k' # ks" "k < 512" "path_ok d (k' # ks)"
      using path_ok_Suc [OF js(1)] by blast
    then have t: "tab_at m1 (frame_of (m1 (slot f k))) (butlast (k' # ks)) = Some g"
      using js(3) by (auto split: if_splits)
    have "g \<noteq> p" using js(2) fr1(2) by blast
    then have "k \<noteq> i"
      using tab_at_tabs [OF k(3) t] empty_table(2) [OF pa ep] fm1 by auto
    moreover from this have "m (slot f k) \<noteq> 0" using js(3) k sl by (auto split: if_splits)
    ultimately show ?thesis
      using tab_at_agree [OF ag k(3)] t sl k(1,2) by simp
  qed
  show "tabs m1 n f \<subseteq> tabs m n f \<union> {p}" if "n \<le> Suc d" for n
  proof (rule tabs_upper [OF that, of m1 f i m])
    fix k assume k: "k < 512" "m1 (slot f k) \<noteq> 0" "k \<noteq> i"
    then show "m1 (slot f k) = m (slot f k)" using sl by blast
    show "agree_on (tabs m d (frame_of (m (slot f k)))) m m1" using ag k sl by simp
  next
    fix k
    show "tabs m1 k (frame_of (m1 (slot f i))) \<subseteq> tabs m (Suc k) f \<union> {p}"
      unfolding fm1 empty_table(2) [OF pa ep] by blast
  qed
qed

lemma tables_ok_child:
  assumes "tables_ok (Suc d) f m fr" and "i < 512" and "m (slot f i) \<noteq> 0"
  shows "tables_ok d (frame_of (m (slot f i))) m fr"
  using assms tabs_child [of i m f d] by (auto simp: tables_ok_def tree.simps(2))

lemma map_path_inserts:
  assumes "tables_ok d f m fr" and "path_ok d is" and "available d fr"
  shows "\<exists>m' fr'. map_path ph f is (m, fr) = Inr (m', fr') \<and> inserted d f is ph m fr m' fr'"
  using assms
proof (induction d arbitrary: f m fr "is")
  case 0
  then obtain i where "is = [i]" "i < 512" using path_ok_0 by blast
  then show ?case using insert_last [OF "0.prems"(1)] by auto
next
  case (Suc d)
  obtain i j js where p: "is = i # j # js" "i < 512" "path_ok d (j # js)"
    using path_ok_Suc [OF Suc.prems(2)] by blast
  show ?case
  proof (cases "m (slot f i) = 0")
    case False
    obtain m' fr' where "map_path ph (frame_of (m (slot f i))) (j # js) (m, fr) = Inr (m', fr')"
      "inserted d (frame_of (m (slot f i))) (j # js) ph m fr m' fr'"
      using Suc.IH [OF tables_ok_child [OF Suc.prems(1) p(2) False] p(3)] available_mono [OF Suc.prems(3), of d]
      by auto
    then show ?thesis
      using insert_below [OF Suc.prems(1) p(2) False p(3)] p(1) False by auto
  next
    case True
    obtain q fr1 where a: "alloc_phys_page fr = Inr (q, fr1)" "q \<noteq> 0" "available d fr1"
      by (rule available_Suc [OF Suc.prems(3)])
    define e where "e = set_flag 2 (bit ph 2) (calc_page q)"
    define m1 where "m1 = m(slot f i := e)"
    have m1i: "m1 (slot f i) = e" by (simp add: m1_def)
    note I = insert_new [OF Suc.prems(1) p(2) True a(1,2), where b = "bit ph 2", folded e_def, folded m1_def]
    obtain m' fr' where r: "map_path ph (frame_of e) (j # js) (m1, fr1) = Inr (m', fr')"
      "inserted d (frame_of (m1 (slot f i))) (j # js) ph m1 fr1 m' fr'"
      using Suc.IH [OF tables_ok_child [OF I(1) p(2) I(2)] p(3) a(3)] m1i by auto
    have ins: "inserted (Suc d) f is ph m1 fr1 m' fr'"
      using insert_below [OF I(1) p(2) I(2) p(3) r(2)] p(1) by simp
    have u: "used_frames fr1 = insert q (used_frames fr)" "q \<notin> used_frames fr"
      using alloc_frame Suc.prems(1) a by (auto simp: tables_ok_def)
    have fin: "f \<in> tabs m' (Suc d) f" by simp
    have fa: "page_aligned f" using Suc.prems(1) tree_aligned by (auto simp: tables_ok_def)
    have sl: "\<forall>h. page_aligned h \<longrightarrow> h \<notin> tabs m' (Suc d) f \<longrightarrow> (\<forall>j < 512. m' (slot h j) = m (slot h j))"
      using ins agree_outside_upd [OF fa p(2), of m e, folded m1_def] fin
      unfolding inserted_def by (metis singletonD)
    have up: "tabs m' n f \<subseteq> tabs m n f \<union> (used_frames fr' - used_frames fr)" if "n \<le> Suc d" for n
    proof -
      have "tabs m' n f \<subseteq> tabs m1 n f \<union> (used_frames fr' - used_frames fr1)"
        "used_frames fr1 \<subseteq> used_frames fr'"
        using ins that by (auto simp: inserted_def)
      then show ?thesis using I(6) [OF that] u by blast
    qed
    have "inserted (Suc d) f is ph m fr m' fr'"
      using ins u(1) sl I(5,7) up unfolding inserted_def by (simp del: walk.simps)
    then show ?thesis
      using r(1) p(1) True a(1) by (auto simp: e_def m1_def Let_def)
  qed
qed

section \<open>Replacing an entry\<close>

text \<open>Where the tables exist, the insertion writes one word and takes no frame.\<close>

lemma insert_existing:
  assumes "tables_ok d f m fr" and "path_ok d is" and "tab_at m f (butlast is) = Some T"
  shows "map_path ph f is (m, fr) = Inr (m(slot T (last is) := ph), fr)
     \<and> inserted d f is ph m fr (m(slot T (last is) := ph)) fr"
  using assms
proof (induction d arbitrary: f "is")
  case 0
  then obtain i where i: "is = [i]" "i < 512" using path_ok_0 by blast
  then have "f = T" using "0.prems"(3) by simp
  then show ?case
    using insert_last [OF "0.prems"(1) i(2)] unfolding i(1) by (simp del: fun_upd_apply)
next
  case (Suc d)
  obtain i j js where p: "is = i # j # js" "i < 512" "path_ok d (j # js)"
    using path_ok_Suc [OF Suc.prems(2)] by blast
  have nz: "m (slot f i) \<noteq> 0" and t: "tab_at m (frame_of (m (slot f i))) (butlast (j # js)) = Some T"
    using Suc.prems(3) p(1) by (auto split: if_splits)
  note ih = Suc.IH [OF tables_ok_child [OF Suc.prems(1) p(2) nz] p(3) t]
  then show ?case
    using insert_below [OF Suc.prems(1) p(2) nz p(3)] p(1) nz by simp
qed

lemma walk_no_table:
  assumes "tree m d f" and "path_ok d is" and "tab_at m f (butlast is) = None"
  shows "walk m f is = None"
  using assms
proof (induction d arbitrary: f "is")
  case 0
  then show ?case using path_ok_0 by fastforce
next
  case (Suc d)
  obtain i j js where p: "is = i # j # js" "i < 512" "path_ok d (j # js)"
    using path_ok_Suc [OF Suc.prems(2)] by blast
  show ?case
  proof (cases "m (slot f i) = 0")
    case False
    then have "tree m d (frame_of (m (slot f i)))" using Suc.prems(1) p(2) by (simp add: tree.simps(2))
    then have "walk m (frame_of (m (slot f i))) (j # js) = None"
      using Suc.IH Suc.prems(3) p False by auto
    then show ?thesis using p(1) by (simp add: Let_def)
  qed (use p in simp)
qed

lemma walk_last:
  assumes "tree m d f" and "path_ok d is" and "tab_at m f (butlast is) = Some T"
  shows "walk m f is = (let e = m (slot T (last is)) in if bit e 0 then Some e else None)"
  using assms
proof (induction d arbitrary: f "is")
  case 0
  then show ?case using path_ok_0 by fastforce
next
  case (Suc d)
  obtain i j js where p: "is = i # j # js" "i < 512" "path_ok d (j # js)"
    using path_ok_Suc [OF Suc.prems(2)] by blast
  then have nz: "m (slot f i) \<noteq> 0" and t: "tab_at m (frame_of (m (slot f i))) (butlast (j # js)) = Some T"
    using Suc.prems(3) by (auto split: if_splits)
  then have "bit (m (slot f i)) 0" "tree m d (frame_of (m (slot f i)))"
    using Suc.prems(1) p(2) by (simp_all add: tree.simps(2))
  then show ?case
    using Suc.IH [OF _ p(3) t] p(1) by (simp add: Let_def)
qed

text \<open>An insertion takes at most as many frames as there are upper levels.\<close>

lemma map_path_available:
  assumes "path_ok d is" and "available (d + n) fr" and "map_path ph f is (m, fr) = Inr (m', fr')"
  shows "available n fr'"
  using assms
proof (induction d arbitrary: f m fr "is")
  case 0
  then show ?case using path_ok_0 by fastforce
next
  case (Suc d)
  obtain i j js where p: "is = i # j # js" "i < 512" "path_ok d (j # js)"
    using path_ok_Suc [OF Suc.prems(1)] by blast
  show ?case
  proof (cases "m (slot f i) = 0")
    case False
    then show ?thesis
      using Suc.IH [OF p(3) available_mono [OF Suc.prems(2)]] Suc.prems(3) p(1) by simp
  next
    case True
    obtain q fr1 where "alloc_phys_page fr = Inr (q, fr1)" "available (d + n) fr1"
      using available_Suc [of "d + n" fr] Suc.prems(2) by (metis add_Suc)
    then show ?thesis
      using Suc.IH [OF p(3), of fr1] Suc.prems(3) p(1) True by (auto simp: Let_def)
  qed
qed

section \<open>Paths of addresses\<close>

definition lin_path :: "u64 \<Rightarrow> nat list" where
  "lin_path a = [lin_pml4 a, lin_pdp a, lin_pd a, lin_pt a]"

lemma lin_path_ok: "path_ok 3 (lin_path a)"
proof -
  have "unat (take_bit 9 w) < 512" for w :: u64
    using take_bit_nat_less_exp [of 9 "unat w"] by (simp add: unsigned_take_bit_eq)
  then show ?thesis
    by (simp add: path_ok_def lin_path_def lin_pml4_def lin_pdp_def lin_pd_def lin_pt_def numeral_3_eq_3)
qed

text \<open>The path determines the page within the 48 bits that are translated.\<close>

lemma lin_path_digits:
  "lin_path a = [unat a div 4096 div 512 div 512 div 512 mod 512, unat a div 4096 div 512 div 512 mod 512,
     unat a div 4096 div 512 mod 512, unat a div 4096 mod 512]"
proof -
  have "unat (take_bit 9 (drop_bit k a)) = unat a div 2 ^ k mod 512" for k
    by (simp only: unsigned_take_bit_eq unat_drop_bit_eq take_bit_nat_def drop_bit_nat_def) simp
  then show ?thesis
    by (simp add: lin_path_def lin_pml4_def lin_pdp_def lin_pd_def lin_pt_def div_mult2_eq [symmetric])
qed

lemma mod_digits: "x mod 68719476736 = x mod 512 + 512 * (x div 512 mod 512 + 512 * (x div 512 div 512 mod 512
    + 512 * (x div 512 div 512 div 512 mod 512)))" for x :: nat
proof -
  have "x mod (512 * 134217728) = 512 * (x div 512 mod 134217728) + x mod 512"
    by (rule mod_mult2_eq)
  moreover have "x div 512 mod (512 * 262144) = 512 * (x div 512 div 512 mod 262144) + x div 512 mod 512"
    by (rule mod_mult2_eq)
  moreover have "x div 512 div 512 mod (512 * 512) = 512 * (x div 512 div 512 div 512 mod 512) + x div 512 div 512 mod 512"
    by (rule mod_mult2_eq)
  ultimately show ?thesis by simp
qed

lemma lin_path_page:
  assumes "lin_path a = lin_path b"
  shows "unat a div 4096 mod 2 ^ 36 = unat b div 4096 mod 2 ^ 36"
  using assms unfolding lin_path_digits by (simp add: mod_digits)

lemma dvd_imp_eq_0: "k dvd n \<Longrightarrow> \<bar>n\<bar> < k \<Longrightarrow> n = 0" for k n :: int
  using dvd_imp_le_int [of n k] by auto

lemma lin_path_inj:
  assumes "page_aligned a" and "lin_path (a + of_nat (4096 * i)) = lin_path (a + of_nat (4096 * j))"
    and "i < 2 ^ 36" and "j < 2 ^ 36"
  shows "i = j"
proof -
  have al: "unat a mod 4096 = 0" using unat_slot(2) [OF assms(1), of 0] by simp
  then obtain q where q: "unat a = 4096 * q" by auto
  have u: "unat (a + of_nat (4096 * k)) div 4096 mod 2 ^ 36 = (q + k) mod 2 ^ 36" for k
  proof -
    have "unat (a + of_nat (4096 * k)) = (4096 * q + 4096 * k) mod 2 ^ 64"
      by (simp only: unat_word_ariths unat_of_nat q) (simp add: mod_simps)
    also have "\<dots> = 4096 * ((q + k) mod 2 ^ 52)"
      by (simp add: mult_mod_right distrib_left)
    finally have "unat (a + of_nat (4096 * k)) div 4096 mod 2 ^ 36 = (q + k) mod 2 ^ 52 mod 2 ^ 36"
      by simp
    then show ?thesis by (simp add: mod_mod_cancel)
  qed
  have "(q + i) mod 2 ^ 36 = (q + j) mod 2 ^ 36"
    using lin_path_page [OF assms(2)] unfolding u .
  then have "int (q + i) mod 2 ^ 36 = int (q + j) mod 2 ^ 36"
    by (metis of_nat_mod of_nat_numeral of_nat_power)
  then have "(2 :: int) ^ 36 dvd int i - int j" by (simp add: mod_eq_dvd_iff)
  moreover have "\<bar>int i - int j\<bar> < 2 ^ 36" using assms(3,4) by simp
  ultimately have "int i - int j = 0" by (rule dvd_imp_eq_0)
  then show ?thesis by simp
qed

end
