(* ===== verification/Irq_Spec.thy ===== *)
theory Irq_Spec
  imports Prelude
begin

text \<open>
  What the kernel relies on when it brackets code with \<^verbatim>\<open>intr_disable\<close> and \<^verbatim>\<open>intr_enable\<close>:
  a nesting counter per processor, interrupts off while it is positive. The counters of
  \<^verbatim>\<open>x86_64/intr.c\<close> implement it (theory \<open>Intr\<close>).
\<close>

fun repeat_res :: "nat \<Rightarrow> ('s \<Rightarrow> 's res) \<Rightarrow> 's \<Rightarrow> 's res" where
  "repeat_res 0 f s = Inr s"
| "repeat_res (Suc n) f s = rbind (f s) (repeat_res n f)"

locale irq_guard =
  fixes lock :: "'s \<Rightarrow> 's res"
    and unlock :: "'s \<Rightarrow> 's res"
    and inv :: "'s \<Rightarrow> bool"
    and depth :: "'s \<Rightarrow> nat"
    and enabled :: "'s \<Rightarrow> bool"
  assumes lock_law: "inv s \<Longrightarrow> depth s < 255 \<Longrightarrow>
      \<exists>s'. lock s = Inr s' \<and> inv s' \<and> depth s' = Suc (depth s) \<and> \<not> enabled s'"
    and unlock_law: "inv s \<Longrightarrow> 0 < depth s \<Longrightarrow>
      \<exists>s'. unlock s = Inr s' \<and> inv s' \<and> depth s' = depth s - 1 \<and> (enabled s' \<longleftrightarrow> depth s = 1 \<or> enabled s)"
    and unlock_zero: "inv s \<Longrightarrow> depth s = 0 \<Longrightarrow> unlock s = Inl Halt"
begin

lemma lock_many:
  "inv s \<Longrightarrow> depth s + n \<le> 255 \<Longrightarrow>
    \<exists>s'. repeat_res n lock s = Inr s' \<and> inv s' \<and> depth s' = depth s + n \<and> (0 < n \<longrightarrow> \<not> enabled s')"
proof (induction n arbitrary: s)
  case (Suc n)
  then obtain s1 where s1: "lock s = Inr s1" "inv s1" "depth s1 = Suc (depth s)" "\<not> enabled s1"
    using lock_law [of s] by auto
  then obtain s2 where "repeat_res n lock s1 = Inr s2" "inv s2" "depth s2 = depth s1 + n"
    "0 < n \<longrightarrow> \<not> enabled s2"
    using Suc.IH [of s1] Suc.prems by auto
  then show ?case using s1 by (cases "n = 0") auto
qed simp

lemma unlock_many:
  "inv s \<Longrightarrow> \<not> enabled s \<Longrightarrow> n \<le> depth s \<Longrightarrow>
    \<exists>s'. repeat_res n unlock s = Inr s' \<and> inv s' \<and> depth s' = depth s - n
      \<and> (enabled s' \<longleftrightarrow> 0 < n \<and> depth s = n)"
proof (induction n arbitrary: s)
  case (Suc n)
  then obtain s1 where s1: "unlock s = Inr s1" "inv s1" "depth s1 = depth s - 1"
    "enabled s1 \<longleftrightarrow> depth s = 1"
    using unlock_law [of s] by auto
  show ?case
  proof (cases "n = 0")
    case True
    then show ?thesis using s1 Suc.prems by auto
  next
    case False
    then have "\<not> enabled s1" "n \<le> depth s1" using s1 Suc.prems by auto
    then show ?thesis using Suc.IH [OF s1(2)] s1 False by auto
  qed
qed simp

text \<open>
  Nested sections: inside, interrupts are off; the last exit of the outermost section and
  no other turns them on.
\<close>

lemma nested_sections:
  assumes "inv s" and "depth s + n \<le> 255" and "0 < n"
  obtains s1 s2 where "repeat_res n lock s = Inr s1" and "\<not> enabled s1"
    and "repeat_res n unlock s1 = Inr s2" and "inv s2" and "depth s2 = depth s"
    and "enabled s2 \<longleftrightarrow> depth s = 0"
proof -
  obtain s1 where s1: "repeat_res n lock s = Inr s1" "inv s1" "depth s1 = depth s + n" "\<not> enabled s1"
    using lock_many [OF assms(1,2)] assms(3) by blast
  then obtain s2 where "repeat_res n unlock s1 = Inr s2" "inv s2" "depth s2 = depth s1 - n"
    "enabled s2 \<longleftrightarrow> 0 < n \<and> depth s1 = n"
    using unlock_many [of s1 n] by auto
  then show thesis using that s1 assms(3) by auto
qed

end

end
