(* ===== verification/Ioport.thy ===== *)
theory Ioport
  imports Prelude
begin

text \<open>
  Port input and output (\<^verbatim>\<open>x86_64/ioport.c\<close>) and the serial console. What the processor sends
  to a port and what it reads from one is a history of events; the devices behind the
  ports are not part of the program, so what a read returns is a parameter, a function
  of the history up to the read and of the port.
\<close>

datatype io_ev = Out u16 u8 | In u16 u8

type_synonym io = "io_ev list"
type_synonym device = "io \<Rightarrow> u16 \<Rightarrow> u8"

definition outb :: "u16 \<Rightarrow> u8 \<Rightarrow> io \<Rightarrow> io" where
  "outb port byte h = h @ [Out port byte]"

definition inb :: "device \<Rightarrow> u16 \<Rightarrow> io \<Rightarrow> u8 \<times> io" where
  "inb dev port h = (dev h port, h @ [In port (dev h port)])"

definition PORT :: u16 where
  "PORT = 0x3F8"

definition serial_init :: "io \<Rightarrow> io" where
  "serial_init h =
     outb (PORT + 2) 0xC7 (outb (PORT + 3) 0x03 (outb (PORT + 1) 0x00 (outb (PORT + 0) 0x03
       (outb (PORT + 3) 0x80 (outb (PORT + 1) 0x00 h)))))"

text \<open>
  A loop that reads a port until one of the given bits is set (\<^verbatim>\<open>while(!(inb(port) & bits));\<close>);
  \<open>None\<close> if it is never left.
\<close>

partial_function (option) wait_port :: "device \<Rightarrow> u16 \<Rightarrow> u8 \<Rightarrow> io \<Rightarrow> io option" where
  "wait_port dev port bits h =
     (let (v, h') = inb dev port h
      in if v AND bits = 0 then wait_port dev port bits h' else Some h')"

definition serial_write :: "device \<Rightarrow> u8 \<Rightarrow> io \<Rightarrow> io res" where
  "serial_write dev a h =
     rbind (of_opt Diverge (wait_port dev (PORT + 5) 0x20 h)) (\<lambda>h'. Inr (outb PORT a h'))"

section \<open>Waiting for a device\<close>

text \<open>The history after \<open>n\<close> reads of a port.\<close>

fun reads :: "device \<Rightarrow> u16 \<Rightarrow> nat \<Rightarrow> io \<Rightarrow> io" where
  "reads dev port 0 h = h"
| "reads dev port (Suc n) h = reads dev port n (snd (inb dev port h))"

text \<open>If the device reports one of the bits at some read, the loop ends at the first such read.\<close>

lemma wait_port_ends:
  assumes "dev (reads dev port n h) port AND bits \<noteq> 0"
    and "\<forall>m < n. dev (reads dev port m h) port AND bits = 0"
  shows "wait_port dev port bits h = Some (reads dev port (Suc n) h)"
  using assms
proof (induction n arbitrary: h)
  case 0
  then show ?case by (subst wait_port.simps) (simp add: inb_def)
next
  case (Suc n)
  let ?h = "snd (inb dev port h)"
  have "dev h port AND bits = 0"
    using Suc.prems(2) by (metis reads.simps(1) zero_less_Suc)
  then have "wait_port dev port bits h = wait_port dev port bits ?h"
    by (subst wait_port.simps) (simp add: inb_def)
  moreover have "\<forall>m < n. dev (reads dev port m ?h) port AND bits = 0"
    using Suc.prems(2) by (metis Suc_less_eq reads.simps(2))
  ultimately show ?case using Suc.IH [of ?h] Suc.prems(1) by simp
qed

lemma wait_port_ready:
  "dev h port AND bits \<noteq> 0 \<Longrightarrow> wait_port dev port bits h = Some (h @ [In port (dev h port)])"
  using wait_port_ends [of dev port 0 h bits] by (simp add: inb_def)

text \<open>
  When the transmitter of the serial port becomes ready after \<open>n\<close> unsuccessful polls,
  \<^verbatim>\<open>serial_write\<close> returns, having sent exactly the one byte, as its last action.
\<close>

theorem serial_write_sends:
  assumes "dev (reads dev (PORT + 5) n h) (PORT + 5) AND 0x20 \<noteq> 0"
    and "\<forall>m < n. dev (reads dev (PORT + 5) m h) (PORT + 5) AND 0x20 = 0"
  shows "serial_write dev a h = Inr (reads dev (PORT + 5) (Suc n) h @ [Out PORT a])"
  by (simp only: serial_write_def wait_port_ends [OF assms]) (simp add: outb_def)

text \<open>A transmitter that becomes ready at the second poll.\<close>

definition slow_uart :: device where
  "slow_uart h port = (if h = [] then 0 else 0x20)"

theorem serial_write_sends_witness:
  "serial_write slow_uart 65 [] = Inr [In 0x3FD 0, In 0x3FD 0x20, Out 0x3F8 65]"
  using serial_write_sends [of slow_uart 1 "[]" 65]
  by (simp add: slow_uart_def inb_def PORT_def)

end
