(* ===== verification/Intr.thy ===== *)
theory Intr
  imports Irq_Spec Ioport
begin

text \<open>
  Interrupts (\<^verbatim>\<open>x86_64/intr.c\<close>, \<^verbatim>\<open>x86_64/intr.h\<close>): the interrupt descriptor table and its gates,
  the interrupt controllers, and the per-processor counter behind \<^verbatim>\<open>intr_disable\<close> and
  \<^verbatim>\<open>intr_enable\<close>. The addresses of the handlers and of the table come from the linker and are
  arguments; the number of the processor a function runs on is the argument \<open>cpu\<close>, as
  \<^verbatim>\<open>apic_get_id\<close> returns it.
\<close>

section \<open>State\<close>

definition MAX_CPU_NR :: nat where
  "MAX_CPU_NR = 16"

record intr =
  IDT :: "u8 list"
  IDT_addr :: u64
  IDT_reg :: "u16 \<times> u64"
  idtr :: "nat \<Rightarrow> (u16 \<times> u64) option"
  intr_sema :: "u8 list"
  iflag :: "nat \<Rightarrow> bool"
  ports :: io

definition PIC1_COMMAND :: u16 where "PIC1_COMMAND = 0x20"
definition PIC1_DATA :: u16 where "PIC1_DATA = 0x21"
definition PIC2_COMMAND :: u16 where "PIC2_COMMAND = 0xA0"
definition PIC2_DATA :: u16 where "PIC2_DATA = 0xA1"

definition SYS_CODE_SELECTOR :: u16 where "SYS_CODE_SELECTOR = 8"
definition SYS_IST :: u8 where "SYS_IST = 1"
definition PAGE_IST :: u8 where "PAGE_IST = 2"
definition CALL_IST :: u8 where "CALL_IST = 3"

definition INTR_INTR_GATE :: u8 where "INTR_INTR_GATE = 0x0E"
definition INTR_PRESENT :: u8 where "INTR_PRESENT = 0x80"
definition INTR_DPL3 :: u8 where "INTR_DPL3 = 0x60"

section \<open>Operations\<close>

text \<open>\<^verbatim>\<open>apic_get_id\<close>: the identifier register rotated left by 8 bits, its low four bits.\<close>

definition apic_get_id :: "u32 \<Rightarrow> u8" where
  "apic_get_id reg = ucast (word_rotl 8 reg) AND 0xF"

text \<open>The 16 bytes of a gate.\<close>

definition gate_bytes :: "u64 \<Rightarrow> u8 \<Rightarrow> u8 \<Rightarrow> u16 \<Rightarrow> u8 list" where
  "gate_bytes func ty ist selector =
     [ucast (func AND 0x00000000000000FF),
      ucast (drop_bit 8 (func AND 0x000000000000FF00)),
      ucast (selector AND 0xFF),
      ucast (drop_bit 8 selector),
      ist AND 7,
      ty AND 0xFF,
      ucast (drop_bit 16 (func AND 0x0000000000FF0000)),
      ucast (drop_bit 24 (func AND 0x00000000FF000000)),
      ucast (drop_bit 32 (func AND 0x000000FF00000000)),
      ucast (drop_bit 40 (func AND 0x0000FF0000000000)),
      ucast (drop_bit 48 (func AND 0x00FF000000000000)),
      ucast (drop_bit 56 (func AND 0xFF00000000000000)),
      0, 0, 0, 0]"

text \<open>The loop that stores the bytes.\<close>

fun store_bytes :: "nat \<Rightarrow> u8 list \<Rightarrow> u8 list \<Rightarrow> u8 list res" where
  "store_bytes p [] xs = Inr xs"
| "store_bytes p (b # bs) xs =
     (if p < length xs then store_bytes (Suc p) bs (xs[p := b]) else Inl (Oob (int p)))"

definition intr_install :: "u8 \<Rightarrow> u64 \<Rightarrow> u8 \<Rightarrow> u8 \<Rightarrow> u16 \<Rightarrow> intr \<Rightarrow> intr res" where
  "intr_install vector func ty ist selector s =
     (if IDT_addr s = 0 then Inl (BadAddr (of_nat (unat vector * 16)))
      else rbind (store_bytes (unat vector * 16) (gate_bytes func ty ist selector) (IDT s))
             (\<lambda>t. Inr (s\<lparr>IDT := t\<rparr>)))"

definition s_intr_install :: "u8 \<Rightarrow> u64 \<Rightarrow> u8 \<Rightarrow> intr \<Rightarrow> intr res" where
  "s_intr_install vector func ty s = intr_install vector func ty SYS_IST SYS_CODE_SELECTOR s"

definition ext_intr_install :: "u8 \<Rightarrow> u64 \<Rightarrow> intr \<Rightarrow> intr res" where
  "ext_intr_install vector func s = s_intr_install vector func (INTR_PRESENT OR INTR_INTR_GATE) s"

definition IDT_load :: "nat \<Rightarrow> intr \<Rightarrow> intr" where
  "IDT_load cpu s = s\<lparr>idtr := (idtr s)(cpu := Some (IDT_reg s))\<rparr>"

definition out_port :: "u16 \<Rightarrow> u8 \<Rightarrow> intr \<Rightarrow> intr" where
  "out_port port v s = s\<lparr>ports := outb port v (ports s)\<rparr>"

definition intr_setup :: "nat \<Rightarrow> intr \<Rightarrow> intr" where
  "intr_setup cpu s =
     (let s = s\<lparr>IDT_reg := (256 * 16 - 1, IDT_addr s)\<rparr>;
          s = out_port PIC1_COMMAND (0x10 OR 0x04 OR 0x01) s;
          s = out_port PIC2_COMMAND (0x10 OR 0x04 OR 0x01) s;
          s = out_port PIC1_DATA 0x20 s;
          s = out_port PIC2_DATA 0x28 s;
          s = out_port PIC1_DATA 0x04 s;
          s = out_port PIC2_DATA 0x02 s;
          s = out_port PIC1_DATA 0x01 s;
          s = out_port PIC2_DATA 0x01 s
      in IDT_load cpu s)"

definition irq_port :: "u8 \<Rightarrow> u16" where
  "irq_port irq = 0x21 + 8 * ucast (drop_bit 3 irq)"

definition unmask_irq :: "device \<Rightarrow> u8 \<Rightarrow> intr \<Rightarrow> intr" where
  "unmask_irq dev irq s =
     (if irq > 15 then s
      else (let (m, h) = inb dev (irq_port irq) (ports s)
            in s\<lparr>ports := outb (irq_port irq) (m AND NOT (push_bit (unat (irq AND 7)) 1)) h\<rparr>))"

definition mask_irq :: "device \<Rightarrow> u8 \<Rightarrow> intr \<Rightarrow> intr" where
  "mask_irq dev irq s =
     (if irq > 15 then s
      else (let (m, h) = inb dev (irq_port irq) (ports s)
            in s\<lparr>ports := outb (irq_port irq) (m OR push_bit (unat (irq AND 7)) 1) h\<rparr>))"

text \<open>\<^verbatim>\<open>intr_enable\<close>: a counter that is already zero is a bug of the caller and stops the processor.\<close>

definition intr_enable :: "nat \<Rightarrow> intr \<Rightarrow> intr res" where
  "intr_enable cpu s =
     (if cpu \<ge> length (intr_sema s) then Inl (Oob (int cpu))
      else if intr_sema s ! cpu = 0 then Inl Halt
      else (let n = intr_sema s ! cpu - 1;
                s' = s\<lparr>intr_sema := (intr_sema s)[cpu := n]\<rparr>
            in Inr (if n = 0 then s'\<lparr>iflag := (iflag s)(cpu := True)\<rparr> else s')))"

definition intr_disable :: "nat \<Rightarrow> intr \<Rightarrow> intr res" where
  "intr_disable cpu s =
     (if cpu \<ge> length (intr_sema s) then Inl (Oob (int cpu))
      else Inr (s\<lparr>intr_sema := (intr_sema s)[cpu := intr_sema s ! cpu + 1],
                  iflag := (iflag s)(cpu := False)\<rparr>))"

text \<open>The loop \<^verbatim>\<open>for (i = 0; i < 15; i++) mask_irq(i)\<close>.\<close>

definition mask_irqs :: "device \<Rightarrow> intr \<Rightarrow> intr" where
  "mask_irqs dev s = fold (\<lambda>i. mask_irq dev (of_nat i)) [0..<15] s"

record handlers =
  timer_intr :: u64
  kbd_intr :: u64
  page_fault :: u64
  syscall_handler :: u64

definition intr_init :: "device \<Rightarrow> nat \<Rightarrow> u64 \<Rightarrow> handlers \<Rightarrow> intr \<Rightarrow> intr res" where
  "intr_init dev cpu idt_at H s =
     rbind (intr_disable cpu s) (\<lambda>s.
     rbind (s_intr_install 0x20 (timer_intr H) (INTR_PRESENT OR INTR_INTR_GATE) (s\<lparr>IDT_addr := idt_at\<rparr>)) (\<lambda>s.
     rbind (s_intr_install 0x21 (kbd_intr H) (INTR_PRESENT OR INTR_INTR_GATE) s) (\<lambda>s.
     rbind (intr_install 0x0E (page_fault H) (INTR_PRESENT OR INTR_INTR_GATE) PAGE_IST SYS_CODE_SELECTOR s) (\<lambda>s.
     rbind (intr_install 0x80 (syscall_handler H) (INTR_PRESENT OR INTR_INTR_GATE OR INTR_DPL3)
              CALL_IST SYS_CODE_SELECTOR s) (\<lambda>s.
     intr_enable cpu (unmask_irq dev 1 (mask_irqs dev (intr_setup cpu s))))))))"

definition intr_init_ap :: "nat \<Rightarrow> intr \<Rightarrow> intr" where
  "intr_init_ap cpu s = IDT_load cpu (s\<lparr>IDT_reg := (256 * 16 - 1, IDT_addr s)\<rparr>)"

section \<open>Gates\<close>

text \<open>How the processor reads a gate back.\<close>

definition gate_at :: "u8 list \<Rightarrow> nat \<Rightarrow> u8 list" where
  "gate_at t v = take 16 (drop (16 * v) t)"

definition gate_func :: "u8 list \<Rightarrow> u64" where
  "gate_func g = ucast (g ! 0) OR push_bit 8 (ucast (g ! 1)) OR push_bit 16 (ucast (g ! 6))
     OR push_bit 24 (ucast (g ! 7)) OR push_bit 32 (ucast (g ! 8)) OR push_bit 40 (ucast (g ! 9))
     OR push_bit 48 (ucast (g ! 10)) OR push_bit 56 (ucast (g ! 11))"

definition gate_selector :: "u8 list \<Rightarrow> u16" where
  "gate_selector g = ucast (g ! 2) OR push_bit 8 (ucast (g ! 3))"

lemma store_bytes_eq:
  "p + length bs \<le> length xs \<Longrightarrow>
     store_bytes p bs xs = Inr (take p xs @ bs @ drop (p + length bs) xs)"
proof (induction bs arbitrary: p xs)
  case (Cons b bs)
  then have "store_bytes (Suc p) bs (xs[p := b])
      = Inr (take (Suc p) (xs[p := b]) @ bs @ drop (Suc p + length bs) (xs[p := b]))"
    using Cons.IH [of "Suc p" "xs[p := b]"] by simp
  moreover have "take (Suc p) (xs[p := b]) = take p xs @ [b]"
    using Cons.prems by (simp add: take_Suc_conv_app_nth)
  ultimately show ?case using Cons.prems by simp
qed simp

lemma gate_bytes_eq:
  "gate_bytes f ty ist sel =
     [ucast f, ucast (drop_bit 8 f), ucast sel, ucast (drop_bit 8 sel), ist AND 7, ty,
      ucast (drop_bit 16 f), ucast (drop_bit 24 f), ucast (drop_bit 32 f), ucast (drop_bit 40 f),
      ucast (drop_bit 48 f), ucast (drop_bit 56 f), 0, 0, 0, 0]"
proof -
  have m: "ty AND 0xFF = ty" "ucast (sel AND 0xFF) = (ucast sel :: u8)"
  proof -
    have "(0xFF :: u8) = - 1" by simp
    then show "ty AND 0xFF = ty" by (simp only: and.right_neutral)
    have m: "(0xFF :: u16) = mask 8" by (simp add: mask_eq_exp_minus_1)
    show "ucast (sel AND 0xFF) = (ucast sel :: u8)"
      unfolding m by (rule bit_word_eqI) (auto simp: bit_simps)
  qed
  show ?thesis
    unfolding gate_bytes_def m
    using byte_mask [of 0 f] byte_mask [of 8 f] byte_mask [of 16 f] byte_mask [of 24 f]
      byte_mask [of 32 f] byte_mask [of 40 f] byte_mask [of 48 f] byte_mask [of 56 f]
    by simp
qed

lemma gate_func_bytes: "gate_func (gate_bytes f ty ist sel) = f"
  unfolding gate_func_def gate_bytes_eq using join_bytes [of f] by simp

lemma gate_selector_bytes: "gate_selector (gate_bytes f ty ist sel) = sel"
  unfolding gate_selector_def gate_bytes_eq using join_bytes16 [of sel] by simp

lemma length_gate_bytes [simp]: "length (gate_bytes f ty ist sel) = 16"
  by (simp add: gate_bytes_def)

definition idt_ok :: "intr \<Rightarrow> bool" where
  "idt_ok s \<longleftrightarrow> IDT_addr s \<noteq> 0 \<and> length (IDT s) = 4096"

lemma intr_install_gates:
  assumes "idt_ok s"
  obtains s' where "intr_install v f ty ist sel s = Inr s'" and "idt_ok s'"
    and "gate_at (IDT s') (unat v) = gate_bytes f ty ist sel"
    and "\<And>u. u \<noteq> unat v \<Longrightarrow> gate_at (IDT s') u = gate_at (IDT s) u"
    and "s' = s\<lparr>IDT := IDT s'\<rparr>"
proof -
  let ?g = "gate_bytes f ty ist sel" and ?p = "unat v * 16"
  let ?t = "take ?p (IDT s) @ ?g @ drop (?p + 16) (IDT s)"
  have "unat v < 2 ^ LENGTH(8)" by (rule unsigned_less)
  then have p: "?p + 16 \<le> 4096" by simp
  have st: "store_bytes ?p ?g (IDT s) = Inr ?t"
    using store_bytes_eq [of ?p ?g "IDT s"] p assms by (simp add: idt_ok_def)
  show thesis
  proof
    show "intr_install v f ty ist sel s = Inr (s\<lparr>IDT := ?t\<rparr>)"
      using assms st by (simp add: intr_install_def idt_ok_def)
    show "idt_ok (s\<lparr>IDT := ?t\<rparr>)"
      using assms p by (simp add: idt_ok_def)
    show "gate_at (IDT (s\<lparr>IDT := ?t\<rparr>)) (unat v) = ?g"
      using assms p by (simp add: gate_at_def idt_ok_def mult.commute)
    show "gate_at (IDT (s\<lparr>IDT := ?t\<rparr>)) u = gate_at (IDT s) u" if "u \<noteq> unat v" for u
    proof (cases "u < unat v")
      case True
      then have "16 * u + 16 \<le> ?p" by simp
      then show ?thesis
        using assms p by (simp add: gate_at_def idt_ok_def take_drop min_def)
    next
      case False
      then have "?p + 16 \<le> 16 * u" using that by simp
      then show ?thesis
        using assms p by (simp add: gate_at_def idt_ok_def)
    qed
  qed simp
qed

lemma intr_install_ex:
  assumes "idt_ok s"
  shows "\<exists>s'. intr_install v f ty ist sel s = Inr s' \<and> idt_ok s'
     \<and> gate_at (IDT s') (unat v) = gate_bytes f ty ist sel
     \<and> (\<forall>u. u \<noteq> unat v \<longrightarrow> gate_at (IDT s') u = gate_at (IDT s) u) \<and> s' = s\<lparr>IDT := IDT s'\<rparr>"
  by (rule intr_install_gates [OF assms, of v f ty ist sel]) blast

text \<open>
  \<^verbatim>\<open>intr_install\<close> writes a gate from which the processor reads back the handler's address,
  the selector, the type and the stack index, and changes no other vector's gate.
\<close>

theorem intr_install_roundtrip:
  assumes "idt_ok s"
  shows "\<exists>s'. intr_install v f ty ist sel s = Inr s' \<and> idt_ok s'
     \<and> gate_func (gate_at (IDT s') (unat v)) = f
     \<and> gate_selector (gate_at (IDT s') (unat v)) = sel
     \<and> gate_at (IDT s') (unat v) ! 4 = ist AND 7 \<and> gate_at (IDT s') (unat v) ! 5 = ty
     \<and> (\<forall>u. u \<noteq> unat v \<longrightarrow> gate_at (IDT s') u = gate_at (IDT s) u)"
proof -
  obtain s' where "intr_install v f ty ist sel s = Inr s'" "idt_ok s'"
    "gate_at (IDT s') (unat v) = gate_bytes f ty ist sel"
    "\<forall>u. u \<noteq> unat v \<longrightarrow> gate_at (IDT s') u = gate_at (IDT s) u"
    using intr_install_ex [OF assms] by blast
  then show ?thesis
    by (auto simp: gate_func_bytes gate_selector_bytes) (simp_all add: gate_bytes_eq)
qed

definition demo_intr :: intr where
  "demo_intr = \<lparr>IDT = replicate 4096 0, IDT_addr = 0x1000, IDT_reg = (0, 0), idtr = (\<lambda>_. None),
     intr_sema = replicate 16 0, iflag = (\<lambda>_. True), ports = []\<rparr>"

theorem intr_install_roundtrip_witness:
  "\<exists>s'. intr_install 0x21 0xFFFFFFFFC0101234 0x8E 1 8 demo_intr = Inr s'
     \<and> gate_func (gate_at (IDT s') 0x21) = 0xFFFFFFFFC0101234"
  using intr_install_roundtrip [of demo_intr "0x21" "0xFFFFFFFFC0101234" "0x8E" 1 8]
  by (auto simp: idt_ok_def demo_intr_def)

section \<open>The interrupt counter\<close>

definition cpu_ok :: "nat \<Rightarrow> intr \<Rightarrow> bool" where
  "cpu_ok cpu s \<longleftrightarrow> cpu < MAX_CPU_NR \<and> length (intr_sema s) = MAX_CPU_NR"

definition intr_depth :: "nat \<Rightarrow> intr \<Rightarrow> nat" where
  "intr_depth cpu s = unat (intr_sema s ! cpu)"

lemma intr_disable_spec:
  assumes "cpu_ok cpu s" and "intr_depth cpu s < 255"
  shows "\<exists>s'. intr_disable cpu s = Inr s' \<and> cpu_ok cpu s' \<and> intr_depth cpu s' = Suc (intr_depth cpu s)
     \<and> \<not> iflag s' cpu"
proof -
  have "unat (intr_sema s ! cpu + 1) = Suc (unat (intr_sema s ! cpu))"
    using assms(2) by (simp add: intr_depth_def unat_word_ariths)
  then show ?thesis using assms(1) by (simp add: intr_disable_def cpu_ok_def intr_depth_def)
qed

lemma intr_enable_spec:
  assumes "cpu_ok cpu s" and "0 < intr_depth cpu s"
  shows "\<exists>s'. intr_enable cpu s = Inr s' \<and> cpu_ok cpu s' \<and> intr_depth cpu s' = intr_depth cpu s - 1
     \<and> (iflag s' cpu \<longleftrightarrow> intr_depth cpu s = 1 \<or> iflag s cpu)"
proof -
  let ?n = "intr_sema s ! cpu"
  have "?n \<noteq> 0" using assms(2) by (auto simp: intr_depth_def)
  moreover from this have n: "unat (?n - 1) = unat ?n - 1"
    by (metis unat_minus_one)
  moreover have "?n - 1 = 0 \<longleftrightarrow> unat ?n = 1"
    by (metis diff_add_cancel diff_self add_0 unat_1 word_unat_eq_iff)
  ultimately show ?thesis
    using assms(1) by (simp add: intr_enable_def cpu_ok_def intr_depth_def Let_def)
qed

interpretation irqs: irq_guard "intr_disable cpu" "intr_enable cpu" "cpu_ok cpu" "intr_depth cpu"
    "\<lambda>s. iflag s cpu" for cpu
proof unfold_locales
  fix s assume "cpu_ok cpu s" "intr_depth cpu s = 0"
  then show "intr_enable cpu s = Inl Halt"
    by (simp add: intr_enable_def cpu_ok_def intr_depth_def word_unat_eq_iff)
qed (use intr_disable_spec intr_enable_spec in blast)+

text \<open>
  C28. \<^verbatim>\<open>intr_disable\<close> and \<^verbatim>\<open>intr_enable\<close> nest: after any number of entries (up to the 255 the
  counter can hold) interrupts are off on that processor, as many exits bring the counter
  back, and interrupts come on again exactly when the outermost section was left.
\<close>

theorem intr_sections_nest:
  assumes "cpu_ok cpu s" and "intr_depth cpu s + n \<le> 255" and "0 < n"
  shows "\<exists>s1 s2. repeat_res n (intr_disable cpu) s = Inr s1 \<and> \<not> iflag s1 cpu
     \<and> repeat_res n (intr_enable cpu) s1 = Inr s2 \<and> intr_depth cpu s2 = intr_depth cpu s
     \<and> (iflag s2 cpu \<longleftrightarrow> intr_depth cpu s = 0)"
  using irqs.nested_sections [OF assms] by metis

theorem intr_sections_nest_witness:
  "\<exists>s1 s2. repeat_res 3 (intr_disable 2) demo_intr = Inr s1 \<and> \<not> iflag s1 2
     \<and> repeat_res 3 (intr_enable 2) s1 = Inr s2 \<and> iflag s2 2"
  using intr_sections_nest [of 2 demo_intr 3]
  by (auto simp: cpu_ok_def intr_depth_def demo_intr_def MAX_CPU_NR_def)

section \<open>Interrupt controllers\<close>

text \<open>
  \<^verbatim>\<open>mask_irq\<close> and \<^verbatim>\<open>unmask_irq\<close> change the mask bit of lines 0 to 7 in the first controller;
  for the lines 8 to 15 they access port \<open>0x29\<close>, not the data port \<open>0xA1\<close> of the second one.
\<close>

theorem mask_irq_port:
  assumes "irq \<le> 15"
  shows "ports (mask_irq dev irq s) =
     (let p = (if irq < 8 then PIC1_DATA else 0x29); v = dev (ports s) p
      in ports s @ [In p v, Out p (set_bit (unat (irq AND 7)) v)])"
proof -
  have "irq_port irq = (if irq < 8 then PIC1_DATA else 0x29)"
  proof -
    have "unat irq \<le> 15" using assms by (simp add: word_le_nat_alt)
    moreover have "unat (drop_bit 3 irq) = unat irq div 8"
      by (simp only: unat_drop_bit_eq drop_bit_nat_def) simp
    ultimately have "unat (drop_bit 3 irq) = (if unat irq < 8 then 0 else 1)" by auto
    then have "drop_bit 3 irq = (if irq < 8 then 0 else 1)"
      by (simp add: word_less_nat_alt word_unat_eq_iff)
    then show ?thesis by (simp add: irq_port_def PIC1_DATA_def)
  qed
  moreover have "v OR push_bit k 1 = set_bit k v" for v :: u8 and k
    by (simp add: set_bit_eq_or)
  ultimately show ?thesis
    using assms by (simp add: mask_irq_def inb_def outb_def Let_def not_le [symmetric] del: push_bit_of_1)
qed

theorem mask_irq_port_witness:
  "ports (mask_irq (\<lambda>h p. 0) 12 demo_intr) = [In 0x29 0, Out 0x29 0x10]"
  using mask_irq_port [of 12 "\<lambda>h p. 0" demo_intr] by (simp add: demo_intr_def)

lemma mask_irq_frame: "\<exists>h. mask_irq dev irq s = s\<lparr>ports := h\<rparr>" "\<exists>h. unmask_irq dev irq s = s\<lparr>ports := h\<rparr>"
  by (auto simp: mask_irq_def unmask_irq_def inb_def Let_def intro: exI [of _ "ports s"])

lemma mask_irqs_frame: "\<exists>h. mask_irqs dev s = s\<lparr>ports := h\<rparr>"
proof -
  have "\<exists>h. fold (\<lambda>i. mask_irq dev (of_nat i)) is s = s\<lparr>ports := h\<rparr>" for "is"
  proof (induction "is" arbitrary: s)
    case Nil
    show ?case by (rule exI [of _ "ports s"]) simp
  next
    case (Cons i "is")
    obtain h where "mask_irq dev (of_nat i) s = s\<lparr>ports := h\<rparr>" using mask_irq_frame by blast
    then show ?case using Cons.IH [of "s\<lparr>ports := h\<rparr>"] by auto
  qed
  then show ?thesis unfolding mask_irqs_def .
qed

lemma intr_setup_frame:
  "\<exists>h. intr_setup cpu s = s\<lparr>IDT_reg := (4095, IDT_addr s), idtr := (idtr s)(cpu := Some (4095, IDT_addr s)),
     ports := h\<rparr>"
  by (rule exI [of _ "ports (intr_setup cpu s)"], rule intr.equality)
    (simp_all add: intr_setup_def Let_def out_port_def IDT_load_def)

text \<open>The controller part of \<^verbatim>\<open>intr_init\<close> leaves table and counters alone.\<close>

lemma intr_init_tail:
  obtains h where "unmask_irq dev 1 (mask_irqs dev (intr_setup cpu s)) =
    s\<lparr>IDT_reg := (4095, IDT_addr s), idtr := (idtr s)(cpu := Some (4095, IDT_addr s)), ports := h\<rparr>"
proof -
  obtain h1 where 1: "intr_setup cpu s = s\<lparr>IDT_reg := (4095, IDT_addr s),
      idtr := (idtr s)(cpu := Some (4095, IDT_addr s)), ports := h1\<rparr>" (is "_ = ?s1")
    using intr_setup_frame by blast
  obtain h2 where 2: "mask_irqs dev ?s1 = ?s1\<lparr>ports := h2\<rparr>" using mask_irqs_frame by blast
  obtain h3 where "unmask_irq dev 1 (?s1\<lparr>ports := h2\<rparr>) = ?s1\<lparr>ports := h2\<rparr>\<lparr>ports := h3\<rparr>"
    using mask_irq_frame(2) by blast
  then show thesis using that [of h3] 1 2 by simp
qed

text \<open>\<^verbatim>\<open>intr_init\<close> in full; the processor is left with interrupts on when the counter was zero.\<close>

lemma intr_init_ok:
  assumes "cpu_ok cpu s" and "intr_depth cpu s < 255" and "length (IDT s) = 4096" and "at \<noteq> 0"
  shows "\<exists>s'. intr_init dev cpu at H s = Inr s' \<and> idtr s' cpu = Some (4095, at)
     \<and> gate_func (gate_at (IDT s') 0x20) = timer_intr H \<and> gate_func (gate_at (IDT s') 0x21) = kbd_intr H
     \<and> gate_func (gate_at (IDT s') 0x0E) = page_fault H
     \<and> gate_func (gate_at (IDT s') 0x80) = syscall_handler H \<and> gate_at (IDT s') 0x80 ! 5 = 0xEE
     \<and> intr_depth cpu s' = intr_depth cpu s
     \<and> cpu_ok cpu s' \<and> iflag s' cpu = (intr_depth cpu s = 0)"
proof -
  obtain s1 where s1: "intr_disable cpu s = Inr s1" "cpu_ok cpu s1" "intr_depth cpu s1 = Suc (intr_depth cpu s)" "\<not> iflag s1 cpu"
    using intr_disable_spec [OF assms(1,2)] by blast
  have "idt_ok (s1\<lparr>IDT_addr := at\<rparr>)"
    using s1(1) assms by (auto simp: intr_disable_def idt_ok_def split: if_splits)
  then obtain s2 where s2: "s_intr_install 0x20 (timer_intr H) (INTR_PRESENT OR INTR_INTR_GATE) (s1\<lparr>IDT_addr := at\<rparr>) = Inr s2"
    "idt_ok s2" "gate_func (gate_at (IDT s2) 0x20) = timer_intr H" "s2 = s1\<lparr>IDT_addr := at, IDT := IDT s2\<rparr>"
    unfolding s_intr_install_def
    using intr_install_ex [of "s1\<lparr>IDT_addr := at\<rparr>" "0x20"] by (fastforce simp: gate_func_bytes)
  obtain s3 where s3: "s_intr_install 0x21 (kbd_intr H) (INTR_PRESENT OR INTR_INTR_GATE) s2 = Inr s3"
    "idt_ok s3" "gate_func (gate_at (IDT s3) 0x20) = timer_intr H"
    "gate_func (gate_at (IDT s3) 0x21) = kbd_intr H" "s3 = s2\<lparr>IDT := IDT s3\<rparr>"
    unfolding s_intr_install_def
    using intr_install_ex [OF s2(2), of "0x21"] s2(3) by (fastforce simp: gate_func_bytes)
  obtain s4 where s4: "intr_install 0x0E (page_fault H) (INTR_PRESENT OR INTR_INTR_GATE) PAGE_IST SYS_CODE_SELECTOR s3 = Inr s4"
    "idt_ok s4" "gate_func (gate_at (IDT s4) 0x20) = timer_intr H"
    "gate_func (gate_at (IDT s4) 0x21) = kbd_intr H" "gate_func (gate_at (IDT s4) 0x0E) = page_fault H"
    "s4 = s3\<lparr>IDT := IDT s4\<rparr>"
    using intr_install_ex [OF s3(2), of "0x0E"] s3(3,4) by (fastforce simp: gate_func_bytes)
  obtain s5 where s5: "intr_install 0x80 (syscall_handler H) (INTR_PRESENT OR INTR_INTR_GATE OR INTR_DPL3)
      CALL_IST SYS_CODE_SELECTOR s4 = Inr s5"
    "gate_func (gate_at (IDT s5) 0x20) = timer_intr H"
    "gate_func (gate_at (IDT s5) 0x21) = kbd_intr H" "gate_func (gate_at (IDT s5) 0x0E) = page_fault H"
    "gate_func (gate_at (IDT s5) 0x80) = syscall_handler H" "gate_at (IDT s5) 0x80 ! 5 = 0xEE"
    "s5 = s4\<lparr>IDT := IDT s5\<rparr>"
    using intr_install_ex [OF s4(2), of "0x80"] s4(3-5) gate_func_bytes
    by (fastforce simp: gate_bytes_eq INTR_PRESENT_def INTR_INTR_GATE_def INTR_DPL3_def)
  have k: "intr_sema s5 = intr_sema s1" "iflag s5 = iflag s1" "IDT_addr s5 = at"
    by (subst s5(7), subst s4(6), subst s3(5), subst s2(4), simp)+
  obtain h where h: "unmask_irq dev 1 (mask_irqs dev (intr_setup cpu s5)) =
      s5\<lparr>IDT_reg := (4095, at), idtr := (idtr s5)(cpu := Some (4095, at)), ports := h\<rparr>" (is "_ = ?s6")
    using intr_init_tail k(3) by metis
  have d: "cpu_ok cpu ?s6" "intr_depth cpu ?s6 = Suc (intr_depth cpu s)" "\<not> iflag ?s6 cpu"
    using s1 k by (auto simp: cpu_ok_def intr_depth_def)
  then have "0 < intr_depth cpu ?s6" by simp
  then obtain s' where s': "intr_enable cpu ?s6 = Inr s'" "intr_depth cpu s' = intr_depth cpu ?s6 - 1" "cpu_ok cpu s'"
    "iflag s' cpu \<longleftrightarrow> intr_depth cpu ?s6 = 1 \<or> iflag ?s6 cpu"
    using intr_enable_spec [OF d(1)] by blast
  have "IDT s' = IDT s5" "idtr s' cpu = Some (4095, at)"
    using s'(1) by (auto simp: intr_enable_def Let_def split: if_splits)
  then show ?thesis
    using s1(1) s2(1) s3(1) s4(1) s5(1-6) s' h d(2,3) by (simp add: intr_init_def)
qed

text \<open>
  \<^verbatim>\<open>intr_init\<close> returns with the handlers of the timer, the keyboard, the page fault and the
  system call in the table, the last one callable from user mode, the table loaded, and
  the counter of the processor as before.
\<close>

theorem intr_init_installs:
  assumes "cpu_ok cpu s" and "intr_depth cpu s < 255" and "length (IDT s) = 4096" and "at \<noteq> 0"
  shows "\<exists>s'. intr_init dev cpu at H s = Inr s' \<and> idtr s' cpu = Some (4095, at)
     \<and> gate_func (gate_at (IDT s') 0x20) = timer_intr H \<and> gate_func (gate_at (IDT s') 0x21) = kbd_intr H
     \<and> gate_func (gate_at (IDT s') 0x0E) = page_fault H
     \<and> gate_func (gate_at (IDT s') 0x80) = syscall_handler H \<and> gate_at (IDT s') 0x80 ! 5 = 0xEE
     \<and> intr_depth cpu s' = intr_depth cpu s"
  using intr_init_ok [OF assms] by blast

theorem intr_init_installs_witness:
  "\<exists>s'. intr_init (\<lambda>h p. 0) 0 0x5000
      \<lparr>timer_intr = 1, kbd_intr = 2, page_fault = 3, syscall_handler = 4\<rparr> demo_intr = Inr s'
     \<and> gate_func (gate_at (IDT s') 0x80) = 4"
  using intr_init_installs [of 0 demo_intr "0x5000" "\<lambda>h p. 0"
      "\<lparr>timer_intr = 1, kbd_intr = 2, page_fault = 3, syscall_handler = 4\<rparr>"]
  by (auto simp: cpu_ok_def intr_depth_def demo_intr_def MAX_CPU_NR_def)

end
