(* ===== verification/Alloc_Spec.thy ===== *)
theory Alloc_Spec
  imports Prelude
begin

text \<open>
  What the rest of the kernel relies on when it calls \<^verbatim>\<open>kmalloc\<close> and \<^verbatim>\<open>kfree\<close>: an
  interface with an invariant and the set of live blocks, and what follows from it
  for any client. The heap of \<^verbatim>\<open>mm/mem.c\<close> implements it (theory \<open>Mem\<close>).
\<close>

text \<open>A block is its start address and its length; two different blocks do not meet.\<close>

definition apart :: "nat \<times> nat \<Rightarrow> nat \<times> nat \<Rightarrow> bool" where
  "apart b c \<longleftrightarrow> fst b + snd b \<le> fst c \<or> fst c + snd c \<le> fst b"

definition separated :: "(nat \<times> nat) set \<Rightarrow> bool" where
  "separated L \<longleftrightarrow> (\<forall>b \<in> L. \<forall>c \<in> L. b \<noteq> c \<longrightarrow> apart b c)"

lemma apart_sym: "apart b c \<longleftrightarrow> apart c b"
  by (auto simp: apart_def)

lemma separated_insert:
  "separated L \<Longrightarrow> \<forall>c \<in> L. apart b c \<Longrightarrow> separated (insert b L)"
  by (auto simp: separated_def apart_sym)

lemma separated_subset: "separated L \<Longrightarrow> M \<subseteq> L \<Longrightarrow> separated M"
  unfolding separated_def by blast

text \<open>
  The runs of a client: it may ask for memory at any time and may free any block that
  is live at that moment.
\<close>

inductive client_run ::
  "(u64 \<Rightarrow> 'h \<Rightarrow> (u64 \<times> 'h) res) \<Rightarrow> (u64 \<Rightarrow> 'h \<Rightarrow> 'h res) \<Rightarrow> ('h \<Rightarrow> (nat \<times> nat) set)
   \<Rightarrow> 'h \<Rightarrow> 'h \<Rightarrow> bool"
  for malloc and dealloc and live where
  client_start: "client_run malloc dealloc live h h"
| client_malloc: "client_run malloc dealloc live h h1 \<Longrightarrow> malloc n h1 = Inr (p, h2)
     \<Longrightarrow> client_run malloc dealloc live h h2"
| client_free: "client_run malloc dealloc live h h1 \<Longrightarrow> (unat p, k) \<in> live h1
     \<Longrightarrow> dealloc p h1 = Inr h2 \<Longrightarrow> client_run malloc dealloc live h h2"

locale allocator =
  fixes malloc :: "u64 \<Rightarrow> 'h \<Rightarrow> (u64 \<times> 'h) res"
    and dealloc :: "u64 \<Rightarrow> 'h \<Rightarrow> 'h res"
    and inv :: "'h \<Rightarrow> bool"
    and live :: "'h \<Rightarrow> (nat \<times> nat) set"
  assumes malloc_live: "inv h \<Longrightarrow> malloc n h = Inr (p, h') \<Longrightarrow> p \<noteq> 0 \<Longrightarrow>
      inv h' \<and> (\<exists>k. unat n \<le> k \<and> live h' = insert (unat p, k) (live h)
        \<and> (\<forall>c \<in> live h. apart (unat p, k) c))"
    and malloc_null: "inv h \<Longrightarrow> malloc n h = Inr (0, h') \<Longrightarrow> h' = h"
    and dealloc_live: "inv h \<Longrightarrow> (unat p, k) \<in> live h \<Longrightarrow>
      \<exists>h'. dealloc p h = Inr h' \<and> inv h' \<and> live h' = live h - {(unat p, k)}"
    and dealloc_null: "dealloc 0 h = Inr h"
begin

lemma malloc_inv: "inv h \<Longrightarrow> malloc n h = Inr (p, h') \<Longrightarrow> inv h'"
  using malloc_live malloc_null by (cases "p = 0") blast+

lemma malloc_separated:
  assumes "inv h" and "separated (live h)" and "malloc n h = Inr (p, h')"
  shows "separated (live h')"
proof (cases "p = 0")
  case True
  then show ?thesis using assms malloc_null by blast
next
  case False
  then obtain k where "live h' = insert (unat p, k) (live h)" "\<forall>c \<in> live h. apart (unat p, k) c"
    using malloc_live assms by blast
  then show ?thesis using assms(2) by (simp add: separated_insert)
qed

lemma dealloc_inv:
  assumes "inv h" and "(unat p, k) \<in> live h" and "dealloc p h = Inr h'"
  shows "inv h'" and "live h' = live h - {(unat p, k)}"
  using dealloc_live [OF assms(1,2)] assms(3) by auto

text \<open>Whatever a client does, the allocator stays consistent and blocks stay apart.\<close>

lemma client_run_inv:
  assumes "client_run malloc dealloc live h h'" and "inv h" and "separated (live h)"
  shows "inv h' \<and> separated (live h')"
  using assms
proof (induction rule: client_run.induct)
  case (client_start h)
  then show ?case by blast
next
  case (client_malloc h h1 n p h2)
  then show ?case by (blast intro: malloc_inv malloc_separated)
next
  case (client_free h h1 p k h2)
  then show ?case
    using dealloc_inv separated_subset by (metis Diff_subset)
qed

text \<open>A block that was just obtained can be freed, which gives the old live set back.\<close>

lemma malloc_dealloc:
  assumes "inv h" and "malloc n h = Inr (p, h1)" and "p \<noteq> 0" and "unat p \<notin> fst ` live h"
  obtains h2 where "dealloc p h1 = Inr h2" and "inv h2" and "live h2 = live h"
proof -
  obtain k where k: "inv h1" "live h1 = insert (unat p, k) (live h)"
    using malloc_live assms by blast
  then obtain h2 where "dealloc p h1 = Inr h2" "inv h2" "live h2 = live h1 - {(unat p, k)}"
    using dealloc_live by blast
  moreover have "live h1 - {(unat p, k)} = live h"
    using k assms(4) by force
  ultimately show thesis using that by simp
qed

end

end
