(* ===== verification/Mem.thy ===== *)
theory Mem
  imports Alloc_Spec
begin

text \<open>
  The kernel heap of \<^verbatim>\<open>mm/mem.c\<close>: a chain of chunks, each with a 16-byte header, that
  tiles the area above the kernel; \<^verbatim>\<open>kmalloc\<close> takes the first free chunk that is large
  enough and splits it, \<^verbatim>\<open>kfree\<close> joins the chunk with its free neighbours.
\<close>

section \<open>State\<close>

text \<open>
  \<^verbatim>\<open>struct _kmem_header\<close>: the bit-field \<^verbatim>\<open>size\<close> has 31 bits, \<^verbatim>\<open>free\<close> one.
\<close>

record kmem_header =
  h_magic :: u32
  h_size :: "31 word"
  h_free :: bool
  h_prev :: u64

definition KMEM_MAGIC :: u32 where
  "KMEM_MAGIC = 0xF0B0DEFC"

text \<open>\<^verbatim>\<open>sizeof(kmem_header)\<close>; the structure is packed.\<close>

abbreviation HDR :: nat where
  "HDR \<equiv> 16"

text \<open>
  The two globals of the component and the headers in memory. \<open>hdrs\<close> holds the
  header that was last written at an address; an access to an address where none was
  ever written is a fault.
\<close>

record heap =
  kernel_heap :: u64
  kernel_hlim :: u64
  hdrs :: "u64 \<rightharpoonup> kmem_header"

definition hread :: "heap \<Rightarrow> u64 \<Rightarrow> kmem_header res" where
  "hread H a = of_opt (BadAddr a) (hdrs H a)"

definition hwrite :: "u64 \<Rightarrow> kmem_header \<Rightarrow> heap \<Rightarrow> heap" where
  "hwrite a h H = H\<lparr>hdrs := (hdrs H)(a \<mapsto> h)\<rparr>"

text \<open>The heap limit of the comparisons, \<^verbatim>\<open>(uint64_t)kernel_heap + kernel_hlim\<close>.\<close>

definition heap_lim :: "heap \<Rightarrow> u64" where
  "heap_lim H = kernel_heap H + kernel_hlim H"

section \<open>Operations\<close>

text \<open>The heap part of \<^verbatim>\<open>mem_init\<close>: one free chunk from \<^verbatim>\<open>last_page\<close> to the top.\<close>

definition heap_setup :: "u64 \<Rightarrow> heap \<Rightarrow> heap" where
  "heap_setup last_page H =
     (let lim = 0x40000000 - last_page - 16;
          base = last_page OR 0xFFFFFFFFC0000000
      in hwrite base \<lparr>h_magic = KMEM_MAGIC, h_size = ucast lim, h_free = True, h_prev = 0\<rparr>
           (H\<lparr>kernel_heap := base, kernel_hlim := lim\<rparr>))"

text \<open>The search loop of \<^verbatim>\<open>kmalloc\<close>; \<open>None\<close> if it is never left.\<close>

partial_function (option) kmalloc_find :: "heap \<Rightarrow> u64 \<Rightarrow> u64 \<Rightarrow> u64 res option" where
  "kmalloc_find H sz head =
     (if head < heap_lim H then
        (case hread H head of
           Inl e \<Rightarrow> Some (Inl e)
         | Inr h \<Rightarrow>
             if ucast (h_size h) < sz \<or> \<not> h_free h
             then kmalloc_find H sz (head + ucast (h_size h) + 16)
             else Some (Inr head))
      else Some (Inr head))"

text \<open>The split of a chunk that is larger than the request needs.\<close>

definition kmalloc_split :: "u64 \<Rightarrow> u64 \<Rightarrow> heap \<Rightarrow> heap res" where
  "kmalloc_split sz head H =
     rbind (hread H head) (\<lambda>h.
       let nxt = head + sz + 16;
           H1 = hwrite nxt \<lparr>h_magic = KMEM_MAGIC, h_size = ucast (ucast (h_size h) - sz - 16),
                           h_free = True, h_prev = head\<rparr> H
       in rbind (hread H1 head) (\<lambda>h1.
            rbind (if head + ucast (h_size h1) < heap_lim H1 then
                     (let wnext = head + ucast (h_size h1) + 16
                      in rbind (hread H1 wnext) (\<lambda>w. Inr (hwrite wnext (w\<lparr>h_prev := nxt\<rparr>) H1)))
                   else Inr H1)
              (\<lambda>H2. rbind (hread H2 head) (\<lambda>h2. Inr (hwrite head (h2\<lparr>h_size := ucast sz\<rparr>) H2)))))"

definition kmalloc :: "u64 \<Rightarrow> heap \<Rightarrow> (u64 \<times> heap) res" where
  "kmalloc sz H =
     (if sz = 0 \<or> kernel_hlim H \<le> sz then Inr (0, H)
      else rbind (of_loop (kmalloc_find H sz (kernel_heap H))) (\<lambda>head.
        if heap_lim H \<le> head then Inr (0, H)
        else rbind (hread H head) (\<lambda>h.
          rbind (if sz + 16 < ucast (h_size h) then kmalloc_split sz head H else Inr H) (\<lambda>H1.
            rbind (hread H1 head) (\<lambda>h1.
              Inr (head + 16, hwrite head (h1\<lparr>h_free := False\<rparr>) H1))))))"

text \<open>
  \<^verbatim>\<open>kfree\<close>, in three parts: the join with the previous chunk (which yields the header
  that now covers the memory), the join with the following one (which yields the
  address of the chunk after it), and the correction of that chunk's \<^verbatim>\<open>prev\<close>.
\<close>

definition kfree_prev :: "u64 \<Rightarrow> heap \<Rightarrow> (u64 \<times> heap) res" where
  "kfree_prev ptr H =
     rbind (hread H ptr) (\<lambda>h.
       let prev = h_prev h in
       if prev = 0 then Inr (ptr, H)
       else rbind (hread H prev) (\<lambda>p.
         if h_magic p = KMEM_MAGIC \<and> h_free p then
           (let H1 = hwrite prev (p\<lparr>h_size := ucast (ucast (h_size p) + (ucast (h_size h) + 16) :: u64)\<rparr>) H
            in rbind (hread H1 ptr) (\<lambda>h1.
                 Inr (prev, hwrite ptr (h1\<lparr>h_magic := 0, h_size := 0, h_prev := 0\<rparr>) H1)))
         else Inr (ptr, H)))"

definition kfree_next :: "u64 \<Rightarrow> heap \<Rightarrow> (u64 \<times> heap) res" where
  "kfree_next ptr H =
     rbind (hread H ptr) (\<lambda>h.
       let nxt = ptr + ucast (h_size h) + 16 in
       if nxt \<noteq> 0 \<and> nxt < heap_lim H then
         rbind (hread H nxt) (\<lambda>n.
           if h_magic n = KMEM_MAGIC \<and> h_free n then
             (let sz = ucast (ucast (h_size h) + (ucast (h_size n) + 16) :: u64);
                  H1 = hwrite ptr (h\<lparr>h_size := sz\<rparr>) H
              in rbind (hread H1 nxt) (\<lambda>n1.
                   Inr (ptr + ucast sz + 16,
                        hwrite nxt (n1\<lparr>h_magic := 0, h_size := 0, h_prev := 0\<rparr>) H1)))
           else Inr (nxt, H))
       else Inr (nxt, H))"

definition kfree_fix :: "u64 \<Rightarrow> u64 \<Rightarrow> heap \<Rightarrow> heap res" where
  "kfree_fix ptr nxt H =
     (if nxt \<noteq> 0 \<and> nxt < heap_lim H then
        rbind (hread H nxt) (\<lambda>n.
          if h_magic n = KMEM_MAGIC then Inr (hwrite nxt (n\<lparr>h_prev := ptr\<rparr>) H) else Inr H)
      else Inr H)"

definition kfree :: "u64 \<Rightarrow> heap \<Rightarrow> heap res" where
  "kfree p H =
     (if p = 0 then Inr H
      else (let ptr = p - 16 in
        rbind (hread H ptr) (\<lambda>h.
          rbind (kfree_prev ptr (hwrite ptr (h\<lparr>h_free := True\<rparr>) H)) (\<lambda>(ptr1, H1).
            rbind (kfree_next ptr1 H1) (\<lambda>(nxt, H2).
              kfree_fix ptr1 nxt H2)))))"

section \<open>The chain of chunks\<close>

text \<open>
  The abstract heap is the list of its chunks, size and free flag, in the order of
  their addresses. \<open>chain\<close> says that the headers in memory describe such a list from
  an offset on; sizes are natural numbers.
\<close>

type_synonym chunk = "nat \<times> bool"

fun chunks_len :: "chunk list \<Rightarrow> nat" where
  "chunks_len [] = 0"
| "chunks_len ((s, f) # bs) = s + HDR + chunks_len bs"

fun chain :: "(u64 \<rightharpoonup> kmem_header) \<Rightarrow> u64 \<Rightarrow> nat \<Rightarrow> u64 \<Rightarrow> chunk list \<Rightarrow> bool" where
  "chain m base off prv [] = True"
| "chain m base off prv ((s, f) # bs) =
     (m (base + of_nat off)
        = Some \<lparr>h_magic = KMEM_MAGIC, h_size = of_nat s, h_free = f, h_prev = prv\<rparr>
      \<and> chain m base (off + s + HDR) (base + of_nat off) bs)"

text \<open>The \<^verbatim>\<open>prev\<close> link that the chunk after \<open>bs\<close> carries.\<close>

fun last_hdr :: "u64 \<Rightarrow> nat \<Rightarrow> u64 \<Rightarrow> chunk list \<Rightarrow> u64" where
  "last_hdr base off prv [] = prv"
| "last_hdr base off prv ((s, f) # bs) = last_hdr base (off + s + HDR) (base + of_nat off) bs"

text \<open>The heap area: it fits the 31-bit size field and ends at or below \<open>2 ^ 64\<close>.\<close>

definition heap_frame :: "heap \<Rightarrow> bool" where
  "heap_frame H \<longleftrightarrow>
     kernel_heap H \<noteq> 0
     \<and> unat (kernel_hlim H) < 2 ^ 31
     \<and> unat (kernel_heap H) + unat (kernel_hlim H) + HDR \<le> 2 ^ 64"

definition heap_rep :: "heap \<Rightarrow> chunk list \<Rightarrow> bool" where
  "heap_rep H bs \<longleftrightarrow>
     heap_frame H
     \<and> chain (hdrs H) (kernel_heap H) 0 0 bs
     \<and> (\<forall>(s, f) \<in> set bs. 0 < s)
     \<and> chunks_len bs = unat (kernel_hlim H) + HDR"

text \<open>No two neighbouring chunks are both free.\<close>

fun coalesced :: "chunk list \<Rightarrow> bool" where
  "coalesced ((s, f) # (t, g) # bs) = (\<not> (f \<and> g) \<and> coalesced ((t, g) # bs))"
| "coalesced bs = True"

section \<open>First fit on the abstract heap\<close>

definition split_chunk :: "nat \<Rightarrow> nat \<Rightarrow> chunk list" where
  "split_chunk n s = (if n + HDR < s then [(n, False), (s - n - HDR, True)] else [(s, False)])"

fun first_fit :: "nat \<Rightarrow> chunk list \<Rightarrow> (nat \<times> chunk list) option" where
  "first_fit n [] = None"
| "first_fit n ((s, f) # bs) =
     (if f \<and> n \<le> s then Some (0, split_chunk n s @ bs)
      else map_option (\<lambda>(off, bs'). (s + HDR + off, (s, f) # bs')) (first_fit n bs))"

text \<open>
  Releasing the chunk of size \<open>s\<close> between \<open>xs\<close> and \<open>ys\<close>: the last chunk of \<open>xs\<close> and the
  first of \<open>ys\<close> are absorbed where they are free.
\<close>

definition absorb_next :: "nat \<Rightarrow> chunk list \<Rightarrow> chunk list" where
  "absorb_next s ys =
     (case ys of (t, True) # zs \<Rightarrow> (s + HDR + t, True) # zs | _ \<Rightarrow> (s, True) # ys)"

definition release :: "chunk list \<Rightarrow> nat \<Rightarrow> chunk list \<Rightarrow> chunk list" where
  "release xs s ys =
     (case rev xs of
        (t, True) # ws \<Rightarrow> rev ws @ absorb_next (t + HDR + s) ys
      | _ \<Rightarrow> xs @ absorb_next s ys)"


section \<open>Lemmas on chains\<close>

lemma hread_hwrite [simp]:
  "hread (hwrite a h H) b = (if b = a then Inr h else hread H b)"
  by (simp add: hread_def hwrite_def)

lemma hwrite_frame [simp]:
  "kernel_heap (hwrite a h H) = kernel_heap H"
  "kernel_hlim (hwrite a h H) = kernel_hlim H"
  "heap_lim (hwrite a h H) = heap_lim H"
  "heap_frame (hwrite a h H) = heap_frame H"
  "hdrs (hwrite a h H) = (hdrs H)(a \<mapsto> h)"
  by (simp_all add: hwrite_def heap_lim_def heap_frame_def)

lemma chunks_len_append [simp]: "chunks_len (xs @ ys) = chunks_len xs + chunks_len ys"
  by (induction xs rule: chunks_len.induct) auto

lemma chain_append [simp]:
  "chain m base off prv (xs @ ys) \<longleftrightarrow>
     chain m base off prv xs
     \<and> chain m base (off + chunks_len xs) (last_hdr base off prv xs) ys"
  by (induction xs arbitrary: off prv rule: chunks_len.induct) (auto simp: ac_simps)

lemma last_hdr_snoc [simp]:
  "last_hdr base off prv (xs @ [(s, f)]) = base + of_nat (off + chunks_len xs)"
  by (induction xs arbitrary: off prv rule: chunks_len.induct) (auto simp: ac_simps)

lemma chain_upd:
  assumes "k < off \<or> off + chunks_len bs \<le> k" and "k < 2 ^ 64" and "off + chunks_len bs \<le> 2 ^ 64"
  shows "chain (m(base + of_nat k \<mapsto> v)) base off prv bs = chain m base off prv bs"
  using assms
proof (induction bs arbitrary: off prv rule: chunks_len.induct)
  case 1
  then show ?case by simp
next
  case (2 s f bs)
  have "base + of_nat off \<noteq> base + of_nat k"
    using 2 by (subst add_of_nat_inj) auto
  moreover have "chain (m(base + of_nat k \<mapsto> v)) base (off + s + HDR) (base + of_nat off) bs
      = chain m base (off + s + HDR) (base + of_nat off) bs"
    using 2 by (intro "2.IH") auto
  ultimately show ?case by (simp del: of_nat_add fun_upd_apply add: fun_upd_other)
qed

lemma hsize_u64:
  assumes "s < 2 ^ 31"
  shows "ucast (of_nat s :: 31 word) = (of_nat s :: u64)"
  using assms by (simp add: word_unat_eq_iff unsigned_ucast_eq unsigned_of_nat take_bit_eq_mod)

lemma hsize_trunc:
  assumes "s < 2 ^ 31"
  shows "ucast (of_nat s :: u64) = (of_nat s :: 31 word)"
  using assms by (simp add: word_unat_eq_iff unsigned_ucast_eq unsigned_of_nat take_bit_eq_mod)

text \<open>Addresses inside the heap area compare as their offsets do.\<close>

lemma unat_at:
  assumes "heap_frame H" and "off < unat (kernel_hlim H) + HDR"
  shows "unat (kernel_heap H + of_nat off) = unat (kernel_heap H) + off"
  using assms by (intro unat_add_of_nat) (auto simp: heap_frame_def)

lemma unat_heap_lim:
  assumes "heap_frame H"
  shows "unat (heap_lim H) = unat (kernel_heap H) + unat (kernel_hlim H)"
  using unat_at [OF assms, of "unat (kernel_hlim H)"] by (simp add: heap_lim_def)

lemma at_less_lim:
  assumes "heap_frame H" and "off < unat (kernel_hlim H) + HDR"
  shows "kernel_heap H + of_nat off < heap_lim H \<longleftrightarrow> off < unat (kernel_hlim H)"
  using assms by (simp add: word_less_nat_alt unat_at unat_heap_lim)

lemma at_not_zero:
  assumes "heap_frame H" and "off < unat (kernel_hlim H) + HDR"
  shows "kernel_heap H + of_nat off \<noteq> 0"
proof -
  have "unat (kernel_heap H + of_nat off) \<noteq> 0"
    using assms by (simp add: unat_at heap_frame_def unat_eq_zero)
  then show ?thesis by (metis unat_0)
qed

text \<open>The address just behind the area: the limit plus a header, or 0 where it wraps.\<close>

lemma heap_end_eq:
  assumes "heap_frame H"
  shows "kernel_heap H + of_nat (unat (kernel_hlim H) + HDR)
     = (if unat (kernel_heap H) + unat (kernel_hlim H) + HDR = 2 ^ 64 then 0
        else heap_lim H + 16)"
proof (cases "unat (kernel_heap H) + unat (kernel_hlim H) + HDR = 2 ^ 64")
  case True
  have "kernel_heap H + of_nat (unat (kernel_hlim H) + HDR)
      = of_nat (unat (kernel_heap H) + unat (kernel_hlim H) + HDR)"
    by simp
  also have "\<dots> = 0"
    unfolding True by (simp add: word_unat_eq_iff unat_of_nat)
  finally show ?thesis using True by simp
next
  case False
  then show ?thesis by (simp add: heap_lim_def)
qed

lemma heap_end_not_less:
  assumes "heap_frame H" and "unat (kernel_heap H) + unat (kernel_hlim H) + HDR \<noteq> 2 ^ 64"
  shows "\<not> heap_lim H + 16 < heap_lim H"
proof -
  have "unat (heap_lim H + of_nat 16) = unat (heap_lim H) + 16"
    using assms by (intro unat_add_of_nat) (auto simp: unat_heap_lim heap_frame_def)
  then show ?thesis by (simp add: word_less_nat_alt)
qed


section \<open>Reading and writing headers of a represented heap\<close>

definition chunk_at :: "heap \<Rightarrow> nat \<Rightarrow> u64" where
  "chunk_at H off = kernel_heap H + of_nat off"

lemma chunk_at_hwrite [simp]: "chunk_at (hwrite a h H) off = chunk_at H off"
  by (simp add: chunk_at_def)

lemma chunk_at_add:
  "chunk_at H off + of_nat k = chunk_at H (off + k)"
  "chunk_at H off + 16 = chunk_at H (off + HDR)"
  by (simp_all add: chunk_at_def)

lemma chunk_at_inj:
  "k < 2 ^ 64 \<Longrightarrow> l < 2 ^ 64 \<Longrightarrow> chunk_at H k = chunk_at H l \<longleftrightarrow> k = l"
  unfolding chunk_at_def by (rule add_of_nat_inj)

lemmas chunk_at_end = heap_end_eq [folded chunk_at_def]
lemmas chunk_at_less_lim = at_less_lim [folded chunk_at_def]
lemmas chunk_at_not_zero = at_not_zero [folded chunk_at_def]

lemma chain_upd_at:
  assumes "k < off \<or> off + chunks_len bs \<le> k" and "k < 2 ^ 64" and "off + chunks_len bs \<le> 2 ^ 64"
  shows "chain (m(chunk_at H k \<mapsto> v)) (kernel_heap H) off prv bs = chain m (kernel_heap H) off prv bs"
  using chain_upd [OF assms] by (simp add: chunk_at_def)

lemma chain_Cons_at:
  "chain m (kernel_heap H) off prv ((s, f) # bs) \<longleftrightarrow>
     m (chunk_at H off)
        = Some \<lparr>h_magic = KMEM_MAGIC, h_size = of_nat s, h_free = f, h_prev = prv\<rparr>
     \<and> chain m (kernel_heap H) (off + s + HDR) (chunk_at H off) bs"
  by (simp add: chunk_at_def)

lemmas chain_at_simps = chain_Cons_at chain_upd_at chunk_at_add

text \<open>Memory outside the heap area keeps its contents.\<close>

definition same_hdrs :: "heap \<Rightarrow> heap \<Rightarrow> bool" where
  "same_hdrs H H' \<longleftrightarrow> (\<forall>a. a < kernel_heap H \<or> heap_lim H \<le> a \<longrightarrow> hdrs H' a = hdrs H a)"

lemma same_hdrs_refl [simp]: "same_hdrs H H"
  by (simp add: same_hdrs_def)

lemma same_hdrs_hwrite:
  assumes "heap_frame H" and "off < unat (kernel_hlim H)" and "same_hdrs H H'"
  shows "same_hdrs H (hwrite (chunk_at H off) h H')"
proof -
  have "chunk_at H off < heap_lim H"
    using chunk_at_less_lim [of H off] assms by simp
  moreover have "kernel_heap H \<le> chunk_at H off"
    using unat_at [of H off] assms by (simp add: chunk_at_def word_le_nat_alt)
  ultimately show ?thesis
    using assms(3) by (auto simp: same_hdrs_def)
qed

lemma same_hdrs_trans:
  assumes "same_hdrs H H1" and "same_hdrs H1 H2"
    and "kernel_heap H1 = kernel_heap H" and "kernel_hlim H1 = kernel_hlim H"
  shows "same_hdrs H H2"
  using assms by (simp add: same_hdrs_def heap_lim_def)

lemma heap_rep_frame: "heap_rep H bs \<Longrightarrow> heap_frame H"
  by (simp add: heap_rep_def)

lemma heap_rep_len: "heap_rep H bs \<Longrightarrow> chunks_len bs = unat (kernel_hlim H) + HDR"
  by (simp add: heap_rep_def)

lemma heap_rep_bounds:
  assumes "heap_rep H (xs @ (s, f) # ys)"
  shows "0 < s" and "s < 2 ^ 31" and "chunks_len xs < unat (kernel_hlim H)"
    and "chunks_len xs + s + HDR + chunks_len ys = unat (kernel_hlim H) + HDR"
    and "unat (kernel_hlim H) < 2 ^ 31"
    and "\<forall>(s, f) \<in> set xs \<union> set ys. 0 < s"
  using assms by (auto simp: heap_rep_def heap_frame_def)

text \<open>The next header is inside the area exactly when a chunk follows.\<close>

lemma heap_rep_next:
  assumes "heap_rep H (xs @ (s, f) # ys)"
  shows "chunks_len xs + s < unat (kernel_hlim H) \<longleftrightarrow> ys \<noteq> []"
    and "ys \<noteq> [] \<Longrightarrow> chunks_len xs + s + HDR < unat (kernel_hlim H)"
  using heap_rep_bounds [OF assms] by (cases ys; force)+

lemma heap_rep_hdr:
  assumes "heap_rep H (xs @ (s, f) # ys)"
  shows "hread H (chunk_at H (chunks_len xs))
     = Inr \<lparr>h_magic = KMEM_MAGIC, h_size = of_nat s, h_free = f,
            h_prev = last_hdr (kernel_heap H) 0 0 xs\<rparr>"
  using assms by (simp add: heap_rep_def hread_def chunk_at_def)

lemma chunks_len_small:
  assumes "heap_rep H bs"
  shows "chunks_len bs < 2 ^ 64"
  using assms by (simp add: heap_rep_def heap_frame_def)

text \<open>Rewriting the header of one chunk, its size and its neighbours unchanged.\<close>

lemma heap_rep_set_free:
  assumes rep: "heap_rep H (xs @ (s, f) # ys)"
  shows "heap_rep (hwrite (chunk_at H (chunks_len xs))
           \<lparr>h_magic = KMEM_MAGIC, h_size = of_nat s, h_free = g,
            h_prev = last_hdr (kernel_heap H) 0 0 xs\<rparr> H) (xs @ (s, g) # ys)"
proof -
  have "chunks_len xs + s + HDR + chunks_len ys < 2 ^ 64"
    using chunks_len_small [OF rep] by simp
  then show ?thesis
    using rep by (simp add: heap_rep_def chain_upd_at chunk_at_def [symmetric])
qed

section \<open>\<open>kmalloc\<close> is first fit\<close>

lemma first_fit_Some:
  assumes "first_fit n bs = Some (off, bs')"
  obtains xs s ys where "bs = xs @ (s, True) # ys" and "n \<le> s" and "off = chunks_len xs"
    and "bs' = xs @ split_chunk n s @ ys"
proof -
  have "\<exists>xs s ys. bs = xs @ (s, True) # ys \<and> n \<le> s \<and> off = chunks_len xs
      \<and> bs' = xs @ split_chunk n s @ ys"
    using assms
  proof (induction n bs arbitrary: off bs' rule: first_fit.induct)
    case (1 n)
    then show ?case by simp
  next
    case (2 n s f bs)
    show ?case
    proof (cases "f \<and> n \<le> s")
      case True
      with 2 show ?thesis by (intro exI [of _ "[]"]) auto
    next
      case False
      with 2 obtain off1 bs1 where r: "first_fit n bs = Some (off1, bs1)"
        and off: "off = s + HDR + off1" and bs': "bs' = (s, f) # bs1"
        by (auto split: if_splits)
      from "2.IH" [OF False r] obtain xs t ys where
        "bs = xs @ (t, True) # ys" "n \<le> t" "off1 = chunks_len xs" "bs1 = xs @ split_chunk n t @ ys"
        by blast
      then show ?thesis
        using off bs' by (intro exI [of _ "(s, f) # xs"] exI [of _ t] exI [of _ ys]) simp
    qed
  qed
  then show thesis using that by blast
qed

lemma kmalloc_find_chain:
  assumes fr: "heap_frame H"
    and ch: "chain (hdrs H) (kernel_heap H) off prv bs"
    and pos: "\<forall>(s, f) \<in> set bs. 0 < s"
    and len: "off + chunks_len bs = unat (kernel_hlim H) + HDR"
  shows "kmalloc_find H sz (chunk_at H off) =
    (case first_fit (unat sz) bs of
       Some (o1, _) \<Rightarrow> Some (Inr (chunk_at H (off + o1)))
     | None \<Rightarrow> kmalloc_find H sz (chunk_at H (unat (kernel_hlim H) + HDR)))"
  using ch pos len
proof (induction bs arbitrary: off prv rule: chunks_len.induct)
  case 1
  then show ?case by simp
next
  case (2 s f bs)
  have s31: "s < 2 ^ 31" and offl: "off < unat (kernel_hlim H)" and s0: "0 < s"
    using 2 fr by (auto simp: heap_frame_def)
  have lt: "chunk_at H off < heap_lim H"
    using at_less_lim [OF fr, of off] offl by (simp add: chunk_at_def)
  have rd: "hread H (chunk_at H off)
      = Inr \<lparr>h_magic = KMEM_MAGIC, h_size = of_nat s, h_free = f, h_prev = prv\<rparr>"
    using 2 by (simp add: hread_def chunk_at_def)
  have sz: "(of_nat s :: u64) < sz \<longleftrightarrow> s < unat sz"
    using s31 by (simp add: word_less_nat_alt unat_of_nat)
  show ?case
  proof (cases "f \<and> unat sz \<le> s")
    case True
    then show ?thesis
      by (subst kmalloc_find.simps) (simp add: lt rd hsize_u64 [OF s31] sz)
  next
    case False
    then have "s < unat sz \<or> \<not> f" by auto
    then have step: "kmalloc_find H sz (chunk_at H off)
        = kmalloc_find H sz (chunk_at H (off + s + HDR))"
      by (subst kmalloc_find.simps) (simp add: lt rd hsize_u64 [OF s31] sz chunk_at_add)
    have "kmalloc_find H sz (chunk_at H (off + s + HDR)) =
      (case first_fit (unat sz) bs of
         Some (o1, _) \<Rightarrow> Some (Inr (chunk_at H (off + s + HDR + o1)))
       | None \<Rightarrow> kmalloc_find H sz (chunk_at H (unat (kernel_hlim H) + HDR)))"
      using 2 by (intro "2.IH" [of _ "kernel_heap H + of_nat off"]) auto
    with False show ?thesis
      by (auto simp: step ac_simps split: option.splits)
  qed
qed


lemma unat_of_nat_31: "n < 2 ^ 31 \<Longrightarrow> unat (of_nat n :: u64) = n"
  by (simp add: unat_of_nat)

text \<open>
  A chunk of size \<open>s\<close> at the front of a chain is cut in two when the header of the rest
  is written behind the first \<open>n\<close> bytes and the chunk that follows, if there is one,
  is linked to it.
\<close>

lemma chain_split:
  assumes ch: "chain m (kernel_heap H) off prv ((s, f) # ys)"
    and n: "n + HDR < s" and small: "off + s + HDR + chunks_len ys < 2 ^ 64"
    and a0: "a0 = chunk_at H off" and a1: "a1 = chunk_at H (off + n + HDR)"
    and a2: "a2 = chunk_at H (off + s + HDR)"
  defines "m1 \<equiv> m(a1 \<mapsto> \<lparr>h_magic = KMEM_MAGIC, h_size = of_nat (s - n - HDR), h_free = True, h_prev = a0\<rparr>)"
  shows "ys = [] \<Longrightarrow> chain (m1(a0 \<mapsto> \<lparr>h_magic = KMEM_MAGIC, h_size = of_nat n, h_free = f, h_prev = prv\<rparr>))
           (kernel_heap H) off prv ((n, f) # (s - n - HDR, True) # ys)"
    and "ys = (t, g) # zs \<Longrightarrow>
         m1 a2 = Some \<lparr>h_magic = KMEM_MAGIC, h_size = of_nat t, h_free = g, h_prev = a0\<rparr> \<and>
         chain (m1(a2 \<mapsto> \<lparr>h_magic = KMEM_MAGIC, h_size = of_nat t, h_free = g, h_prev = a1\<rparr>,
                   a0 \<mapsto> \<lparr>h_magic = KMEM_MAGIC, h_size = of_nat n, h_free = f, h_prev = prv\<rparr>))
           (kernel_heap H) off prv ((n, f) # (s - n - HDR, True) # ys)"
proof -
  have ne: "a0 \<noteq> a1" "a1 \<noteq> a0" 
    using n small unfolding a0 a1 by (subst chunk_at_inj; simp)+
  have sum: "off + n + HDR + (s - n - HDR) + HDR = off + s + HDR"
    using n by simp
  show "chain (m1(a0 \<mapsto> \<lparr>h_magic = KMEM_MAGIC, h_size = of_nat n, h_free = f, h_prev = prv\<rparr>))
           (kernel_heap H) off prv ((n, f) # (s - n - HDR, True) # ys)" if "ys = []"
    using that ne by (simp add: m1_def chain_Cons_at a0 a1 del: chain.simps(2))
  assume ys: "ys = (t, g) # zs"
  have ne2: "a2 \<noteq> a0" "a2 \<noteq> a1"
    using n small ys unfolding a0 a1 a2 by (subst chunk_at_inj; simp)+
  have "chain (m1(a2 \<mapsto> v2, a0 \<mapsto> v0)) (kernel_heap H) (off + s + HDR + t + HDR) a2 zs" for v0 v2
    using ch n small ys
    by (simp add: m1_def a0 a1 a2 chain_at_simps del: chain.simps(2))
  then show "m1 a2 = Some \<lparr>h_magic = KMEM_MAGIC, h_size = of_nat t, h_free = g, h_prev = a0\<rparr> \<and>
         chain (m1(a2 \<mapsto> \<lparr>h_magic = KMEM_MAGIC, h_size = of_nat t, h_free = g, h_prev = a1\<rparr>,
                   a0 \<mapsto> \<lparr>h_magic = KMEM_MAGIC, h_size = of_nat n, h_free = f, h_prev = prv\<rparr>))
           (kernel_heap H) off prv ((n, f) # (s - n - HDR, True) # ys)"
    using ch ys ne ne2 sum
    by (simp add: m1_def chain_Cons_at a0 a1 a2 del: chain.simps(2))
qed


lemma hsize_rest:
  assumes "n + HDR < s" and "s < 2 ^ 31"
  shows "ucast ((of_nat s :: u64) - of_nat n - 16) = (of_nat (s - n - HDR) :: 31 word)"
proof -
  have "(of_nat s :: u64) - of_nat n - 16 = of_nat (s - n - HDR)"
    using assms by (simp add: of_nat_diff)
  moreover have "ucast (of_nat (s - n - HDR) :: u64) = (of_nat (s - n - HDR) :: 31 word)"
    using assms by (intro hsize_trunc) simp
  ultimately show ?thesis by (simp only:)
qed

lemma kmalloc_split_rep:
  assumes rep: "heap_rep H (xs @ (s, f) # ys)" and n: "0 < n" "n + HDR < s"
  obtains H' where "kmalloc_split (of_nat n) (chunk_at H (chunks_len xs)) H = Inr H'"
    and "heap_rep H' (xs @ (n, f) # (s - n - HDR, True) # ys)"
    and "kernel_heap H' = kernel_heap H" and "kernel_hlim H' = kernel_hlim H" and "same_hdrs H H'"
proof -
  note b = heap_rep_bounds [OF rep]
  let ?off = "chunks_len xs" and ?prv = "last_hdr (kernel_heap H) 0 0 xs"
  let ?a0 = "chunk_at H ?off" and ?a1 = "chunk_at H (?off + n + HDR)"
    and ?a2 = "chunk_at H (?off + s + HDR)"
  let ?h0 = "\<lambda>k. \<lparr>h_magic = KMEM_MAGIC, h_size = of_nat k, h_free = f, h_prev = ?prv\<rparr>"
  let ?H1 = "hwrite ?a1 \<lparr>h_magic = KMEM_MAGIC, h_size = of_nat (s - n - HDR),
                        h_free = True, h_prev = ?a0\<rparr> H"
  have small: "?off + s + HDR + chunks_len ys < 2 ^ 64"
    using chunks_len_small [OF rep] by simp
  have ch: "chain (hdrs H) (kernel_heap H) 0 0 xs"
    "chain (hdrs H) (kernel_heap H) ?off ?prv ((s, f) # ys)"
    using rep by (simp_all add: heap_rep_def)
  have ne: "?a0 \<noteq> ?a1" "?a0 \<noteq> ?a2" "?a2 \<noteq> ?a1"
    using n small by (subst chunk_at_inj; simp)+
  have n31: "n < 2 ^ 31" using n b by simp
  have lt: "chunk_at H (?off + s) < heap_lim H \<longleftrightarrow> ys \<noteq> []"
    using at_less_lim [OF heap_rep_frame [OF rep], of "?off + s"] heap_rep_next(1) [OF rep] b
    by (simp add: chunk_at_def ac_simps)
  note eval = kmalloc_split_def Let_def heap_rep_hdr [OF rep] hsize_u64 [OF b(2)]
    hsize_rest [OF n(2) b(2)] hsize_trunc [OF n31] chunk_at_add ne lt
  have rep': "heap_rep H' (xs @ (n, f) # (s - n - HDR, True) # ys)"
    if "kernel_heap H' = kernel_heap H" "kernel_hlim H' = kernel_hlim H"
      and "chain (hdrs H') (kernel_heap H) 0 0 xs"
      and "chain (hdrs H') (kernel_heap H) ?off ?prv ((n, f) # (s - n - HDR, True) # ys)" for H'
    using that rep b n by (simp add: heap_rep_def heap_frame_def)
  show thesis
  proof (cases ys)
    case Nil
    let ?H' = "hwrite ?a0 (?h0 n) ?H1"
    have "kmalloc_split (of_nat n) ?a0 H = Inr ?H'"
      using Nil by (simp add: eval del: of_nat_diff)
    moreover have "heap_rep ?H' (xs @ (n, f) # (s - n - HDR, True) # ys)"
      using chain_split(1) [OF ch(2) n(2) small refl refl refl Nil] ch small n
      by (intro rep') (simp_all add: chain_upd_at)
    moreover have "same_hdrs H ?H'"
      using b n heap_rep_frame [OF rep] by (intro same_hdrs_hwrite) simp_all
    ultimately show thesis by (intro that [of ?H']) simp_all
  next
    case (Cons y zs)
    obtain t g where y: "y = (t, g)" by (cases y)
    let ?H' = "hwrite ?a0 (?h0 n) (hwrite ?a2 \<lparr>h_magic = KMEM_MAGIC, h_size = of_nat t,
                 h_free = g, h_prev = ?a1\<rparr> ?H1)"
    note c = chain_split(2) [OF ch(2) n(2) small refl refl refl Cons [unfolded y]]
    have rd: "hread H ?a2 = Inr \<lparr>h_magic = KMEM_MAGIC, h_size = of_nat t, h_free = g, h_prev = ?a0\<rparr>"
      using c ne by (simp add: hread_def)
    have "kmalloc_split (of_nat n) ?a0 H = Inr ?H'"
      using Cons rd by (simp add: eval del: of_nat_diff)
    moreover have "heap_rep ?H' (xs @ (n, f) # (s - n - HDR, True) # ys)"
      using c ch small n Cons by (intro rep') (simp_all add: chain_upd_at)
    moreover have "same_hdrs H ?H'"
      using Cons heap_rep_next(2) [OF rep] b n heap_rep_frame [OF rep]
      by (intro same_hdrs_hwrite) simp_all
    ultimately show thesis by (intro that [of ?H']) simp_all
  qed
qed


text \<open>Every outcome of \<^verbatim>\<open>kmalloc\<close> on a represented heap.\<close>

lemma kmalloc_found:
  assumes rep: "heap_rep H bs" and sz: "0 < sz" "sz < kernel_hlim H"
    and ff: "first_fit (unat sz) bs = Some (off, bs')"
  obtains H' where "kmalloc sz H = Inr (chunk_at H (off + HDR), H')" and "heap_rep H' bs'"
    and "kernel_heap H' = kernel_heap H" and "kernel_hlim H' = kernel_hlim H" and "same_hdrs H H'"
proof -
  obtain xs s ys where bs: "bs = xs @ (s, True) # ys" and ns: "unat sz \<le> s"
    and off: "off = chunks_len xs" and bs': "bs' = xs @ split_chunk (unat sz) s @ ys"
    using ff by (rule first_fit_Some)
  note rep' = rep [unfolded bs]
  note b = heap_rep_bounds [OF rep']
  have fr: "heap_frame H" using rep by (rule heap_rep_frame)
  have n0: "0 < unat sz" using sz by (simp add: word_less_nat_alt)
  have fnd: "kmalloc_find H sz (kernel_heap H) = Some (Inr (chunk_at H off))"
    using kmalloc_find_chain [OF fr, of 0 0 bs sz] rep ff by (simp add: heap_rep_def chunk_at_def)
  have lt: "\<not> heap_lim H \<le> chunk_at H off"
    using at_less_lim [OF fr, of off] b off by (simp add: chunk_at_def not_le)
  have big: "sz + 16 < of_nat s \<longleftrightarrow> unat sz + HDR < s"
  proof -
    have "unat (sz + 16) = unat sz + 16"
      using unat_add_of_nat [of sz 16] ns b by simp
    then show ?thesis using b by (simp add: word_less_nat_alt unat_of_nat_31)
  qed
  note eval = kmalloc_def sz [THEN less_imp_neq, THEN not_sym] sz(2) [unfolded not_le [symmetric]]
    fnd [unfolded off] lt [unfolded off] off heap_rep_hdr [OF rep'] hsize_u64 [OF b(2)] big chunk_at_add(2)
  show thesis
  proof (cases "unat sz + HDR < s")
    case True
    obtain H1 where H1: "kmalloc_split (of_nat (unat sz)) (chunk_at H (chunks_len xs)) H = Inr H1"
      and rep1: "heap_rep H1 (xs @ (unat sz, True) # (s - unat sz - HDR, True) # ys)"
      and k: "kernel_heap H1 = kernel_heap H" "kernel_hlim H1 = kernel_hlim H" "same_hdrs H H1"
      using kmalloc_split_rep [OF rep' n0 True] .
    have at1: "chunk_at H1 off = chunk_at H off"
      using k by (simp add: chunk_at_def)
    have bs1: "bs' = xs @ (unat sz, False) # (s - unat sz - HDR, True) # ys"
      using True by (simp add: bs' split_chunk_def)
    note h1 = heap_rep_hdr [OF rep1, folded off, unfolded at1]
    note rep2 = heap_rep_set_free [OF rep1, of False, folded bs1 off, unfolded at1]
    show thesis
      by (rule that [OF _ rep2])
        (use True H1 h1 k b fr in \<open>simp_all add: eval same_hdrs_hwrite\<close>)
  next
    case False
    then have bs1: "bs' = xs @ (s, False) # ys"
      by (simp add: bs' split_chunk_def)
    show thesis
      by (rule that [OF _ heap_rep_set_free [OF rep', of False, folded bs1]])
        (use False b fr in \<open>simp_all add: eval same_hdrs_hwrite\<close>)
  qed
qed

lemma kmalloc_not_found:
  assumes rep: "heap_rep H bs" and sz: "0 < sz" "sz < kernel_hlim H"
    and ff: "first_fit (unat sz) bs = None"
  shows "unat (kernel_heap H) + unat (kernel_hlim H) + HDR \<noteq> 2 ^ 64 \<Longrightarrow> kmalloc sz H = Inr (0, H)"
    and "unat (kernel_heap H) + unat (kernel_hlim H) + HDR = 2 ^ 64 \<Longrightarrow> hdrs H 0 = None \<Longrightarrow>
         kmalloc sz H = Inl (BadAddr 0)"
proof -
  have fr: "heap_frame H" using rep by (rule heap_rep_frame)
  have fnd: "kmalloc_find H sz (kernel_heap H)
      = kmalloc_find H sz (chunk_at H (unat (kernel_hlim H) + HDR))"
    using kmalloc_find_chain [OF fr, of 0 0 bs sz] rep ff by (simp add: heap_rep_def chunk_at_def)
  show "kmalloc sz H = Inr (0, H)"
    if "unat (kernel_heap H) + unat (kernel_hlim H) + HDR \<noteq> 2 ^ 64"
  proof -
    have "kmalloc_find H sz (kernel_heap H) = Some (Inr (heap_lim H + 16))"
      using that heap_end_not_less [OF fr that] kmalloc_find.simps [of H sz "heap_lim H + 16"]
      by (simp add: fnd chunk_at_end [OF fr])
    then show ?thesis
      using heap_end_not_less [OF fr that] by (simp add: kmalloc_def not_less)
  qed
  show "kmalloc sz H = Inl (BadAddr 0)"
    if w: "unat (kernel_heap H) + unat (kernel_hlim H) + HDR = 2 ^ 64" and "hdrs H 0 = None"
  proof -
    have "0 < heap_lim H"
      using unat_heap_lim [OF fr] fr by (simp add: word_less_nat_alt heap_frame_def unat_gt_0)
    then have "kmalloc_find H sz (kernel_heap H) = Some (Inl (BadAddr 0))"
      using that kmalloc_find.simps [of H sz 0] by (simp add: fnd chunk_at_end [OF fr] hread_def)
    then show ?thesis
      using sz by (simp add: kmalloc_def not_le)
  qed
qed


section \<open>\<open>kfree\<close> joins neighbours\<close>

text \<open>
  Between the steps of \<^verbatim>\<open>kfree\<close> the chunk being freed is in place but the chunk that
  follows still carries an old \<^verbatim>\<open>prev\<close> link, \<open>q\<close>.
\<close>

definition gap_rep :: "heap \<Rightarrow> chunk list \<Rightarrow> nat \<Rightarrow> u64 \<Rightarrow> chunk list \<Rightarrow> bool" where
  "gap_rep H xs s q ys \<longleftrightarrow>
     heap_frame H
     \<and> chain (hdrs H) (kernel_heap H) 0 0 xs
     \<and> hdrs H (chunk_at H (chunks_len xs))
         = Some \<lparr>h_magic = KMEM_MAGIC, h_size = of_nat s, h_free = True,
                 h_prev = last_hdr (kernel_heap H) 0 0 xs\<rparr>
     \<and> chain (hdrs H) (kernel_heap H) (chunks_len xs + s + HDR) q ys
     \<and> 0 < s \<and> (\<forall>(s, f) \<in> set xs \<union> set ys. 0 < s)
     \<and> chunks_len xs + s + chunks_len ys = unat (kernel_hlim H)"

lemma heap_rep_gap:
  "heap_rep H (xs @ (s, True) # ys) \<Longrightarrow> gap_rep H xs s (chunk_at H (chunks_len xs)) ys"
  by (auto simp: heap_rep_def gap_rep_def chunk_at_def)

lemma gap_rep_bounds:
  assumes "gap_rep H xs s q ys"
  shows "s < 2 ^ 31" and "chunks_len xs + s + HDR + chunks_len ys < 2 ^ 64"
    and "chunks_len xs < unat (kernel_hlim H)" and "heap_frame H"
  using assms by (auto simp: gap_rep_def heap_frame_def)

text \<open>The test for a following chunk that \<^verbatim>\<open>kfree\<close> makes twice.\<close>

lemma gap_rep_next:
  fixes H q
  assumes "gap_rep H xs s q ys"
  defines "nxt \<equiv> chunk_at H (chunks_len xs + s + HDR)"
  shows "nxt \<noteq> 0 \<and> nxt < heap_lim H \<longleftrightarrow> ys \<noteq> []"
proof (cases ys)
  case Nil
  then have "nxt = chunk_at H (unat (kernel_hlim H) + HDR)"
    using assms by (simp add: gap_rep_def)
  then show ?thesis
    using Nil chunk_at_end heap_end_not_less gap_rep_bounds(4) [OF assms(1)] by (auto split: if_splits)
next
  case (Cons y zs)
  then have lt: "chunks_len xs + s + HDR < unat (kernel_hlim H)"
    using assms by (cases y) (auto simp: gap_rep_def)
  then show ?thesis
    using Cons chunk_at_less_lim [OF gap_rep_bounds(4) [OF assms(1)], of "chunks_len xs + s + HDR"]
      chunk_at_not_zero [OF gap_rep_bounds(4) [OF assms(1)], of "chunks_len xs + s + HDR"]
    by (simp add: nxt_def)
qed

lemma gap_rep_hdr:
  assumes "gap_rep H xs s q ys"
  shows "hread H (chunk_at H (chunks_len xs))
     = Inr \<lparr>h_magic = KMEM_MAGIC, h_size = of_nat s, h_free = True,
            h_prev = last_hdr (kernel_heap H) 0 0 xs\<rparr>"
  using assms by (simp add: gap_rep_def hread_def)

lemma gap_rep_next_hdr:
  assumes "gap_rep H xs s q ((t, g) # zs)"
  shows "hread H (chunk_at H (chunks_len xs + s + HDR))
     = Inr \<lparr>h_magic = KMEM_MAGIC, h_size = of_nat t, h_free = g, h_prev = q\<rparr>"
  using assms by (simp add: gap_rep_def hread_def chain_Cons_at del: chain.simps(2))

lemma gap_rep_prev_hdr:
  assumes "gap_rep H (ws @ [(t, g)]) s q ys"
  shows "hread H (chunk_at H (chunks_len ws))
     = Inr \<lparr>h_magic = KMEM_MAGIC, h_size = of_nat t, h_free = g,
            h_prev = last_hdr (kernel_heap H) 0 0 ws\<rparr>"
  using assms by (simp add: gap_rep_def hread_def chunk_at_def)

lemma kfree_fix_gap:
  assumes "gap_rep H xs s q ys"
  obtains H' where
    "kfree_fix (chunk_at H (chunks_len xs)) (chunk_at H (chunks_len xs + s + HDR)) H = Inr H'"
    and "heap_rep H' (xs @ (s, True) # ys)"
    and "kernel_heap H' = kernel_heap H" and "kernel_hlim H' = kernel_hlim H" and "same_hdrs H H'"
proof (cases ys)
  case Nil
  show thesis
  proof (rule that [of H])
    show "heap_rep H (xs @ (s, True) # ys)"
      using assms Nil by (auto simp: gap_rep_def heap_rep_def chain_Cons_at simp del: chain.simps(2))
  qed (use Nil gap_rep_next [OF assms] in \<open>auto simp: kfree_fix_def\<close>)
next
  case (Cons y zs)
  obtain t g where y: "y = (t, g)" by (cases y)
  let ?off = "chunks_len xs"
  let ?nxt = "chunk_at H (?off + s + HDR)"
  let ?H' = "hwrite ?nxt \<lparr>h_magic = KMEM_MAGIC, h_size = of_nat t, h_free = g,
               h_prev = chunk_at H ?off\<rparr> H"
  have ne: "chunk_at H ?off \<noteq> ?nxt"
    using gap_rep_bounds [OF assms] by (subst chunk_at_inj) auto
  show thesis
  proof (rule that [of ?H'])
    show "kfree_fix (chunk_at H ?off) ?nxt H = Inr ?H'"
      using Cons y gap_rep_next [OF assms] gap_rep_next_hdr [OF assms [unfolded Cons y]]
      by (simp add: kfree_fix_def)
    have "chain ((hdrs H)(?nxt \<mapsto> v)) (kernel_heap H) (?off + s + HDR + t + HDR) ?nxt zs" for v
      using assms gap_rep_bounds [OF assms] Cons y
      by (simp add: gap_rep_def chain_at_simps del: chain.simps(2))
    then show "heap_rep ?H' (xs @ (s, True) # ys)"
      using assms gap_rep_bounds [OF assms] Cons y ne
      by (auto simp: gap_rep_def heap_rep_def chain_at_simps simp del: chain.simps(2))
    show "same_hdrs H ?H'"
      using assms Cons y by (intro same_hdrs_hwrite) (auto simp: gap_rep_def)
  qed simp_all
qed


lemma hsize_sum:
  assumes "t + HDR + s < 2 ^ 31"
  shows "ucast ((of_nat t :: u64) + (of_nat s + 16)) = (of_nat (t + HDR + s) :: 31 word)"
proof -
  have "(of_nat t :: u64) + (of_nat s + 16) = of_nat (t + HDR + s)" by simp
  then show ?thesis using hsize_trunc [OF assms] by (simp only:)
qed

text \<open>The two joins; each either applies or leaves the heap as it is.\<close>

lemma kfree_prev_keep:
  assumes "gap_rep H xs s q ys" and "xs = [] \<or> (\<exists>ws t. xs = ws @ [(t, False)])"
  shows "kfree_prev (chunk_at H (chunks_len xs)) H = Inr (chunk_at H (chunks_len xs), H)"
proof (cases "xs = []")
  case True
  then show ?thesis
    using gap_rep_hdr [OF assms(1)] by (simp add: kfree_prev_def)
next
  case False
  then obtain ws t where xs: "xs = ws @ [(t, False)]"
    using assms(2) by auto
  show ?thesis
    using gap_rep_hdr [OF assms(1)] gap_rep_prev_hdr [OF assms(1) [unfolded xs]]
    by (simp add: kfree_prev_def Let_def xs chunk_at_def del: of_nat_add)
qed

lemma kfree_prev_join:
  assumes gap: "gap_rep H (ws @ [(t, True)]) s q ys"
  obtains H' where
    "kfree_prev (chunk_at H (chunks_len ws + t + HDR)) H = Inr (chunk_at H (chunks_len ws), H')"
    and "gap_rep H' ws (t + HDR + s) q ys"
    and "kernel_heap H' = kernel_heap H" and "kernel_hlim H' = kernel_hlim H" and "same_hdrs H H'"
proof -
  note b = gap_rep_bounds [OF gap]
  let ?p = "chunk_at H (chunks_len ws)" and ?a = "chunk_at H (chunks_len ws + t + HDR)"
  let ?pp = "last_hdr (kernel_heap H) 0 0 ws"
  let ?H' = "hwrite ?a \<lparr>h_magic = 0, h_size = 0, h_free = True, h_prev = 0\<rparr>
      (hwrite ?p \<lparr>h_magic = KMEM_MAGIC, h_size = of_nat (t + HDR + s), h_free = True, h_prev = ?pp\<rparr> H)"
  have lim: "t + HDR + s < 2 ^ 31" and t31: "t < 2 ^ 31"
    using gap by (auto simp: gap_rep_def heap_frame_def)
  have ne: "?p \<noteq> ?a" "?a \<noteq> ?p"
    using b by (subst chunk_at_inj; simp)+
  have p0: "?p \<noteq> 0"
    using b gap by (intro chunk_at_not_zero) auto
  have hp: "hread H ?p = Inr \<lparr>h_magic = KMEM_MAGIC, h_size = of_nat t, h_free = True, h_prev = ?pp\<rparr>"
    by (rule gap_rep_prev_hdr [OF gap])
  have ha: "hread H ?a = Inr \<lparr>h_magic = KMEM_MAGIC, h_size = of_nat s, h_free = True, h_prev = ?p\<rparr>"
    using gap_rep_hdr [OF gap] by (simp add: chunk_at_def ac_simps)
  show thesis
  proof (rule that [of ?H'])
    show "kfree_prev ?a H = Inr (?p, ?H')"
      using ne p0 by (simp add: kfree_prev_def Let_def ha hp hsize_u64 [OF t31] hsize_u64 [OF b(1)]
          hsize_sum [OF lim] del: of_nat_add)
    have "chain (hdrs ?H') (kernel_heap H) 0 0 ws"
      using gap b by (simp add: gap_rep_def chain_upd_at)
    moreover have "chain (hdrs ?H') (kernel_heap H) (chunks_len ws + (t + HDR + s) + HDR) q ys"
      using gap b by (simp add: gap_rep_def chain_upd_at ac_simps)
    ultimately show "gap_rep ?H' ws (t + HDR + s) q ys"
      using gap ne by (auto simp: gap_rep_def simp del: of_nat_add)
    show "same_hdrs H ?H'"
      using b by (intro same_hdrs_hwrite) simp_all
  qed simp_all
qed

lemma kfree_next_keep:
  assumes "gap_rep H xs s q ys" and "ys = [] \<or> (\<exists>t zs. ys = (t, False) # zs)"
  shows "kfree_next (chunk_at H (chunks_len xs)) H = Inr (chunk_at H (chunks_len xs + s + HDR), H)"
proof (cases "ys = []")
  case True
  then show ?thesis
    using gap_rep_next [OF assms(1)]
    by (auto simp: kfree_next_def Let_def gap_rep_hdr [OF assms(1)] chunk_at_add
        hsize_u64 [OF gap_rep_bounds(1) [OF assms(1)]])
next
  case False
  then obtain t zs where "ys = (t, False) # zs"
    using assms(2) by auto
  then show ?thesis
    using gap_rep_next [OF assms(1)] gap_rep_next_hdr [of H xs s q t False zs] assms(1)
    by (simp add: kfree_next_def Let_def gap_rep_hdr [OF assms(1)] chunk_at_add
        hsize_u64 [OF gap_rep_bounds(1) [OF assms(1)]])
qed

lemma kfree_next_join:
  assumes gap: "gap_rep H xs s q ((t, True) # zs)"
  obtains H' where
    "kfree_next (chunk_at H (chunks_len xs)) H
       = Inr (chunk_at H (chunks_len xs + (s + HDR + t) + HDR), H')"
    and "gap_rep H' xs (s + HDR + t) (chunk_at H (chunks_len xs + s + HDR)) zs"
    and "kernel_heap H' = kernel_heap H" and "kernel_hlim H' = kernel_hlim H" and "same_hdrs H H'"
proof -
  note b = gap_rep_bounds [OF gap]
  let ?p = "chunk_at H (chunks_len xs)" and ?a = "chunk_at H (chunks_len xs + s + HDR)"
  let ?pp = "last_hdr (kernel_heap H) 0 0 xs"
  let ?H' = "hwrite ?a \<lparr>h_magic = 0, h_size = 0, h_free = True, h_prev = 0\<rparr>
      (hwrite ?p \<lparr>h_magic = KMEM_MAGIC, h_size = of_nat (s + HDR + t), h_free = True, h_prev = ?pp\<rparr> H)"
  have lim: "s + HDR + t < 2 ^ 31" and t31: "t < 2 ^ 31"
    using gap by (auto simp: gap_rep_def heap_frame_def)
  have ne: "?p \<noteq> ?a" "?a \<noteq> ?p"
    using b by (subst chunk_at_inj; simp)+
  show thesis
  proof (rule that [of ?H'])
    show "kfree_next ?p H = Inr (chunk_at H (chunks_len xs + (s + HDR + t) + HDR), ?H')"
      using ne gap_rep_next [OF gap] gap_rep_next_hdr [OF gap] gap_rep_hdr [OF gap]
      by (simp add: kfree_next_def Let_def hsize_u64 [OF t31] hsize_u64 [OF b(1)] hsize_u64 [OF lim]
          hsize_sum [OF lim] chunk_at_add del: of_nat_add)
    have "chain (hdrs ?H') (kernel_heap H) 0 0 xs"
      using gap b by (simp add: gap_rep_def chain_upd_at)
    moreover have "chain (hdrs ?H') (kernel_heap H) (chunks_len xs + (s + HDR + t) + HDR) ?a zs"
      using gap b by (simp add: gap_rep_def chain_at_simps ac_simps del: chain.simps(2))
    ultimately show "gap_rep ?H' xs (s + HDR + t) ?a zs"
      using gap ne by (auto simp: gap_rep_def simp del: of_nat_add)
    show "same_hdrs H ?H'"
      using gap by (intro same_hdrs_hwrite) (simp_all add: gap_rep_def)
  qed simp_all
qed


lemma chunks_hd_cases:
  fixes ys :: "chunk list"
  obtains "ys = []" | t zs where "ys = (t, True) # zs" | t zs where "ys = (t, False) # zs"
proof (cases ys)
  case (Cons y zs)
  then show thesis using that by (cases y; cases "snd y") auto
qed (use that in auto)

lemma chunks_last_cases:
  fixes xs :: "chunk list"
  obtains "xs = []" | t ws where "xs = ws @ [(t, True)]" | t ws where "xs = ws @ [(t, False)]"
  by (rule chunks_hd_cases [of "rev xs"]) auto

lemma kfree_prev_gap:
  assumes gap: "gap_rep H xs s q ys"
  obtains ws u H' where
    "kfree_prev (chunk_at H (chunks_len xs)) H = Inr (chunk_at H' (chunks_len ws), H')"
    and "gap_rep H' ws u q ys" and "release xs s ys = ws @ absorb_next u ys"
    and "kernel_heap H' = kernel_heap H" and "kernel_hlim H' = kernel_hlim H" and "same_hdrs H H'"
proof (cases "\<exists>ws t. xs = ws @ [(t, True)]")
  case True
  then obtain ws t where xs: "xs = ws @ [(t, True)]" by blast
  from gap [unfolded xs] obtain H' where
    "kfree_prev (chunk_at H (chunks_len ws + t + HDR)) H = Inr (chunk_at H (chunks_len ws), H')"
    "gap_rep H' ws (t + HDR + s) q ys"
    "kernel_heap H' = kernel_heap H" "kernel_hlim H' = kernel_hlim H" "same_hdrs H H'"
    by (rule kfree_prev_join)
  then show thesis
    by (intro that [of H' ws "t + HDR + s"]) (simp_all add: xs release_def chunk_at_def ac_simps)
next
  case False
  then have "xs = [] \<or> (\<exists>ws t. xs = ws @ [(t, False)])"
    by (cases rule: chunks_last_cases [of xs]) auto
  then show thesis
    using kfree_prev_keep [OF gap] gap
    by (intro that [of H xs s]) (auto simp: release_def)
qed

lemma kfree_next_gap:
  assumes gap: "gap_rep H xs s q ys"
  obtains u r zs H' where
    "kfree_next (chunk_at H (chunks_len xs)) H = Inr (chunk_at H' (chunks_len xs + u + HDR), H')"
    and "gap_rep H' xs u r zs" and "absorb_next s ys = (u, True) # zs"
    and "kernel_heap H' = kernel_heap H" and "kernel_hlim H' = kernel_hlim H" and "same_hdrs H H'"
proof (cases "\<exists>t zs. ys = (t, True) # zs")
  case True
  then obtain t zs where ys: "ys = (t, True) # zs" by blast
  from gap [unfolded ys] obtain H' where
    "kfree_next (chunk_at H (chunks_len xs)) H
       = Inr (chunk_at H (chunks_len xs + (s + HDR + t) + HDR), H')"
    "gap_rep H' xs (s + HDR + t) (chunk_at H (chunks_len xs + s + HDR)) zs"
    "kernel_heap H' = kernel_heap H" "kernel_hlim H' = kernel_hlim H" "same_hdrs H H'"
    by (rule kfree_next_join)
  then show thesis
    by (intro that [of H' "s + HDR + t"]) (simp_all add: ys absorb_next_def chunk_at_def)
next
  case False
  then have "ys = [] \<or> (\<exists>t zs. ys = (t, False) # zs)"
    by (cases rule: chunks_hd_cases [of ys]) auto
  then show thesis
    using kfree_next_keep [OF gap] gap
    by (intro that [of H s q ys]) (auto simp: absorb_next_def)
qed

lemma kfree_rep:
  assumes rep: "heap_rep H (xs @ (s, f) # ys)"
  obtains H' where "kfree (chunk_at H (chunks_len xs + HDR)) H = Inr H'"
    and "heap_rep H' (release xs s ys)"
    and "kernel_heap H' = kernel_heap H" and "kernel_hlim H' = kernel_hlim H" and "same_hdrs H H'"
proof -
  let ?a = "chunk_at H (chunks_len xs)"
  let ?H0 = "hwrite ?a \<lparr>h_magic = KMEM_MAGIC, h_size = of_nat s, h_free = True,
               h_prev = last_hdr (kernel_heap H) 0 0 xs\<rparr> H"
  have p: "chunk_at H (chunks_len xs + HDR) - 16 = ?a"
    by (simp add: chunk_at_def)
  have p0: "chunk_at H (chunks_len xs + HDR) \<noteq> 0"
    using heap_rep_frame [OF rep] heap_rep_bounds [OF rep] by (intro chunk_at_not_zero) auto
  have "gap_rep ?H0 xs s ?a ys"
    using heap_rep_gap [OF heap_rep_set_free [OF rep, of True]] by simp
  then obtain ws u H1 where
    H1: "kfree_prev (chunk_at ?H0 (chunks_len xs)) ?H0 = Inr (chunk_at H1 (chunks_len ws), H1)"
      "gap_rep H1 ws u ?a ys" "release xs s ys = ws @ absorb_next u ys"
      "kernel_heap H1 = kernel_heap ?H0" "kernel_hlim H1 = kernel_hlim ?H0" "same_hdrs ?H0 H1"
    by (rule kfree_prev_gap)
  from H1(2) obtain v r zs H2 where
    H2: "kfree_next (chunk_at H1 (chunks_len ws)) H1 = Inr (chunk_at H2 (chunks_len ws + v + HDR), H2)"
      "gap_rep H2 ws v r zs" "absorb_next u ys = (v, True) # zs"
      "kernel_heap H2 = kernel_heap H1" "kernel_hlim H2 = kernel_hlim H1" "same_hdrs H1 H2"
    by (rule kfree_next_gap)
  from H2(2) obtain H3 where
    H3: "kfree_fix (chunk_at H2 (chunks_len ws)) (chunk_at H2 (chunks_len ws + v + HDR)) H2 = Inr H3"
      "heap_rep H3 (ws @ (v, True) # zs)"
      "kernel_heap H3 = kernel_heap H2" "kernel_hlim H3 = kernel_hlim H2" "same_hdrs H2 H3"
    by (rule kfree_fix_gap)
  have at: "chunk_at H1 (chunks_len ws) = chunk_at H2 (chunks_len ws)"
    using H2(4) by (simp add: chunk_at_def)
  have "same_hdrs H ?H0"
    using heap_rep_frame [OF rep] heap_rep_bounds [OF rep] by (intro same_hdrs_hwrite) auto
  then have "same_hdrs H H3"
    using H1 H2 H3 by (auto simp: same_hdrs_def heap_lim_def)
  then show thesis
    using H1 H2 H3 at p p0
    by (intro that [of H3]) (simp_all add: kfree_def Let_def heap_rep_hdr [OF rep])
qed


section \<open>Allocated regions\<close>

text \<open>The payloads of the chunks in use: start address and length, as numbers.\<close>

fun regions :: "nat \<Rightarrow> chunk list \<Rightarrow> (nat \<times> nat) list" where
  "regions a [] = []"
| "regions a ((s, f) # bs) = (if f then [] else [(a + HDR, s)]) @ regions (a + s + HDR) bs"

lemma regions_append [simp]:
  "regions a (xs @ ys) = regions a xs @ regions (a + chunks_len xs) ys"
  by (induction xs arbitrary: a rule: chunks_len.induct) (auto simp: ac_simps)

lemma regions_bounds:
  "(q, l) \<in> set (regions a bs) \<Longrightarrow> a + HDR \<le> q \<and> q + l \<le> a + chunks_len bs"
  by (induction bs arbitrary: a rule: chunks_len.induct) (fastforce split: if_splits)+

lemma regions_split:
  assumes "(q, l) \<in> set (regions a bs)"
  obtains xs ys where "bs = xs @ (l, False) # ys" and "q = a + chunks_len xs + HDR"
proof -
  have "\<exists>xs ys. bs = xs @ (l, False) # ys \<and> q = a + chunks_len xs + HDR"
    using assms
  proof (induction bs arbitrary: a rule: chunks_len.induct)
    case (2 s f bs)
    show ?case
    proof (cases "(q, l) \<in> set (regions (a + s + HDR) bs)")
      case True
      with "2.IH" obtain xs ys where "bs = xs @ (l, False) # ys" "q = a + s + HDR + chunks_len xs + HDR"
        by blast
      then show ?thesis by (intro exI [of _ "(s, f) # xs"] exI [of _ ys]) simp
    next
      case False
      with 2 show ?thesis by (intro exI [of _ "[]"] exI [of _ bs]) (auto split: if_splits)
    qed
  qed simp
  then show thesis using that by blast
qed

lemma regions_absorb_next: "regions a (absorb_next s ys) = regions (a + s + HDR) ys"
  by (cases rule: chunks_hd_cases [of ys]) (simp_all add: absorb_next_def ac_simps)

lemma chunks_len_absorb_next [simp]: "chunks_len (absorb_next s ys) = s + HDR + chunks_len ys"
  by (cases rule: chunks_hd_cases [of ys]) (simp_all add: absorb_next_def)

lemma regions_release:
  "regions a (release xs s ys) = regions a xs @ regions (a + chunks_len xs + s + HDR) ys"
  by (cases rule: chunks_last_cases [of xs]) (simp_all add: release_def regions_absorb_next ac_simps)

lemma regions_split_chunk: "n \<le> s \<Longrightarrow> \<exists>k. n \<le> k \<and> k \<le> s \<and> regions a (split_chunk n s @ ys)
     = (a + HDR, k) # regions (a + s + HDR) ys \<and> chunks_len (split_chunk n s) = s + HDR"
  by (auto simp: split_chunk_def ac_simps)

section \<open>The coalescing invariant\<close>

lemma coalesced_append:
  "coalesced (xs @ ys) \<longleftrightarrow>
     coalesced xs \<and> coalesced ys \<and> \<not> (xs \<noteq> [] \<and> ys \<noteq> [] \<and> snd (last xs) \<and> snd (hd ys))"
proof (induction xs)
  case (Cons x xs)
  obtain s f where "x = (s, f)" by (cases x)
  moreover have "xs @ ys = [] \<or> (\<exists>t g zs. xs @ ys = (t, g) # zs)"
    by (cases "xs @ ys") auto
  ultimately show ?case
    using Cons by (cases xs; cases ys) (auto split: if_splits)
qed simp

lemma coalesced_Cons:
  "coalesced ((s, f) # ys) \<longleftrightarrow> coalesced ys \<and> \<not> (f \<and> ys \<noteq> [] \<and> snd (hd ys))"
  using coalesced_append [of "[(s, f)]" ys] by auto

lemma coalesced_first_fit:
  assumes "coalesced bs" and "first_fit n bs = Some (off, bs')"
  shows "coalesced bs'"
proof -
  obtain xs s ys where "bs = xs @ (s, True) # ys" "bs' = xs @ split_chunk n s @ ys"
    using assms(2) by (rule first_fit_Some)
  then show ?thesis
    using assms(1) by (auto simp: split_chunk_def coalesced_append coalesced_Cons)
qed

lemma coalesced_absorb_next: "coalesced ys \<Longrightarrow> coalesced (absorb_next s ys)"
  by (cases rule: chunks_hd_cases [of ys]) (auto simp: absorb_next_def coalesced_Cons)

lemma coalesced_release:
  assumes "coalesced (xs @ (s, f) # ys)"
  shows "coalesced (release xs s ys)"
proof -
  have "coalesced xs" "coalesced ys"
    using assms by (auto simp: coalesced_append coalesced_Cons)
  then show ?thesis
    by (cases rule: chunks_last_cases [of xs])
      (auto simp: release_def coalesced_append coalesced_Cons coalesced_absorb_next)
qed

text \<open>Freeing what first fit has just taken gives the chunk list back.\<close>

lemma release_first_fit:
  assumes "coalesced bs" and ff: "first_fit n bs = Some (off, bs')"
  obtains xs k ys where "bs' = xs @ (k, False) # ys" and "off = chunks_len xs"
    and "release xs k ys = bs"
proof -
  obtain xs s ys where bs: "bs = xs @ (s, True) # ys" and ns: "n \<le> s" "off = chunks_len xs"
    and bs': "bs' = xs @ split_chunk n s @ ys"
    using ff by (rule first_fit_Some)
  have prev: "xs = [] \<or> (\<exists>ws t. xs = ws @ [(t, False)])"
    using assms(1) by (cases rule: chunks_last_cases [of xs]) (auto simp: bs coalesced_append)
  have nxt: "absorb_next s ys = (s, True) # ys"
    using assms(1) by (cases rule: chunks_hd_cases [of ys])
      (auto simp: bs absorb_next_def coalesced_append)
  show thesis
  proof (cases "n + HDR < s")
    case True
    then show thesis
      using prev ns bs bs'
      by (intro that [of xs n "(s - n - HDR, True) # ys"])
        (auto simp: split_chunk_def release_def absorb_next_def)
  next
    case False
    then show thesis
      using prev ns bs bs' nxt
      by (intro that [of xs s ys]) (auto simp: split_chunk_def release_def)
  qed
qed


section \<open>The heap implements the allocator interface\<close>

text \<open>
  Address 0 holds no header: the kernel maps no page there. The chunk list of a heap is
  determined by its headers.
\<close>

definition heap_inv :: "heap \<Rightarrow> bool" where
  "heap_inv H \<longleftrightarrow> hdrs H 0 = None \<and> (\<exists>bs. heap_rep H bs \<and> coalesced bs)"

definition heap_live :: "heap \<Rightarrow> (nat \<times> nat) set" where
  "heap_live H = {b. \<exists>bs. heap_rep H bs \<and> b \<in> set (regions (unat (kernel_heap H)) bs)}"

lemma chain_unique:
  assumes "chain m base off prv bs" and "chain m base off prv bs'"
    and "chunks_len bs = chunks_len bs'" and "chunks_len bs < 2 ^ 31 + HDR"
  shows "bs = bs'"
  using assms
proof (induction bs arbitrary: off prv bs' rule: chunks_len.induct)
  case 1
  then show ?case by (cases bs' rule: chunks_len.cases) auto
next
  case (2 s f bs)
  then obtain t g cs where bs': "bs' = (t, g) # cs"
    by (cases bs' rule: chunks_len.cases) auto
  have "(of_nat s :: 31 word) = of_nat t" "f = g"
    using 2 bs' by auto
  moreover have "s < 2 ^ 31" "t < 2 ^ 31"
    using 2 bs' by auto
  ultimately have "s = t"
    by (simp add: word_unat_eq_iff unat_of_nat)
  then show ?case
    using 2 bs' \<open>f = g\<close> by auto
qed

lemma heap_rep_unique:
  assumes "heap_rep H bs" and "heap_rep H bs'"
  shows "bs = bs'"
  using assms by (intro chain_unique) (auto simp: heap_rep_def heap_frame_def)

lemma heap_live_rep:
  assumes "heap_rep H bs"
  shows "heap_live H = set (regions (unat (kernel_heap H)) bs)"
  using assms heap_rep_unique by (auto simp: heap_live_def)

lemma zero_outside:
  assumes "heap_frame H" and "same_hdrs H H'"
  shows "hdrs H' 0 = hdrs H 0"
proof -
  have "0 < kernel_heap H"
    using assms by (simp add: heap_frame_def word_neq_0_conv)
  then show ?thesis using assms(2) by (simp add: same_hdrs_def)
qed

text \<open>A pointer to a payload, as a number.\<close>

lemma unat_payload:
  assumes "heap_rep H (xs @ (s, f) # ys)"
  shows "unat (chunk_at H (chunks_len xs + HDR)) = unat (kernel_heap H) + chunks_len xs + HDR"
  using unat_at [OF heap_rep_frame [OF assms], of "chunks_len xs + HDR"] heap_rep_bounds [OF assms]
  by (simp add: chunk_at_def)

lemma heap_kmalloc_cases:
  assumes inv: "heap_inv H" and ret: "kmalloc sz H = Inr (p, H')"
  obtains "p = 0" and "H' = H"
  | bs off bs' where "heap_rep H bs" and "coalesced bs" and "first_fit (unat sz) bs = Some (off, bs')"
      and "heap_rep H' bs'" and "p = chunk_at H (off + HDR)"
      and "kernel_heap H' = kernel_heap H" and "kernel_hlim H' = kernel_hlim H" and "same_hdrs H H'"
proof (cases "0 < sz \<and> sz < kernel_hlim H")
  case False
  then have "sz = 0 \<or> kernel_hlim H \<le> sz"
    using word_gt_0 [of sz] by auto
  then show thesis using that(1) ret by (simp add: kmalloc_def)
next
  case True
  obtain bs where bs: "heap_rep H bs" "coalesced bs" and z: "hdrs H 0 = None"
    using inv by (auto simp: heap_inv_def)
  show thesis
  proof (cases "first_fit (unat sz) bs")
    case None
    then have "p = 0 \<and> H' = H"
      using kmalloc_not_found [OF bs(1)] True z ret
      by (cases "unat (kernel_heap H) + unat (kernel_hlim H) + HDR = 2 ^ 64") auto
    then show thesis using that(1) by simp
  next
    case (Some r)
    obtain off bs' where ff: "first_fit (unat sz) bs = Some (off, bs')"
      using Some by (cases r) auto
    obtain H1 where "kmalloc sz H = Inr (chunk_at H (off + HDR), H1)" "heap_rep H1 bs'"
      "kernel_heap H1 = kernel_heap H" "kernel_hlim H1 = kernel_hlim H" "same_hdrs H H1"
      using kmalloc_found [OF bs(1) _ _ ff] True by blast
    then show thesis using that(2) [OF bs ff] ret by simp
  qed
qed

lemma kmalloc_heap_live:
  assumes inv: "heap_inv H" and ret: "kmalloc sz H = Inr (p, H')" and p: "p \<noteq> 0"
  shows "heap_inv H' \<and> (\<exists>k. unat sz \<le> k \<and> heap_live H' = insert (unat p, k) (heap_live H)
        \<and> (\<forall>c \<in> heap_live H. apart (unat p, k) c))"
  using inv ret
proof (cases rule: heap_kmalloc_cases)
  case 1
  then show ?thesis using p by simp
next
  case (2 bs off bs')
  obtain xs s ys where bs: "bs = xs @ (s, True) # ys" and ns: "unat sz \<le> s" and off: "off = chunks_len xs"
    and bs': "bs' = xs @ split_chunk (unat sz) s @ ys"
    using 2(3) by (rule first_fit_Some)
  let ?a = "unat (kernel_heap H)"
  obtain k where k: "unat sz \<le> k" "k \<le> s"
    "regions (?a + chunks_len xs) (split_chunk (unat sz) s @ ys)
       = (?a + chunks_len xs + HDR, k) # regions (?a + chunks_len xs + s + HDR) ys"
    using regions_split_chunk [OF ns] by blast
  have up: "unat p = ?a + chunks_len xs + HDR"
    using unat_payload [of H xs s True ys] 2 bs off by simp
  have lv: "heap_live H = set (regions ?a xs) \<union> set (regions (?a + chunks_len xs + s + HDR) ys)"
    using heap_live_rep [OF 2(1)] by (simp add: bs ac_simps)
  have "heap_live H' = insert (unat p, k) (heap_live H)"
    using heap_live_rep [OF 2(4)] k 2(6) lv up by (auto simp: bs' simp del: regions_append simp add: regions_append [of _ xs])
  moreover have "\<forall>c \<in> heap_live H. apart (unat p, k) c"
    using k(2) up unfolding lv by (auto simp: apart_def dest!: regions_bounds)
  moreover have "heap_inv H'"
    using 2 coalesced_first_fit [OF 2(2,3)] inv zero_outside [OF heap_rep_frame [OF 2(1)] 2(8)]
    by (auto simp: heap_inv_def)
  ultimately show ?thesis using k(1) by blast
qed

lemma kfree_heap_live:
  assumes inv: "heap_inv H" and lv: "(unat p, k) \<in> heap_live H"
  shows "\<exists>H'. kfree p H = Inr H' \<and> heap_inv H' \<and> heap_live H' = heap_live H - {(unat p, k)}"
proof -
  let ?a = "unat (kernel_heap H)"
  obtain bs0 where rep0: "heap_rep H bs0" and co: "coalesced bs0" and z: "hdrs H 0 = None"
    using inv by (auto simp: heap_inv_def)
  obtain xs ys where bs: "bs0 = xs @ (k, False) # ys" and up: "unat p = ?a + chunks_len xs + HDR"
    using lv heap_live_rep [OF rep0] by (auto elim: regions_split)
  note rep = rep0 [unfolded bs]
  have "p = chunk_at H (chunks_len xs + HDR)"
    using up unat_payload [OF rep] by (simp add: word_unat_eq_iff)
  then obtain H' where H': "kfree p H = Inr H'" "heap_rep H' (release xs k ys)"
    "kernel_heap H' = kernel_heap H" "same_hdrs H H'"
    using kfree_rep [OF rep] by metis
  have "heap_inv H'"
    using H' co coalesced_release z zero_outside [OF heap_rep_frame [OF rep] H'(4)]
    by (auto simp: heap_inv_def bs)
  moreover have "heap_live H' = heap_live H - {(unat p, k)}"
  proof -
    have "heap_live H = set (regions ?a xs) \<union> {(unat p, k)} \<union> set (regions (?a + chunks_len xs + k + HDR) ys)"
      using heap_live_rep [OF rep0] up by (auto simp: bs ac_simps)
    moreover have "heap_live H' = set (regions ?a xs) \<union> set (regions (?a + chunks_len xs + k + HDR) ys)"
      using heap_live_rep [OF H'(2)] H'(3) by (simp add: regions_release)
    moreover have "(unat p, k) \<notin> set (regions ?a xs) \<union> set (regions (?a + chunks_len xs + k + HDR) ys)"
      using up heap_rep_bounds(1) [OF rep] by (auto dest!: regions_bounds)
    ultimately show ?thesis by auto
  qed
  ultimately show ?thesis using H'(1) by blast
qed

lemma kmalloc_null_same:
  assumes "heap_inv H" and "kmalloc sz H = Inr (0, H')"
  shows "H' = H"
  using assms
proof (cases rule: heap_kmalloc_cases)
  case (2 bs off bs')
  obtain xs s ys where "bs = xs @ (s, True) # ys" "off = chunks_len xs"
    using 2(3) by (rule first_fit_Some)
  then have "chunk_at H (off + HDR) \<noteq> 0"
    using heap_rep_frame [OF 2(1)] heap_rep_bounds [of H xs s True ys] 2(1)
    by (intro chunk_at_not_zero) auto
  then show ?thesis using 2 by simp
qed

interpretation kheap: allocator kmalloc kfree heap_inv heap_live
proof unfold_locales
  show "kfree 0 h = Inr h" for h
    by (simp add: kfree_def)
qed (fact kmalloc_heap_live kmalloc_null_same kfree_heap_live)+


section \<open>The heap that \<open>mem_init\<close> builds\<close>

lemma heap_setup_rep:
  assumes "unat last_page < 0x3FFFFFF0"
  shows "heap_rep (heap_setup last_page H) [(0x3FFFFFF0 - unat last_page, True)]"
    and "unat (kernel_heap (heap_setup last_page H)) + unat (kernel_hlim (heap_setup last_page H)) + HDR = 2 ^ 64"
    and "hdrs H 0 = None \<Longrightarrow> hdrs (heap_setup last_page H) 0 = None"
proof -
  have "unat last_page < 2 ^ 30" using assms by simp
  note base = or_kernel_base [OF this]
  have lim: "unat (0x40000000 - last_page - 16) = 0x3FFFFFF0 - unat last_page"
  proof -
    have e: "0x40000000 - last_page - 16 = of_nat (0x3FFFFFF0 - unat last_page)"
      using assms by (simp add: of_nat_diff)
    show ?thesis unfolding e using assms by (subst unat_of_nat) simp
  qed
  have sz: "(ucast (0x40000000 - last_page - 16) :: 31 word) = of_nat (0x3FFFFFF0 - unat last_page)"
    unfolding lim [symmetric] by (simp add: word_unat_eq_iff unsigned_ucast_eq unsigned_of_nat)
  have ne: "last_page OR 0xFFFFFFFFC0000000 \<noteq> 0"
    using base(2) by (metis add_is_0 unat_0 zero_neq_numeral)
  show "heap_rep (heap_setup last_page H) [(0x3FFFFFF0 - unat last_page, True)]"
    using assms base(2) lim sz ne
    by (simp add: heap_setup_def heap_rep_def heap_frame_def Let_def del: of_nat_diff)
  show "unat (kernel_heap (heap_setup last_page H)) + unat (kernel_hlim (heap_setup last_page H)) + HDR = 2 ^ 64"
    using assms base(2) lim by (simp add: heap_setup_def Let_def)
  show "hdrs (heap_setup last_page H) 0 = None" if "hdrs H 0 = None"
    using that ne by (simp add: heap_setup_def Let_def)
qed

lemma heap_setup_inv:
  assumes "unat last_page < 0x3FFFFFF0" and "hdrs H 0 = None"
  shows "heap_inv (heap_setup last_page H)" and "heap_live (heap_setup last_page H) = {}"
proof -
  show "heap_inv (heap_setup last_page H)"
    using heap_setup_rep [OF assms(1)] assms(2) by (force simp: heap_inv_def)
  show "heap_live (heap_setup last_page H) = {}"
    using heap_live_rep [OF heap_setup_rep(1) [OF assms(1)]] by simp
qed

text \<open>No operation moves the heap area.\<close>

lemma kmalloc_globals:
  "kmalloc sz H = Inr (p, H') \<Longrightarrow> kernel_heap H' = kernel_heap H \<and> kernel_hlim H' = kernel_hlim H"
  by (auto simp: kmalloc_def kmalloc_split_def Let_def rbind_eq_Inr split: if_splits)

lemma kfree_prev_globals:
  "kfree_prev p H = Inr (q, H') \<Longrightarrow> kernel_heap H' = kernel_heap H \<and> kernel_hlim H' = kernel_hlim H"
  by (auto simp: kfree_prev_def Let_def rbind_eq_Inr split: if_splits)

lemma kfree_next_globals:
  "kfree_next p H = Inr (q, H') \<Longrightarrow> kernel_heap H' = kernel_heap H \<and> kernel_hlim H' = kernel_hlim H"
  by (auto simp: kfree_next_def Let_def rbind_eq_Inr split: if_splits)

lemma kfree_fix_globals:
  "kfree_fix p q H = Inr H' \<Longrightarrow> kernel_heap H' = kernel_heap H \<and> kernel_hlim H' = kernel_hlim H"
  by (auto simp: kfree_fix_def rbind_eq_Inr split: if_splits)

lemma kfree_globals:
  "kfree p H = Inr H' \<Longrightarrow> kernel_heap H' = kernel_heap H \<and> kernel_hlim H' = kernel_hlim H"
  by (auto simp: kfree_def Let_def rbind_eq_Inr split: if_splits
      dest!: kfree_prev_globals kfree_next_globals kfree_fix_globals)

lemma client_run_globals:
  "client_run kmalloc kfree heap_live H H' \<Longrightarrow>
     kernel_heap H' = kernel_heap H \<and> kernel_hlim H' = kernel_hlim H"
  by (induction rule: client_run.induct) (auto dest: kmalloc_globals kfree_globals)

text \<open>A heap to evaluate on: the one of a kernel whose image ends at 2 MB.\<close>

definition boot_heap :: heap where
  "boot_heap = heap_setup 0x200000 \<lparr>kernel_heap = 0, kernel_hlim = 0, hdrs = Map.empty\<rparr>"

lemma boot_heap_rep:
  "heap_rep boot_heap [(0x3FDFFFF0, True)]"
  "kernel_heap boot_heap = 0xFFFFFFFFC0200000" "kernel_hlim boot_heap = 0x3FDFFFF0"
  "hdrs boot_heap 0 = None"
  using heap_setup_rep [of "0x200000" "\<lparr>kernel_heap = 0, kernel_hlim = 0, hdrs = Map.empty\<rparr>"]
  by (simp_all add: boot_heap_def [symmetric]) (simp_all add: boot_heap_def heap_setup_def Let_def)

section \<open>Properties\<close>

text \<open>
  C9. On a heap whose headers describe the chunk list \<open>bs\<close>, \<^verbatim>\<open>kmalloc\<close> is first fit: when a
  free chunk is large enough it returns the payload of the first one, and the headers
  afterwards describe the list in which that chunk is taken and, if the rest can hold a
  header and a byte, split. Nothing outside the heap area is written.
\<close>

theorem kmalloc_refines_first_fit:
  assumes "heap_rep H bs" and "0 < sz" and "sz < kernel_hlim H"
    and "first_fit (unat sz) bs = Some (off, bs')"
  shows "\<exists>H'. kmalloc sz H = Inr (kernel_heap H + of_nat (off + 16), H')
            \<and> heap_rep H' bs' \<and> same_hdrs H H'"
proof -
  obtain H' where "kmalloc sz H = Inr (chunk_at H (off + HDR), H')" "heap_rep H' bs'" "same_hdrs H H'"
    using kmalloc_found [OF assms] by blast
  then show ?thesis by (simp add: chunk_at_def)
qed

theorem kmalloc_refines_first_fit_witness:
  "\<exists>H'. kmalloc 100 boot_heap = Inr (0xFFFFFFFFC0200010, H')
      \<and> heap_rep H' [(100, False), (0x3FDFFF7C, True)] \<and> same_hdrs boot_heap H'"
  using kmalloc_refines_first_fit [OF boot_heap_rep(1), of 100 0 "[(100, False), (0x3FDFFF7C, True)]"]
  by (simp add: boot_heap_rep split_chunk_def)

text \<open>
  C10. A block that \<^verbatim>\<open>kmalloc\<close> returns is at least as long as the request and overlaps no
  block that is still in use; the blocks in use afterwards are the old ones and it.
\<close>

theorem kmalloc_block_fresh:
  assumes "heap_inv H" and "kmalloc sz H = Inr (p, H')" and "p \<noteq> 0"
  shows "heap_inv H' \<and> (\<exists>k. unat sz \<le> k \<and> heap_live H' = insert (unat p, k) (heap_live H)
           \<and> (\<forall>c \<in> heap_live H. apart (unat p, k) c))"
  using assms by (rule kheap.malloc_live)

theorem kmalloc_block_fresh_witness:
  "\<exists>p H'. p \<noteq> 0 \<and> kmalloc 100 boot_heap = Inr (p, H') \<and> heap_inv H'
      \<and> (\<exists>k. 100 \<le> k \<and> heap_live H' = insert (unat p, k) (heap_live boot_heap))"
proof -
  have inv: "heap_inv boot_heap"
    using boot_heap_rep by (force simp: heap_inv_def)
  obtain H' where H': "kmalloc 100 boot_heap = Inr (0xFFFFFFFFC0200010, H')"
    using kmalloc_found [OF boot_heap_rep(1), of 100 0 "[(100, False), (0x3FDFFF7C, True)]"]
    by (auto simp: boot_heap_rep split_chunk_def chunk_at_def)
  from kmalloc_block_fresh [OF inv this] show ?thesis
    using H' by (intro exI [of _ "0xFFFFFFFFC0200010"] exI [of _ H']) auto
qed

text \<open>
  C11. \<^verbatim>\<open>kfree\<close> of a chunk in use never fails on a represented heap: it marks the chunk free,
  joins it with a free predecessor and a free successor, and keeps the headers
  consistent; if no two neighbours were both free before, none are afterwards.
\<close>

theorem kfree_refines_release:
  assumes "heap_rep H (xs @ (s, False) # ys)"
  shows "\<exists>H'. kfree (kernel_heap H + of_nat (chunks_len xs + 16)) H = Inr H'
            \<and> heap_rep H' (release xs s ys) \<and> same_hdrs H H'
            \<and> (coalesced (xs @ (s, False) # ys) \<longrightarrow> coalesced (release xs s ys))"
proof -
  obtain H' where "kfree (chunk_at H (chunks_len xs + HDR)) H = Inr H'"
    "heap_rep H' (release xs s ys)" "same_hdrs H H'"
    using kfree_rep [OF assms] by blast
  then show ?thesis
    using coalesced_release by (auto simp: chunk_at_def)
qed

theorem kfree_refines_release_witness:
  "\<exists>H H'. heap_rep H [(100, False), (0x3FDFFF7C, True)]
      \<and> kfree (kernel_heap H + 16) H = Inr H' \<and> heap_rep H' [(0x3FDFFFF0, True)]"
proof -
  obtain H where H: "heap_rep H [(100, False), (0x3FDFFF7C, True)]"
    using kmalloc_found [OF boot_heap_rep(1), of 100 0 "[(100, False), (0x3FDFFF7C, True)]"]
    by (auto simp: boot_heap_rep split_chunk_def)
  then have "heap_rep H ([] @ (100, False) # [(0x3FDFFF7C, True)])" by simp
  from kfree_refines_release [OF this] H show ?thesis
    by (auto simp: release_def absorb_next_def)
qed

text \<open>
  C12. Round trip: freeing a block right after \<^verbatim>\<open>kmalloc\<close> returned it succeeds and gives
  back the chunk list there was before, whether or not the chunk had been split.
\<close>

theorem kmalloc_kfree_roundtrip:
  assumes "hdrs H 0 = None" and "heap_rep H bs" and "coalesced bs"
    and "kmalloc sz H = Inr (p, H1)" and "p \<noteq> 0"
  shows "\<exists>H2. kfree p H1 = Inr H2 \<and> heap_rep H2 bs"
proof -
  have "heap_inv H" using assms by (auto simp: heap_inv_def)
  then show ?thesis using assms(4)
  proof (cases rule: heap_kmalloc_cases)
    case 1
    then show ?thesis using assms(5) by simp
  next
    case (2 cs off cs')
    then have "cs = bs" using assms(2) heap_rep_unique by blast
    with 2 obtain xs k ys where "cs' = xs @ (k, False) # ys" "off = chunks_len xs" "release xs k ys = bs"
      using release_first_fit [OF assms(3)] by metis
    moreover have "chunk_at H1 (off + HDR) = p"
      using 2 by (simp add: chunk_at_def)
    ultimately show ?thesis
      using kfree_rep [of H1 xs k False ys] 2 by metis
  qed
qed

theorem kmalloc_kfree_roundtrip_witness:
  "\<exists>p H1 H2. kmalloc 100 boot_heap = Inr (p, H1) \<and> p \<noteq> 0
      \<and> kfree p H1 = Inr H2 \<and> heap_rep H2 [(0x3FDFFFF0, True)]"
proof -
  obtain H1 where H1: "kmalloc 100 boot_heap = Inr (0xFFFFFFFFC0200010, H1)"
    using kmalloc_found [OF boot_heap_rep(1), of 100 0 "[(100, False), (0x3FDFFF7C, True)]"]
    by (auto simp: boot_heap_rep split_chunk_def chunk_at_def)
  have "coalesced [(0x3FDFFFF0, True)]" by simp
  from kmalloc_kfree_roundtrip [OF boot_heap_rep(4,1) this H1] show ?thesis
    using H1 by auto
qed

text \<open>
  C13. Whatever sequence of \<^verbatim>\<open>kmalloc\<close> and \<^verbatim>\<open>kfree\<close> calls the kernel makes from the heap that
  \<^verbatim>\<open>mem_init\<close> sets up, as long as it frees only blocks in use, the headers stay
  consistent and the blocks in use stay pairwise disjoint.
\<close>

theorem heap_clients_safe:
  assumes "unat last_page < 0x3FFFFFF0" and "hdrs H0 0 = None"
    and "client_run kmalloc kfree heap_live (heap_setup last_page H0) H"
  shows "heap_inv H \<and> separated (heap_live H)"
proof (rule kheap.client_run_inv [OF assms(3)])
  show "heap_inv (heap_setup last_page H0)" "separated (heap_live (heap_setup last_page H0))"
    using heap_setup_inv [OF assms(1,2)] by (simp_all add: separated_def)
qed

theorem heap_clients_safe_witness:
  "\<exists>H. client_run kmalloc kfree heap_live
        (heap_setup 0x200000 \<lparr>kernel_heap = 0, kernel_hlim = 0, hdrs = Map.empty\<rparr>) H
      \<and> H \<noteq> boot_heap \<and> heap_inv H \<and> separated (heap_live H)"
proof -
  obtain H where H: "kmalloc 100 boot_heap = Inr (0xFFFFFFFFC0200010, H)"
    and rep: "heap_rep H [(100, False), (0x3FDFFF7C, True)]"
    using kmalloc_found [OF boot_heap_rep(1), of 100 0 "[(100, False), (0x3FDFFF7C, True)]"]
    by (auto simp: boot_heap_rep split_chunk_def chunk_at_def)
  have run: "client_run kmalloc kfree heap_live
      (heap_setup 0x200000 \<lparr>kernel_heap = 0, kernel_hlim = 0, hdrs = Map.empty\<rparr>) H"
    using H by (fold boot_heap_def) (rule client_malloc [OF client_start])
  moreover have "H \<noteq> boot_heap"
    using rep heap_rep_unique [OF boot_heap_rep(1)] by fastforce
  ultimately show ?thesis
    using heap_clients_safe [OF _ _ run] by auto
qed

text \<open>
  C25. \<^verbatim>\<open>kmalloc\<close> always comes back on a consistent heap: its search loop ends, and it either
  returns or reads the header at address 0.
\<close>

theorem kmalloc_terminates:
  assumes "heap_inv H"
  shows "(\<exists>p H'. kmalloc sz H = Inr (p, H') \<and> heap_inv H') \<or> kmalloc sz H = Inl (BadAddr 0)"
proof -
  obtain bs where rep: "heap_rep H bs" and z: "hdrs H 0 = None"
    using assms by (auto simp: heap_inv_def)
  have "(\<exists>p H'. kmalloc sz H = Inr (p, H')) \<or> kmalloc sz H = Inl (BadAddr 0)"
  proof (cases "0 < sz \<and> sz < kernel_hlim H")
    case True
    then show ?thesis
      using kmalloc_found [OF rep, of sz] kmalloc_not_found [OF rep, of sz] z
      by (cases "first_fit (unat sz) bs") (auto, metis)
  next
    case False
    then have "sz = 0 \<or> kernel_hlim H \<le> sz"
      using word_gt_0 [of sz] by auto
    then show ?thesis by (simp add: kmalloc_def)
  qed
  then show ?thesis
    using kheap.malloc_inv [OF assms] by blast
qed

theorem kmalloc_terminates_witness:
  "(\<exists>p H'. kmalloc 100 boot_heap = Inr (p, H') \<and> heap_inv H')
   \<or> kmalloc 100 boot_heap = Inl (BadAddr 0)"
  by (rule kmalloc_terminates) (use boot_heap_rep in \<open>force simp: heap_inv_def\<close>)

text \<open>
  The heap that \<^verbatim>\<open>mem_init\<close> builds ends exactly at \<open>2 ^ 64\<close>, so behind its last chunk the
  search of \<^verbatim>\<open>kmalloc\<close> arrives at address 0, which is below the limit: when no free chunk
  fits, the call does not return 0 as its comment says but reads a header at address 0.
\<close>

theorem kmalloc_exhausted_reads_null:
  assumes "unat last_page < 0x3FFFFFF0" and "hdrs H0 0 = None"
    and "client_run kmalloc kfree heap_live (heap_setup last_page H0) H"
    and "heap_rep H bs" and "0 < sz" and "sz < kernel_hlim H" and "first_fit (unat sz) bs = None"
  shows "kmalloc sz H = Inl (BadAddr 0)"
proof -
  have "heap_inv H"
    using kheap.client_run_inv [OF assms(3)] heap_setup_inv [OF assms(1,2)]
    by (simp add: separated_def)
  then have "hdrs H 0 = None" by (simp add: heap_inv_def)
  moreover have "unat (kernel_heap H) + unat (kernel_hlim H) + HDR = 2 ^ 64"
    using client_run_globals [OF assms(3)] heap_setup_rep(2) [OF assms(1)] by simp
  ultimately show ?thesis
    using kmalloc_not_found(2) [OF assms(4-7)] by blast
qed

theorem kmalloc_exhausted_reads_null_witness:
  "\<exists>H. client_run kmalloc kfree heap_live
        (heap_setup 0x200000 \<lparr>kernel_heap = 0, kernel_hlim = 0, hdrs = Map.empty\<rparr>) H
      \<and> kmalloc 1 H = Inl (BadAddr 0)"
proof -
  obtain H where H: "kmalloc 0x3FDFFFEF boot_heap = Inr (0xFFFFFFFFC0200010, H)"
    and rep: "heap_rep H [(0x3FDFFFF0, False)]" and lim: "kernel_hlim H = kernel_hlim boot_heap"
    using kmalloc_found [OF boot_heap_rep(1), of "0x3FDFFFEF" 0 "[(0x3FDFFFF0, False)]"]
    by (auto simp: boot_heap_rep split_chunk_def chunk_at_def)
  have run: "client_run kmalloc kfree heap_live
      (heap_setup 0x200000 \<lparr>kernel_heap = 0, kernel_hlim = 0, hdrs = Map.empty\<rparr>) H"
    using H by (fold boot_heap_def) (rule client_malloc [OF client_start])
  then show ?thesis
    using kmalloc_exhausted_reads_null [OF _ _ run rep, of 1] lim by (auto simp: boot_heap_rep)
qed

end
