(* ===== verification/Page.thy ===== *)
theory Page
  imports Page_Tables Intr Mem
begin

text \<open>
  Paging (\<^verbatim>\<open>mm/page.c\<close>, \<^verbatim>\<open>mm/page.h\<close>, \<^verbatim>\<open>mm/pagefault.h\<close>): the entries of the four levels of tables,
  mounting and unmounting of pages, address spaces. The tables are reached through one
  window at \<^verbatim>\<open>TMP_MOUNT_ADDR\<close>, which entry 0 of the kernel's own table maps; the model
  resolves every access to the window through that entry in physical memory.
\<close>

section \<open>State\<close>

definition TMP_MOUNT_ADDR :: u64 where
  "TMP_MOUNT_ADDR = 0xFFFFFFFFC0000000"

text \<open>
  Physical memory as 8-byte words by address, the two pointers of \<^verbatim>\<open>page.c\<close>, the register
  \<^verbatim>\<open>cr3\<close> of the running processor, the page bitmap, the kernel heap and the interrupt
  state. \<^verbatim>\<open>kernel_pt\<close> is a kernel address, mapped to its low 30 bits.
\<close>

record vm =
  pmem :: "u64 \<Rightarrow> u64"
  PML4 :: u64
  kernel_pt :: u64
  cr3 :: u64
  frames :: phys
  kheap :: heap
  irq :: intr
  this_cpu :: nat

definition kpt_slot :: "vm \<Rightarrow> u64" where
  "kpt_slot s = kernel_pt s AND 0x3FFFFFFF"

definition pwrite :: "u64 \<Rightarrow> u64 \<Rightarrow> vm \<Rightarrow> vm" where
  "pwrite a v s = s\<lparr>pmem := (pmem s)(a := v)\<rparr>"

text \<open>The physical address behind word \<open>i\<close> of the window.\<close>

definition win :: "nat \<Rightarrow> vm \<Rightarrow> u64 res" where
  "win i s =
     (let e = pmem s (kpt_slot s)
      in if bit e EXISTS then Inr (slot (frame_of e) i) else Inl (BadAddr (slot TMP_MOUNT_ADDR i)))"

definition win_read :: "nat \<Rightarrow> vm \<Rightarrow> u64 res" where
  "win_read i s = rbind (win i s) (\<lambda>a. Inr (pmem s a))"

definition win_write :: "nat \<Rightarrow> u64 \<Rightarrow> vm \<Rightarrow> vm res" where
  "win_write i v s = rbind (win i s) (\<lambda>a. Inr (pwrite a v s))"

section \<open>Operations\<close>

definition alloc_frame_vm :: "vm \<Rightarrow> (u64 \<times> vm) res" where
  "alloc_frame_vm s = rbind (alloc_phys_page (frames s)) (\<lambda>(p, fr). Inr (p, s\<lparr>frames := fr\<rparr>))"

definition calc_page_hw :: "u64 \<Rightarrow> pte_desc" where
  "calc_page_hw phys_addr =
     set_flag CACHE_DISABLE True
       (set_flag WRITABLE True (set_flag EXISTS True (set_address (drop_bit 12 phys_addr) 0)))"

definition create_page :: "vm \<Rightarrow> (pte_desc \<times> vm) res" where
  "create_page s =
     rbind (alloc_frame_vm s) (\<lambda>(p, s).
       Inr (set_flag WRITABLE True (set_flag EXISTS True (set_address (drop_bit 12 p) 0)), s))"

definition create_page_user :: "vm \<Rightarrow> (pte_desc \<times> vm) res" where
  "create_page_user s =
     rbind (alloc_frame_vm s) (\<lambda>(p, s).
       Inr (set_flag WRITABLE True (set_flag EXISTS True
              (set_flag R3_ACCESS True (set_address (drop_bit 12 p) 0))), s))"

definition irq_off :: "vm \<Rightarrow> vm res" where
  "irq_off s = rbind (intr_disable (this_cpu s) (irq s)) (\<lambda>q. Inr (s\<lparr>irq := q\<rparr>))"

definition irq_on :: "vm \<Rightarrow> vm res" where
  "irq_on s = rbind (intr_enable (this_cpu s) (irq s)) (\<lambda>q. Inr (s\<lparr>irq := q\<rparr>))"

definition mount_page_t :: "u64 \<Rightarrow> vm \<Rightarrow> vm res" where
  "mount_page_t phys_addr s =
     rbind (irq_off s) (\<lambda>s. irq_on (pwrite (kpt_slot s) (calc_page phys_addr) s))"

definition umount_page_t :: "vm \<Rightarrow> vm" where
  "umount_page_t s = pwrite (kpt_slot s) 0 s"

definition TABLE_MASK :: u64 where
  "TABLE_MASK = 0xFFFFFFFFFFFFF000"

text \<open>
  The step that \<^verbatim>\<open>mount_page_do\<close> makes at each of the three upper levels: the entry \<open>i\<close> of the
  table, created if it is empty.
\<close>

definition next_table :: "pte_desc \<Rightarrow> u64 \<Rightarrow> nat \<Rightarrow> vm \<Rightarrow> (pte_desc \<times> vm) res" where
  "next_table ph table i s =
     rbind (mount_page_t table s) (\<lambda>s.
     rbind (win_read i s) (\<lambda>p.
       if p = 0
       then rbind (create_page s) (\<lambda>(p, s).
              let p = set_flag R3_ACCESS (bit ph R3_ACCESS) p
              in rbind (win_write i p s) (\<lambda>s. Inr (p, umount_page_t s)))
       else Inr (p, umount_page_t s)))"

definition mount_page_do :: "u64 \<Rightarrow> pte_desc \<Rightarrow> vm \<Rightarrow> vm res" where
  "mount_page_do log_addr ph s =
     rbind (next_table ph (PML4 s) (lin_pml4 log_addr) s) (\<lambda>(p, s).
     rbind (next_table ph (p AND TABLE_MASK) (lin_pdp log_addr) s) (\<lambda>(p, s).
     rbind (next_table ph (p AND TABLE_MASK) (lin_pd log_addr) s) (\<lambda>(p, s).
     rbind (mount_page_t (p AND TABLE_MASK) s) (\<lambda>s.
     rbind (win_write (lin_pt log_addr) ph s) (\<lambda>s.
     Inr (umount_page_t s))))))"

definition mount_page :: "u64 \<Rightarrow> u64 \<Rightarrow> vm \<Rightarrow> vm res" where
  "mount_page phys_addr log_addr s = mount_page_do log_addr (calc_page phys_addr) s"

definition mount_page_hw :: "u64 \<Rightarrow> u64 \<Rightarrow> vm \<Rightarrow> vm res" where
  "mount_page_hw phys_addr log_addr s = mount_page_do log_addr (calc_page_hw phys_addr) s"

text \<open>The step that \<^verbatim>\<open>umount_page\<close> makes at each upper level: only a look at the entry.\<close>

definition peek_table :: "u64 \<Rightarrow> nat \<Rightarrow> vm \<Rightarrow> (pte_desc \<times> vm) res" where
  "peek_table table i s =
     rbind (mount_page_t table s) (\<lambda>s. rbind (win_read i s) (\<lambda>p. Inr (p, umount_page_t s)))"

definition umount_page :: "u64 \<Rightarrow> vm \<Rightarrow> (u64 \<times> vm) res" where
  "umount_page log_addr s =
     rbind (peek_table (PML4 s) (lin_pml4 log_addr) s) (\<lambda>(p, s).
     if p = 0 then Inr (0, s) else
     rbind (peek_table (p AND TABLE_MASK) (lin_pdp log_addr) s) (\<lambda>(p, s).
     if p = 0 then Inr (0, s) else
     rbind (peek_table (p AND TABLE_MASK) (lin_pd log_addr) s) (\<lambda>(p, s).
     if p = 0 then Inr (0, s) else
     rbind (mount_page_t (p AND TABLE_MASK) s) (\<lambda>s.
     rbind (win_read (lin_pt log_addr) s) (\<lambda>ret.
     rbind (win_write (lin_pt log_addr) (ret AND 0xFFFFFFFFFFFFFFFE) s) (\<lambda>s.
     Inr (ret, umount_page_t s)))))))"

text \<open>\<^verbatim>\<open>memcpy\<close> of 4096 bytes from and to the window, as its 512 words.\<close>

fun win_get :: "nat list \<Rightarrow> vm \<Rightarrow> u64 list res" where
  "win_get [] s = Inr []"
| "win_get (i # is) s = rbind (win_read i s) (\<lambda>v. rbind (win_get is s) (\<lambda>vs. Inr (v # vs)))"

fun win_put :: "nat \<Rightarrow> u64 list \<Rightarrow> vm \<Rightarrow> vm res" where
  "win_put i [] s = Inr s"
| "win_put i (v # vs) s = rbind (win_write i v s) (win_put (Suc i) vs)"

definition read_page :: "u64 \<Rightarrow> vm \<Rightarrow> (u64 list \<times> vm) res" where
  "read_page phys_addr s =
     rbind (mount_page_t phys_addr s) (\<lambda>s. rbind (win_get [0..<512] s) (\<lambda>buf. Inr (buf, umount_page_t s)))"

definition write_page :: "u64 \<Rightarrow> u64 list \<Rightarrow> vm \<Rightarrow> vm res" where
  "write_page phys_addr buf s =
     rbind (mount_page_t phys_addr s) (\<lambda>s. rbind (win_put 0 buf s) (\<lambda>s. Inr (umount_page_t s)))"

text \<open>
  The loop of \<^verbatim>\<open>copy_page\<close> over the entries of a table, \<open>rec\<close> being the recursive call and \<open>pt\<close>
  whether the table is of the last level; the result is \<open>None\<close> when the loop is left by
  the \<^verbatim>\<open>return\<close> for the kernel's table.
\<close>

fun copy_loop :: "(u64 \<Rightarrow> vm \<Rightarrow> (u64 \<times> vm) res) \<Rightarrow> bool \<Rightarrow> nat \<Rightarrow> u64 list \<Rightarrow> vm
    \<Rightarrow> (u64 list option \<times> vm) res" where
  "copy_loop rec pt i [] s = Inr (Some [], s)"
| "copy_loop rec pt i (e # es) s =
     (let addr = push_bit 12 (pte_address e)
      in if addr \<noteq> 0 then
           (if pt \<and> i = 0 \<and> addr = (kernel_pt s AND 0x0FFFFFFF) then Inr (None, s)
            else rbind (rec addr s) (\<lambda>(p, s).
                 rbind (copy_loop rec pt (Suc i) es s) (\<lambda>(r, s).
                   Inr (map_option ((#) ((e AND 0x1F) OR p)) r, s))))
         else rbind (copy_loop rec pt (Suc i) es s) (\<lambda>(r, s). Inr (map_option ((#) e) r, s)))"

definition heap_alloc :: "u64 \<Rightarrow> vm \<Rightarrow> (u64 \<times> vm) res" where
  "heap_alloc n s = rbind (kmalloc n (kheap s)) (\<lambda>(b, H). Inr (b, s\<lparr>kheap := H\<rparr>))"

definition heap_free :: "u64 \<Rightarrow> vm \<Rightarrow> vm res" where
  "heap_free b s = rbind (kfree b (kheap s)) (\<lambda>H. Inr (s\<lparr>kheap := H\<rparr>))"

text \<open>The end of \<^verbatim>\<open>copy_page\<close>: the words go to a new frame, the buffer back to the heap.\<close>

definition copy_out :: "u64 \<Rightarrow> u64 list \<Rightarrow> vm \<Rightarrow> (u64 \<times> vm) res" where
  "copy_out b buf s =
     rbind (alloc_frame_vm s) (\<lambda>(p, s).
     rbind (write_page p buf s) (\<lambda>s.
     rbind (heap_free b s) (\<lambda>s. Inr (p, s))))"

primrec copy_page :: "nat \<Rightarrow> u64 \<Rightarrow> vm \<Rightarrow> (u64 \<times> vm) res" where
  "copy_page 0 phys_addr s =
     rbind (heap_alloc 4096 s) (\<lambda>(b, s).
     if b = 0 then Inl (BadAddr 0)
     else rbind (read_page phys_addr s) (\<lambda>(buf, s). copy_out b buf s))"
| "copy_page (Suc k) phys_addr s =
     rbind (heap_alloc 4096 s) (\<lambda>(b, s).
     if b = 0 then Inl (BadAddr 0)
     else rbind (read_page phys_addr s) (\<lambda>(buf, s).
          rbind (copy_loop (copy_page k) (k = 0) 0 buf s) (\<lambda>(r, s).
            case r of None \<Rightarrow> Inr (phys_addr, s) | Some buf \<Rightarrow> copy_out b buf s)))"

definition copy_pages :: "vm \<Rightarrow> (u64 \<times> vm) res" where
  "copy_pages s = copy_page 4 (cr3 s) s"

text \<open>The loops over a range of addresses, a page at a time; \<open>None\<close> if never left.\<close>

partial_function (option) page_loop :: "(u64 \<Rightarrow> vm \<Rightarrow> vm res) \<Rightarrow> u64 \<Rightarrow> u64 \<Rightarrow> vm \<Rightarrow> vm res option" where
  "page_loop body sz i s =
     (if i < sz then
        (case body i s of Inl e \<Rightarrow> Some (Inl e) | Inr s' \<Rightarrow> page_loop body sz (i + 0x1000) s')
      else Some (Inr s))"

definition remap_pages :: "u64 \<Rightarrow> u64 \<Rightarrow> u64 \<Rightarrow> vm \<Rightarrow> vm res" where
  "remap_pages oldaddr newaddr sz s =
     of_loop (page_loop (\<lambda>i s. rbind (umount_page (oldaddr + i) s) (\<lambda>(tmp, s). mount_page tmp (newaddr + i) s))
       sz 0 s)"

definition alloc_pages :: "u64 \<Rightarrow> u64 \<Rightarrow> vm \<Rightarrow> vm res" where
  "alloc_pages addr sz s =
     of_loop (page_loop (\<lambda>i s. rbind (create_page s) (\<lambda>(ph, s). mount_page_do (addr + i) ph s)) sz 0 s)"

definition alloc_pages_user :: "u64 \<Rightarrow> u64 \<Rightarrow> vm \<Rightarrow> vm res" where
  "alloc_pages_user addr sz s =
     of_loop (page_loop (\<lambda>i s. rbind (create_page_user s) (\<lambda>(ph, s). mount_page_do (addr + i) ph s)) sz 0 s)"

definition cr3_load :: "u64 \<Rightarrow> vm \<Rightarrow> vm" where
  "cr3_load v s = s\<lparr>cr3 := v AND 0x000FFFFFFFFFF000\<rparr>"

definition zero_words :: "u64 \<Rightarrow> vm \<Rightarrow> vm" where
  "zero_words a s = fold (\<lambda>i. pwrite (slot a i) 0) [0..<512] s"

text \<open>The loop of \<^verbatim>\<open>page_init\<close> that maps the pages from \<open>0xB8000\<close> to the last table.\<close>

definition init_entries :: "u64 \<Rightarrow> vm \<Rightarrow> vm" where
  "init_entries lst s =
     fold (\<lambda>n. pwrite (slot lst n) (calc_page (push_bit 12 (of_nat n)))) [0xB8..<Suc (unat (drop_bit 12 lst))] s"

definition page_init :: "u64 \<Rightarrow> vm \<Rightarrow> (u64 \<times> vm) res" where
  "page_init lst s =
     (let s = s\<lparr>kernel_pt := 0xD000, PML4 := lst\<rparr>;
          s = pwrite (slot lst 511) (calc_page (lst + 0x1000)) (zero_words lst s);
          lst = lst + 0x1000;
          s = pwrite (slot lst 511) (calc_page (lst + 0x1000)) (zero_words lst s);
          lst = lst + 0x1000;
          s = pwrite (slot lst 0) (calc_page (lst + 0x1000)) (zero_words lst s);
          lst = lst + 0x1000;
          s = init_entries lst (zero_words lst s);
          s = s\<lparr>kernel_pt := lst OR 0xFFFFFFFFC0000000\<rparr>;
          lst = lst + 0x1000
      in rbind (irq_off s) (\<lambda>s.
         rbind (irq_on (cr3_load (PML4 s) s)) (\<lambda>s. Inr (lst, s))))"

text \<open>\<^verbatim>\<open>zeromem\<close> through the window.\<close>

definition win_zero :: "vm \<Rightarrow> vm res" where
  "win_zero s = win_put 0 (replicate 512 0) s"

definition init_table :: "u64 \<Rightarrow> nat \<Rightarrow> pte_desc \<Rightarrow> vm \<Rightarrow> vm res" where
  "init_table table i e s =
     rbind (mount_page_t table s) (\<lambda>s.
     rbind (win_zero s) (\<lambda>s.
     rbind (win_write i e s) (\<lambda>s. Inr (umount_page_t s))))"

definition page_init_ap :: "vm \<Rightarrow> vm res" where
  "page_init_ap s =
     rbind (irq_off s) (\<lambda>s.
     let s = cr3_load (PML4 s) s in
     rbind (alloc_frame_vm s) (\<lambda>(pml4, s).
     rbind (alloc_frame_vm s) (\<lambda>(pdp, s).
     rbind (alloc_frame_vm s) (\<lambda>(pd, s).
     rbind (init_table pml4 511 (calc_page pdp) s) (\<lambda>s.
     rbind (init_table pdp 511 (calc_page pd) s) (\<lambda>s.
     rbind (init_table pd 0 (calc_page (kernel_pt s AND 0x0FFFFFFF)) s) (\<lambda>s.
     irq_on (cr3_load pml4 s))))))))"

text \<open>
  The page fault handler: a fault of the kernel on a page of its heap that is not present
  takes a frame; anything else is reported and stops the processor.
\<close>

definition page_fault_handler :: "u64 \<Rightarrow> u64 \<Rightarrow> vm \<Rightarrow> vm res" where
  "page_fault_handler addr reg1 s =
     (if kernel_heap (kheap s) \<le> addr \<and> \<not> bit reg1 0 \<and> \<not> bit reg1 2
      then rbind (alloc_frame_vm s) (\<lambda>(p, s). mount_page p (addr AND TABLE_MASK) s)
      else Inl Halt)"

section \<open>The window\<close>

lemma frame_of_table_mask [simp]: "frame_of (x AND TABLE_MASK) = frame_of x"
proof -
  have m: "TABLE_MASK = NOT (mask 12)"
    by (simp add: TABLE_MASK_def mask_eq_exp_minus_1)
  show ?thesis
    unfolding m by (rule bit_word_eqI) (auto simp: bit_frame_of bit_simps simp del: mask_numeral)
qed

text \<open>A bracket of \<^verbatim>\<open>intr_disable\<close> and \<^verbatim>\<open>intr_enable\<close> leaves the counter alone and sets the flag by it.\<close>

definition irq_ok :: "vm \<Rightarrow> bool" where
  "irq_ok s \<longleftrightarrow> cpu_ok (this_cpu s) (irq s) \<and> intr_depth (this_cpu s) (irq s) < 255"

definition pulse :: "vm \<Rightarrow> vm" where
  "pulse s = s\<lparr>irq := (irq s)\<lparr>iflag := (iflag (irq s))(this_cpu s := (intr_depth (this_cpu s) (irq s) = 0))\<rparr>\<rparr>"

lemma pulse_simps [simp]:
  "pmem (pulse s) = pmem s" "PML4 (pulse s) = PML4 s" "kernel_pt (pulse s) = kernel_pt s"
  "cr3 (pulse s) = cr3 s" "frames (pulse s) = frames s" "kheap (pulse s) = kheap s"
  "this_cpu (pulse s) = this_cpu s" "kpt_slot (pulse s) = kpt_slot s" "irq_ok (pulse s) = irq_ok s"
  "pulse (pulse s) = pulse s"
  by (simp_all add: pulse_def kpt_slot_def irq_ok_def cpu_ok_def intr_depth_def)

lemma pulse_commute [simp]:
  "(pulse s)\<lparr>pmem := m\<rparr> = pulse (s\<lparr>pmem := m\<rparr>)" "(pulse s)\<lparr>frames := f\<rparr> = pulse (s\<lparr>frames := f\<rparr>)"
  "(pulse s)\<lparr>kheap := h\<rparr> = pulse (s\<lparr>kheap := h\<rparr>)"
  by (simp_all add: pulse_def)

lemma state_update_simps [simp]:
  "irq_ok (s\<lparr>pmem := m\<rparr>) = irq_ok s" "irq_ok (s\<lparr>frames := f\<rparr>) = irq_ok s" "irq_ok (s\<lparr>kheap := h\<rparr>) = irq_ok s"
  "kpt_slot (s\<lparr>pmem := m\<rparr>) = kpt_slot s" "kpt_slot (s\<lparr>frames := f\<rparr>) = kpt_slot s"
  "kpt_slot (s\<lparr>kheap := h\<rparr>) = kpt_slot s"
  by (simp_all add: irq_ok_def kpt_slot_def)

lemma irq_bracket:
  assumes "irq_ok s"
  shows "rbind (irq_off s) (\<lambda>s. irq_on (pwrite (kpt_slot s) v s)) = Inr (pulse (pwrite (kpt_slot s) v s))"
proof -
  let ?c = "this_cpu s" and ?q = "irq s"
  have c: "?c < length (intr_sema ?q)" and d: "unat (intr_sema ?q ! ?c) < 255"
    using assms by (auto simp: irq_ok_def cpu_ok_def intr_depth_def)
  have "unat (intr_sema ?q ! ?c + 1) = unat (intr_sema ?q ! ?c) + 1"
    using d by (simp add: unat_word_ariths)
  then have "intr_sema ?q ! ?c + 1 \<noteq> 0" by (metis add_is_0 one_neq_zero unat_0)
  moreover have "intr_sema ?q ! ?c = 0 \<longleftrightarrow> unat (intr_sema ?q ! ?c) = 0"
    by (simp add: word_unat_eq_iff)
  ultimately show ?thesis
    using c by (simp add: irq_off_def irq_on_def intr_disable_def intr_enable_def pwrite_def kpt_slot_def
        pulse_def intr_depth_def Let_def)
qed

lemma mount_page_t_eq:
  assumes "irq_ok s"
  shows "mount_page_t p s = Inr (pulse (s\<lparr>pmem := (pmem s)(kpt_slot s := calc_page p)\<rparr>))"
  using irq_bracket [OF assms] by (simp add: mount_page_t_def pwrite_def)

lemma win_mounted:
  assumes "pmem s (kpt_slot s) = calc_page p"
  shows "win i s = Inr (slot (frame_of p) i)"
  using assms by (simp add: win_def Let_def)

lemma create_page_eq: "create_page s = rbind (alloc_phys_page (frames s)) (\<lambda>(p, fr). Inr (calc_page p, s\<lparr>frames := fr\<rparr>))"
  by (simp add: create_page_def alloc_frame_vm_def calc_page_def rbind_assoc split_def)

text \<open>One upper level, when the entry is not the window's own.\<close>

lemma next_table_eq:
  assumes "irq_ok s" and "slot (frame_of T) i \<noteq> kpt_slot s"
  shows "next_table ph T i s =
     (let a = slot (frame_of T) i; k = kpt_slot s in
      if pmem s a \<noteq> 0 then Inr (pmem s a, pulse (s\<lparr>pmem := (pmem s)(k := 0)\<rparr>))
      else rbind (alloc_phys_page (frames s)) (\<lambda>(p, fr).
        let e = set_flag R3_ACCESS (bit ph R3_ACCESS) (calc_page p)
        in Inr (e, pulse (s\<lparr>frames := fr, pmem := (pmem s)(a := e, k := 0)\<rparr>))))"
proof -
  let ?a = "slot (frame_of T) i" and ?k = "kpt_slot s"
  let ?s = "pulse (s\<lparr>pmem := (pmem s)(?k := calc_page T)\<rparr>)"
  have m: "mount_page_t T s = Inr ?s" by (rule mount_page_t_eq [OF assms(1)])
  have w: "win i ?s = Inr ?a" by (rule win_mounted) simp
  then have r: "win_read i ?s = Inr (pmem s ?a)" using assms(2) by (simp add: win_read_def)
  show ?thesis
  proof (cases "pmem s ?a = 0")
    case False
    then show ?thesis
      using m r by (simp add: next_table_def umount_page_t_def pwrite_def Let_def)
  next
    case True
    have "win i (?s\<lparr>frames := fr\<rparr>) = Inr ?a" for fr by (rule win_mounted) simp
    then show ?thesis
      using m r True assms(2)
      by (cases "alloc_phys_page (frames s)")
        (auto simp: next_table_def create_page_eq umount_page_t_def pwrite_def win_write_def Let_def
          fun_upd_twist)
  qed
qed

section \<open>Mounting a page\<close>

text \<open>\<^verbatim>\<open>mount_page_do\<close> as a recursion over the levels.\<close>

fun vm_path :: "pte_desc \<Rightarrow> u64 \<Rightarrow> nat list \<Rightarrow> vm \<Rightarrow> vm res" where
  "vm_path ph T [] s = Inr s"
| "vm_path ph T [i] s =
     rbind (mount_page_t T s) (\<lambda>s. rbind (win_write i ph s) (\<lambda>s. Inr (umount_page_t s)))"
| "vm_path ph T (i # j # is) s =
     rbind (next_table ph T i s) (\<lambda>(p, s). vm_path ph (p AND TABLE_MASK) (j # is) s)"

lemma mount_page_do_path: "mount_page_do a ph s = vm_path ph (PML4 s) (lin_path a) s"
  by (simp add: mount_page_do_def lin_path_def split_def)

text \<open>
  The window does not disturb the walk: the kernel's table, whose entry 0 it is, is not
  one of the upper tables, and the path does not end in that entry.
\<close>

definition window_apart :: "nat \<Rightarrow> u64 \<Rightarrow> nat list \<Rightarrow> u64 \<Rightarrow> mem \<Rightarrow> bool" where
  "window_apart d f is K m \<longleftrightarrow> m (slot K 0) = 0 \<and> (0 < d \<longrightarrow> K \<notin> tabs m (d - 1) f)
     \<and> \<not> (tab_at m f (butlast is) = Some K \<and> last is = 0)"

lemma vm_path_last:
  assumes "irq_ok s" and "slot (frame_of T) i \<noteq> kpt_slot s" and "pmem s (kpt_slot s) = 0"
  shows "vm_path ph T [i] s = Inr (pulse (s\<lparr>pmem := (pmem s)(slot (frame_of T) i := ph)\<rparr>))"
proof -
  let ?s = "pulse (s\<lparr>pmem := (pmem s)(kpt_slot s := calc_page T)\<rparr>)"
  have m: "mount_page_t T s = Inr ?s" by (rule mount_page_t_eq [OF assms(1)])
  have w: "win i ?s = Inr (slot (frame_of T) i)" by (rule win_mounted) simp
  have "(pmem s)(kpt_slot s := calc_page T, slot (frame_of T) i := ph, kpt_slot s := 0)
      = (pmem s)(slot (frame_of T) i := ph)"
    using assms(2,3) by (auto simp: fun_eq_iff)
  then show ?thesis
    using m w by (simp add: win_write_def umount_page_t_def pwrite_def)
qed

lemma vm_path_step:
  assumes "irq_ok s" and "slot (frame_of T) i \<noteq> kpt_slot s" and "pmem s (kpt_slot s) = 0"
  shows "vm_path ph T (i # j # is) s =
     (let a = slot (frame_of T) i in
      if pmem s a \<noteq> 0 then vm_path ph (pmem s a AND TABLE_MASK) (j # is) (pulse s)
      else rbind (alloc_phys_page (frames s)) (\<lambda>(p, fr).
        let e = set_flag R3_ACCESS (bit ph R3_ACCESS) (calc_page p)
        in vm_path ph (e AND TABLE_MASK) (j # is) (pulse (s\<lparr>frames := fr, pmem := (pmem s)(a := e)\<rparr>))))"
proof -
  have k: "(pmem s)(kpt_slot s := 0) = pmem s" using assms(3) by auto
  have k2: "(pmem s)(slot (frame_of T) i := e, kpt_slot s := 0) = (pmem s)(slot (frame_of T) i := e)" for e
    using assms(2,3) by (auto simp: fun_eq_iff)
  have k3: "s\<lparr>pmem := pmem s\<rparr> = s" by simp
  show ?thesis
    unfolding vm_path.simps next_table_eq [OF assms(1,2)] Let_def k k2 k3
    by (cases "alloc_phys_page (frames s)") auto
qed

lemma page_aligned_slot0: "page_aligned K \<Longrightarrow> page_aligned f \<Longrightarrow> i < 512 \<Longrightarrow>
    slot f i = slot K 0 \<longleftrightarrow> f = K \<and> i = 0"
  using slot_inj [of f K i 0] by simp

lemma window_apart_child:
  assumes "window_apart (Suc d) f (i # j # js) K m" and "i < 512" and "m (slot f i) \<noteq> 0"
  shows "window_apart d (frame_of (m (slot f i))) (j # js) K m"
proof -
  have "K \<notin> tabs m (d - 1) (frame_of (m (slot f i)))" if "0 < d"
  proof -
    have "tabs m (d - 1) (frame_of (m (slot f i))) \<subseteq> tabs m d f"
      using tabs_child [of i m f "d - 1", OF assms(2,3)] that by simp
    then show ?thesis using assms(1) by (auto simp: window_apart_def)
  qed
  then show ?thesis using assms by (simp add: window_apart_def)
qed

text \<open>
  Through the window, the code computes what direct access to the tables computes.
\<close>

lemma vm_path_refines:
  assumes "tables_ok d (frame_of T) (pmem s) (frames s)" and "path_ok d is" and "available d (frames s)"
    and "irq_ok s" and "kpt_slot s = K" and "page_aligned K" and "K \<in> used_frames (frames s)"
    and "window_apart d (frame_of T) is K (pmem s)"
  shows "vm_path ph T is s = rbind (map_path ph (frame_of T) is (pmem s, frames s))
     (\<lambda>(m, fr). Inr (pulse (s\<lparr>frames := fr, pmem := m\<rparr>)))"
  using assms
proof (induction d arbitrary: T s "is")
  case 0
  then obtain i where i: "is = [i]" "i < 512" using path_ok_0 by blast
  have k: "slot K 0 = K" by (simp add: slot_def)
  have "slot (frame_of T) i \<noteq> kpt_slot s"
    using "0.prems"(5,6,8) i page_aligned_slot0 [of K "frame_of T" i] k by (auto simp: window_apart_def)
  moreover have "pmem s (kpt_slot s) = 0" using "0.prems"(5,8) k by (simp add: window_apart_def)
  ultimately show ?case using vm_path_last [OF "0.prems"(4)] i(1) by simp
next
  case (Suc d)
  obtain i j js where p: "is = i # j # js" "i < 512" "path_ok d (j # js)"
    using path_ok_Suc [OF Suc.prems(2)] by blast
  have k: "slot K 0 = K" by (simp add: slot_def)
  let ?f = "frame_of T" and ?a = "slot (frame_of T) i"
  have fK: "?f \<noteq> K" using Suc.prems(8) by (auto simp: window_apart_def)
  then have aK: "?a \<noteq> kpt_slot s"
    using Suc.prems(5,6) page_aligned_slot0 [of K ?f i] p(2) k by auto
  have mk: "pmem s (kpt_slot s) = 0" using Suc.prems(5,8) k by (simp add: window_apart_def)
  note step = vm_path_step [OF Suc.prems(4) aK mk, of ph j js]
  show ?case
  proof (cases "pmem s ?a = 0")
    case False
    have "vm_path ph (pmem s ?a AND TABLE_MASK) (j # js) (pulse s) =
        rbind (map_path ph (frame_of (pmem s ?a)) (j # js) (pmem s, frames s))
          (\<lambda>(m, fr). Inr (pulse ((pulse s)\<lparr>frames := fr, pmem := m\<rparr>)))"
      using Suc.IH [of "pmem s ?a AND TABLE_MASK" "pulse s" "j # js"]
        tables_ok_child [OF Suc.prems(1) p(2) False] p(3) available_mono [OF Suc.prems(3), of d]
        Suc.prems(4-7) window_apart_child [OF Suc.prems(8) [unfolded p(1)] p(2) False] by simp
    then show ?thesis using step False p(1) by (simp add: Let_def)
  next
    case True
    obtain q fr1 where a: "alloc_phys_page (frames s) = Inr (q, fr1)" "q \<noteq> 0" "available d fr1"
      by (rule available_Suc [OF Suc.prems(3)])
    define e where "e = set_flag 2 (bit ph 2) (calc_page q)"
    define m1 where "m1 = (pmem s)(?a := e)"
    define s1 where "s1 = pulse (s\<lparr>frames := fr1, pmem := m1\<rparr>)"
    note I = insert_new [OF Suc.prems(1) p(2) True a(1,2), where b = "bit ph 2", folded e_def, folded m1_def]
    have s1: "pmem s1 = m1" "frames s1 = fr1" "kpt_slot s1 = K" "irq_ok s1"
      using Suc.prems(4,5) by (simp_all add: s1_def)
    have m1i: "m1 ?a = e" by (simp add: m1_def)
    have u: "used_frames fr1 = insert q (used_frames (frames s))" "q \<notin> used_frames (frames s)"
      using alloc_frame Suc.prems(1) a by (auto simp: tables_ok_def)
    have qK: "q \<noteq> K" using u(2) Suc.prems(7) by auto
    have mK: "m1 (slot K 0) = 0" using aK mk Suc.prems(5) k by (simp add: m1_def)
    have emp: "tabs m1 n q = {q}" and zer: "\<forall>i < 512. m1 (slot q i) = 0" for n
    proof -
      have qa: "page_aligned q" and qz: "\<forall>i < 512. pmem s (slot q i) = 0"
        using alloc_free_frame(1) [OF _ a(1,2)] free_frame_small(1) Suc.prems(1)
        by (auto simp: tables_ok_def clean_def)
      have "?f \<in> used_frames (frames s)"
        using Suc.prems(1) tabs_self [of ?f "pmem s" "Suc d"] unfolding tables_ok_def by blast
      then have "q \<noteq> ?f" using u(2) by blast
      then show zer: "\<forall>i < 512. m1 (slot q i) = 0"
        using qz slot_inj [OF qa page_aligned_frame_of _ p(2)] unfolding m1_def by (metis fun_upd_other)
      show "tabs m1 n q = {q}" by (rule empty_table(2) [OF qa zer])
    qed
    have "window_apart d q (j # js) K m1"
    proof -
      have "tab_at m1 q (butlast (j # js)) \<noteq> Some K"
        using tab_at_tabs [OF p(3), of m1 q K] emp [of d] qK by auto
      then show ?thesis using mK emp qK by (simp add: window_apart_def)
    qed
    then have "vm_path ph (e AND TABLE_MASK) (j # js) s1 =
        rbind (map_path ph (frame_of e) (j # js) (m1, fr1))
          (\<lambda>(m, fr). Inr (pulse (s1\<lparr>frames := fr, pmem := m\<rparr>)))"
      using Suc.IH [of "e AND TABLE_MASK" s1 "j # js"] tables_ok_child [OF I(1) p(2) I(2)] I(3)
        p(3) a(3) s1 Suc.prems(6,7) u(1) m1i by simp
    then show ?thesis
      using step True p(1) a(1) by (simp add: Let_def e_def m1_def s1_def)
  qed
qed

text \<open>
  The state between two calls: tables that form a tree of frames in use, the kernel's
  table a frame of the last level, the window closed.
\<close>

definition root :: "vm \<Rightarrow> u64" where
  "root s = frame_of (PML4 s)"

definition vm_ok :: "vm \<Rightarrow> bool" where
  "vm_ok s \<longleftrightarrow> tables_ok 3 (root s) (pmem s) (frames s) \<and> irq_ok s \<and> page_aligned (kpt_slot s)
     \<and> kpt_slot s \<in> used_frames (frames s) \<and> pmem s (kpt_slot s) = 0
     \<and> kpt_slot s \<notin> tabs (pmem s) 2 (root s)
     \<and> (\<forall>a. tab_at (pmem s) (root s) (butlast (lin_path a)) = Some (kpt_slot s) \<longrightarrow>
          butlast (lin_path a) = butlast (lin_path TMP_MOUNT_ADDR))"

definition outside_window :: "u64 \<Rightarrow> bool" where
  "outside_window a \<longleftrightarrow> lin_path a \<noteq> lin_path TMP_MOUNT_ADDR"

lemma lin_path_window: "lin_path TMP_MOUNT_ADDR = [511, 511, 0, 0]"
  by (simp add: lin_path_def lin_pml4_def lin_pdp_def lin_pd_def lin_pt_def TMP_MOUNT_ADDR_def)

definition translate :: "vm \<Rightarrow> u64 \<Rightarrow> pte_desc option" where
  "translate s a = walk (pmem s) (root s) (lin_path a)"

definition table_frames :: "vm \<Rightarrow> u64 set" where
  "table_frames s = tabs (pmem s) 3 (root s)"

lemma window_apart_vm:
  assumes "vm_ok s" and "outside_window a"
  shows "window_apart 3 (root s) (lin_path a) (kpt_slot s) (pmem s)"
proof -
  have "\<not> (tab_at (pmem s) (root s) (butlast (lin_path a)) = Some (kpt_slot s) \<and> last (lin_path a) = 0)"
  proof
    assume "tab_at (pmem s) (root s) (butlast (lin_path a)) = Some (kpt_slot s) \<and> last (lin_path a) = 0"
    then have "butlast (lin_path a) = butlast (lin_path TMP_MOUNT_ADDR)" "last (lin_path a) = 0"
      using assms(1) by (auto simp: vm_ok_def)
    then show False
      using assms(2) by (simp add: outside_window_def lin_path_window) (simp add: lin_path_def)
  qed
  then show ?thesis
    using assms(1) by (simp add: vm_ok_def window_apart_def slot_def)
qed

lemma mount_page_do_direct:
  assumes "vm_ok s" and "outside_window a" and "available 3 (frames s)"
  shows "mount_page_do a ph s = rbind (map_path ph (root s) (lin_path a) (pmem s, frames s))
     (\<lambda>(m, fr). Inr (pulse (s\<lparr>frames := fr, pmem := m\<rparr>)))"
  unfolding mount_page_do_path
  using vm_path_refines [of 3 "PML4 s" s "lin_path a" "kpt_slot s" ph, OF _ lin_path_ok assms(3)]
    window_apart_vm [OF assms(1,2)] assms(1) by (simp add: vm_ok_def root_def)

lemma mount_page_do_inserts:
  assumes "vm_ok s" and "outside_window a" and "available 3 (frames s)"
  obtains m fr where "mount_page_do a ph s = Inr (pulse (s\<lparr>frames := fr, pmem := m\<rparr>))"
    and "inserted 3 (root s) (lin_path a) ph (pmem s) (frames s) m fr"
    and "map_path ph (root s) (lin_path a) (pmem s, frames s) = Inr (m, fr)"
  using map_path_inserts [of 3 "root s" "pmem s" "frames s" "lin_path a" ph, OF _ lin_path_ok assms(3)] assms(1)
    mount_page_do_direct [OF assms, of ph] that by (auto simp: vm_ok_def)

lemma mount_page_do_closes:
  assumes "mount_page_do a ph s = Inr s'"
  shows "pmem s' (kpt_slot s') = 0"
proof -
  obtain t where "s' = umount_page_t t"
    using assms by (auto simp: mount_page_do_def rbind_eq_Inr)
  then show ?thesis by (simp add: umount_page_t_def pwrite_def kpt_slot_def)
qed

lemma inserted_tables_ok:
  assumes "inserted d f is ph m fr m' fr'" and "tabs m d f \<subseteq> used_frames fr"
  shows "tables_ok d f m' fr'"
  using assms unfolding inserted_def tables_ok_def by blast

text \<open>What an insertion means for the address space.\<close>

lemma inserted_vm:
  assumes ok: "vm_ok s" and ins: "inserted 3 (root s) (lin_path a) ph (pmem s) (frames s) m fr"
    and w: "m (kpt_slot s) = 0"
  defines "s' \<equiv> pulse (s\<lparr>frames := fr, pmem := m\<rparr>)"
  shows "vm_ok s'" and "translate s' a = (if bit ph 0 then Some ph else None)"
    and "lin_path b \<noteq> lin_path a \<Longrightarrow> translate s' b = translate s b"
    and "page_aligned h \<Longrightarrow> h \<notin> table_frames s' \<Longrightarrow> i < 512 \<Longrightarrow> pmem s' (slot h i) = pmem s (slot h i)"
    and "table_frames s' \<subseteq> table_frames s \<union> (used_frames (frames s') - used_frames (frames s))"
proof -
  have root: "root s' = root s" "kpt_slot s' = kpt_slot s" "pmem s' = m" "frames s' = fr" "irq_ok s' = irq_ok s"
    by (simp_all add: root_def s'_def)
  have v: "tabs (pmem s) 3 (root s) \<subseteq> used_frames (frames s)" "irq_ok s" "page_aligned (kpt_slot s)"
    "kpt_slot s \<in> used_frames (frames s)" "kpt_slot s \<notin> tabs (pmem s) 2 (root s)"
    "\<forall>a. tab_at (pmem s) (root s) (butlast (lin_path a)) = Some (kpt_slot s) \<longrightarrow>
       butlast (lin_path a) = butlast (lin_path TMP_MOUNT_ADDR)"
    using ok by (auto simp: vm_ok_def tables_ok_def)
  have n: "tabs m 2 (root s) \<subseteq> tabs (pmem s) 2 (root s) \<union> (used_frames fr - used_frames (frames s))"
    "used_frames (frames s) \<subseteq> used_frames fr"
    "tabs m 3 (root s) \<subseteq> tabs (pmem s) 3 (root s) \<union> (used_frames fr - used_frames (frames s))"
    using ins by (auto simp: inserted_def)
  have "tab_at (pmem s) (root s) (butlast (lin_path a)) = Some (kpt_slot s)"
    if "tab_at m (root s) (butlast (lin_path a)) = Some (kpt_slot s)" for a
    using ins that v(4) lin_path_ok [of a] unfolding inserted_def by blast
  then show "vm_ok s'"
    using inserted_tables_ok [OF ins v(1)] v n(1,2) w unfolding vm_ok_def root by auto
  show "translate s' a = (if bit ph 0 then Some ph else None)"
    using ins by (simp add: translate_def root inserted_def)
  show "translate s' b = translate s b" if "lin_path b \<noteq> lin_path a"
    using ins that lin_path_ok [of b] by (simp add: translate_def root inserted_def)
  show "pmem s' (slot h i) = pmem s (slot h i)" if "page_aligned h" "h \<notin> table_frames s'" "i < 512"
    using ins that by (simp add: table_frames_def root inserted_def)
  show "table_frames s' \<subseteq> table_frames s \<union> (used_frames (frames s') - used_frames (frames s))"
    using n(3) by (simp add: table_frames_def root)
qed

lemma mount_page_do_spec:
  assumes "vm_ok s" and "outside_window a" and "available 3 (frames s)"
  obtains s' where "mount_page_do a ph s = Inr s'" and "vm_ok s'"
    and "translate s' a = (if bit ph 0 then Some ph else None)"
    and "\<And>b. lin_path b \<noteq> lin_path a \<Longrightarrow> translate s' b = translate s b"
    and "\<And>h i. page_aligned h \<Longrightarrow> h \<notin> table_frames s' \<Longrightarrow> i < 512 \<Longrightarrow> pmem s' (slot h i) = pmem s (slot h i)"
    and "table_frames s' \<subseteq> table_frames s \<union> (used_frames (frames s') - used_frames (frames s))"
    and "s' = pulse (s\<lparr>frames := frames s', pmem := pmem s'\<rparr>)"
proof -
  obtain m fr where r: "mount_page_do a ph s = Inr (pulse (s\<lparr>frames := fr, pmem := m\<rparr>))"
    and ins: "inserted 3 (root s) (lin_path a) ph (pmem s) (frames s) m fr"
    by (rule mount_page_do_inserts [OF assms])
  have w: "m (kpt_slot s) = 0" using mount_page_do_closes [OF r] by simp
  note V = inserted_vm [OF assms(1) ins w]
  show thesis
    by (rule that [OF r V]) simp_all
qed

text \<open>
  C15. Mounting through the window is direct access to the tables: when the tables form a tree,
  three frames are available and the address is not the window's own, \<^verbatim>\<open>mount_page_do\<close> returns
  and its effect on memory and on the page bitmap is that of inserting the entry at the
  end of the path of table indices, with new tables where an entry was empty.
\<close>

theorem mount_page_do_refines:
  assumes "vm_ok s" and "outside_window a" and "available 3 (frames s)"
  shows "mount_page_do a ph s = rbind (map_path ph (root s) (lin_path a) (pmem s, frames s))
     (\<lambda>(m, fr). Inr (pulse (s\<lparr>frames := fr, pmem := m\<rparr>)))"
  by (rule mount_page_do_direct [OF assms])

text \<open>
  C14. After \<^verbatim>\<open>mount_page\<close> the processor translates the address to the given frame, every other page
  is translated as before, memory outside the tables is unchanged, and the invariant of
  the tables holds again.
\<close>

theorem mount_page_maps:
  assumes "vm_ok s" and "outside_window a" and "available 3 (frames s)"
  shows "\<exists>s'. mount_page p a s = Inr s' \<and> vm_ok s' \<and> translate s' a = Some (calc_page p)
     \<and> frame_of (calc_page p) = frame_of p
     \<and> (\<forall>b. lin_path b \<noteq> lin_path a \<longrightarrow> translate s' b = translate s b)
     \<and> (\<forall>h. page_aligned h \<longrightarrow> h \<notin> table_frames s' \<longrightarrow> (\<forall>i < 512. pmem s' (slot h i) = pmem s (slot h i)))"
proof -
  obtain s' where "mount_page_do a (calc_page p) s = Inr s'" "vm_ok s'"
    "translate s' a = (if bit (calc_page p) 0 then Some (calc_page p) else None)"
    "\<And>b. lin_path b \<noteq> lin_path a \<Longrightarrow> translate s' b = translate s b"
    "\<And>h i. page_aligned h \<Longrightarrow> h \<notin> table_frames s' \<Longrightarrow> i < 512 \<Longrightarrow> pmem s' (slot h i) = pmem s (slot h i)"
    by (rule mount_page_do_spec [OF assms, of "calc_page p"]) blast
  then show ?thesis by (auto simp: mount_page_def)
qed

section \<open>Unmounting a page\<close>

lemma peek_table_eq:
  assumes "irq_ok s" and "slot (frame_of T) i \<noteq> kpt_slot s" and "pmem s (kpt_slot s) = 0"
  shows "peek_table T i s = Inr (pmem s (slot (frame_of T) i), pulse s)"
proof -
  let ?s = "pulse (s\<lparr>pmem := (pmem s)(kpt_slot s := calc_page T)\<rparr>)"
  have m: "mount_page_t T s = Inr ?s" by (rule mount_page_t_eq [OF assms(1)])
  have w: "win i ?s = Inr (slot (frame_of T) i)" by (rule win_mounted) simp
  have k: "(pmem s)(kpt_slot s := 0) = pmem s" using assms(3) by auto
  show ?thesis
    using m w assms(2) k by (simp add: peek_table_def win_read_def umount_page_t_def pwrite_def)
qed

text \<open>\<^verbatim>\<open>umount_page\<close> as a recursion over the levels.\<close>

fun vm_unpath :: "u64 \<Rightarrow> nat list \<Rightarrow> vm \<Rightarrow> (u64 \<times> vm) res" where
  "vm_unpath T [] s = Inr (0, s)"
| "vm_unpath T [i] s =
     rbind (mount_page_t T s) (\<lambda>s. rbind (win_read i s) (\<lambda>ret.
       rbind (win_write i (ret AND 0xFFFFFFFFFFFFFFFE) s) (\<lambda>s. Inr (ret, umount_page_t s))))"
| "vm_unpath T (i # j # is) s =
     rbind (peek_table T i s) (\<lambda>(p, s). if p = 0 then Inr (0, s) else vm_unpath (p AND TABLE_MASK) (j # is) s)"

lemma umount_page_path: "umount_page a s = vm_unpath (PML4 s) (lin_path a) s"
  by (simp add: umount_page_def lin_path_def split_def cong: if_cong)

lemma vm_unpath_eq:
  assumes "path_ok d is" and "irq_ok s" and "kpt_slot s = K" and "page_aligned K"
    and "window_apart d (frame_of T) is K (pmem s)"
  shows "vm_unpath T is s =
     (case tab_at (pmem s) (frame_of T) (butlast is) of
        None \<Rightarrow> Inr (0, pulse s)
      | Some t \<Rightarrow> let e = pmem s (slot t (last is))
          in Inr (e, pulse (s\<lparr>pmem := (pmem s)(slot t (last is) := e AND 0xFFFFFFFFFFFFFFFE)\<rparr>)))"
  using assms
proof (induction d arbitrary: T s "is")
  case 0
  then obtain i where i: "is = [i]" "i < 512" using path_ok_0 by blast
  let ?a = "slot (frame_of T) i" and ?s = "pulse (s\<lparr>pmem := (pmem s)(kpt_slot s := calc_page T)\<rparr>)"
  have k: "slot K 0 = K" by (simp add: slot_def)
  have aK: "?a \<noteq> kpt_slot s"
    using "0.prems"(3-5) i page_aligned_slot0 [of K "frame_of T" i] k by (auto simp: window_apart_def)
  have mk: "pmem s (kpt_slot s) = 0" using "0.prems"(3,5) k by (simp add: window_apart_def)
  have m: "mount_page_t T s = Inr ?s" by (rule mount_page_t_eq [OF "0.prems"(2)])
  have w: "win i ?s = Inr ?a" by (rule win_mounted) simp
  have "(pmem s)(kpt_slot s := calc_page T, ?a := v, kpt_slot s := 0) = (pmem s)(?a := v)" for v
    using aK mk by (auto simp: fun_eq_iff)
  then show ?case
    using m w aK i(1) by (simp add: win_read_def win_write_def umount_page_t_def pwrite_def Let_def)
next
  case (Suc d)
  obtain i j js where p: "is = i # j # js" "i < 512" "path_ok d (j # js)"
    using path_ok_Suc [OF Suc.prems(1)] by blast
  let ?a = "slot (frame_of T) i"
  have k: "slot K 0 = K" by (simp add: slot_def)
  have "frame_of T \<noteq> K" using Suc.prems(5) by (auto simp: window_apart_def)
  then have aK: "?a \<noteq> kpt_slot s"
    using Suc.prems(3,4) page_aligned_slot0 [of K "frame_of T" i] p(2) k by auto
  have mk: "pmem s (kpt_slot s) = 0" using Suc.prems(3,5) k by (simp add: window_apart_def)
  note peek = peek_table_eq [OF Suc.prems(2) aK mk]
  show ?case
  proof (cases "pmem s ?a = 0")
    case True
    then show ?thesis using peek p(1) by simp
  next
    case False
    then show ?thesis
      using Suc.IH [of "j # js" "pulse s" "pmem s ?a AND TABLE_MASK"] p(1,3) Suc.prems(2-4) peek
        window_apart_child [OF Suc.prems(5) [unfolded p(1)] p(2) False] by (auto split: option.splits)
  qed
qed

text \<open>
  C16. \<^verbatim>\<open>umount_page\<close> always returns; afterwards the address has no translation, every other page
  is translated as before, and the result is the entry that was there, 0 if a table on
  the path does not exist.
\<close>

theorem umount_page_unmaps:
  assumes "vm_ok s" and "outside_window a"
  shows "\<exists>r s'. umount_page a s = Inr (r, s') \<and> vm_ok s' \<and> translate s' a = None
     \<and> (\<forall>b. lin_path b \<noteq> lin_path a \<longrightarrow> translate s' b = translate s b)
     \<and> (\<forall>e. translate s a = Some e \<longrightarrow> r = e)"
proof -
  have ok: "tables_ok 3 (root s) (pmem s) (frames s)" "tree (pmem s) 3 (root s)" "irq_ok s"
    "page_aligned (kpt_slot s)"
    using assms(1) by (auto simp: vm_ok_def tables_ok_def)
  have wa: "window_apart 3 (frame_of (PML4 s)) (lin_path a) (kpt_slot s) (pmem s)"
    using window_apart_vm [OF assms] by (simp add: root_def)
  note u = vm_unpath_eq [OF lin_path_ok ok(3) refl ok(4) wa, folded root_def umount_page_path]
  show ?thesis
  proof (cases "tab_at (pmem s) (root s) (butlast (lin_path a))")
    case None
    have "vm_ok (pulse s)" "\<And>b. translate (pulse s) b = translate s b"
      using assms(1) by (simp_all add: vm_ok_def root_def translate_def)
    moreover have "translate s a = None"
      unfolding translate_def by (rule walk_no_table [OF ok(2) lin_path_ok None])
    ultimately show ?thesis using u None by auto
  next
    case (Some t)
    let ?e = "pmem s (slot t (last (lin_path a)))"
    let ?m = "(pmem s)(slot t (last (lin_path a)) := ?e AND 0xFFFFFFFFFFFFFFFE)"
    let ?s = "pulse (s\<lparr>pmem := ?m\<rparr>)"
    have "inserted 3 (root s) (lin_path a) (?e AND 0xFFFFFFFFFFFFFFFE) (pmem s) (frames s) ?m (frames s)"
      using insert_existing [OF ok(1) lin_path_ok Some] by blast
    moreover have "\<not> bit (?e AND 0xFFFFFFFFFFFFFFFE) 0" by (simp add: bit_simps)
    moreover have w: "?m (kpt_slot s) = 0" using assms(1) by (auto simp: vm_ok_def)
    moreover have "translate s a = (let e = ?e in if bit e 0 then Some e else None)"
      unfolding translate_def by (rule walk_last [OF ok(2) lin_path_ok Some])
    ultimately show ?thesis
      using u Some inserted_vm [OF assms(1), of a _ ?m "frames s"] w by (auto simp: Let_def split: if_splits)
  qed
qed

section \<open>Allocating pages\<close>

lemma available_used:
  assumes "phys_ok fr" and "available (Suc n) fr"
  obtains p fr' where "alloc_phys_page fr = Inr (p, fr')" and "p \<noteq> 0" and "available n fr'"
    and "phys_ok fr'" and "p \<notin> used_frames fr" and "used_frames fr' = insert p (used_frames fr)"
    and "free_frames fr' \<subseteq> free_frames fr"
proof -
  obtain p fr' where "alloc_phys_page fr = Inr (p, fr')" "p \<noteq> 0" "available n fr'"
    by (rule available_Suc [OF assms(2)])
  then show thesis
    using that alloc_frame [OF assms(1)] alloc_free_frame [OF assms(1)] by blast
qed

lemma vm_ok_frames:
  assumes "vm_ok s" and "phys_ok fr" and "used_frames (frames s) \<subseteq> used_frames fr"
    and "free_frames fr \<subseteq> free_frames (frames s)"
  shows "vm_ok (s\<lparr>frames := fr\<rparr>)" and "translate (s\<lparr>frames := fr\<rparr>) b = translate s b"
proof -
  have "clean (pmem s) fr" using assms(1,4) by (auto simp: vm_ok_def tables_ok_def clean_def)
  then show "vm_ok (s\<lparr>frames := fr\<rparr>)"
    using assms by (auto simp: vm_ok_def tables_ok_def root_def)
qed (simp add: translate_def root_def)

text \<open>
  The body of the loops of \<^verbatim>\<open>alloc_pages\<close> and \<^verbatim>\<open>alloc_pages_user\<close>: a frame is taken and mounted,
  with the entry \<open>ent p\<close> for frame \<open>p\<close>. The heap, the interrupt counters and the interrupt table stay as they are; the
  interrupt flag follows the counter.
\<close>

definition flag_ok :: "vm \<Rightarrow> bool" where
  "flag_ok s \<longleftrightarrow> iflag (irq s) (this_cpu s) = (intr_depth (this_cpu s) (irq s) = 0)"

definition keeps :: "vm \<Rightarrow> vm \<Rightarrow> bool" where
  "keeps s s' \<longleftrightarrow> kheap s' = kheap s \<and> this_cpu s' = this_cpu s \<and> intr_sema (irq s') = intr_sema (irq s)
     \<and> IDT (irq s') = IDT (irq s) \<and> idtr (irq s') = idtr (irq s) \<and> (flag_ok s \<longrightarrow> flag_ok s')"

lemma keeps_simps [simp]: "keeps s s" "keeps s (pulse (s\<lparr>frames := f, pmem := m\<rparr>))"
  by (simp_all add: keeps_def pulse_def flag_ok_def intr_depth_def)

lemma keeps_trans [trans]: "keeps s t \<Longrightarrow> keeps t u \<Longrightarrow> keeps s u"
  by (simp add: keeps_def)

definition add_page :: "(u64 \<Rightarrow> pte_desc) \<Rightarrow> u64 \<Rightarrow> vm \<Rightarrow> vm res" where
  "add_page ent a s = rbind (alloc_frame_vm s) (\<lambda>(p, s). mount_page_do a (ent p) s)"

lemma add_page_spec:
  assumes ok: "vm_ok s" and w: "outside_window a" and av: "available (n + 4) (frames s)"
    and ent: "\<And>p. bit (ent p) 0"
  obtains p s' where "add_page ent a s = Inr s'" and "vm_ok s'" and "available n (frames s')"
    and "p \<notin> used_frames (frames s)" and "insert p (used_frames (frames s)) \<subseteq> used_frames (frames s')"
    and "translate s' a = Some (ent p)"
    and "\<And>b. lin_path b \<noteq> lin_path a \<Longrightarrow> translate s' b = translate s b" and "keeps s s'"
proof -
  have pok: "phys_ok (frames s)" using ok by (simp add: vm_ok_def tables_ok_def)
  have av': "available (Suc (n + 3)) (frames s)" using av by (simp add: add.commute)
  obtain p fr where p: "alloc_phys_page (frames s) = Inr (p, fr)" "available (n + 3) fr" "phys_ok fr"
    "p \<notin> used_frames (frames s)" "used_frames fr = insert p (used_frames (frames s))"
    "free_frames fr \<subseteq> free_frames (frames s)"
    by (rule available_used [OF pok av'])
  let ?s = "s\<lparr>frames := fr\<rparr>"
  have ok1: "vm_ok ?s" and tr1: "\<And>b. translate ?s b = translate s b"
    using vm_ok_frames [OF ok p(3) _ p(6)] p(5) by auto
  have av3: "available 3 (frames ?s)" using available_mono [OF p(2)] by simp
  obtain m fr' where r: "mount_page_do a (ent p) ?s = Inr (pulse (?s\<lparr>frames := fr', pmem := m\<rparr>))"
    and ins: "inserted 3 (root ?s) (lin_path a) (ent p) (pmem ?s) (frames ?s) m fr'"
    and mp: "map_path (ent p) (root ?s) (lin_path a) (pmem ?s, frames ?s) = Inr (m, fr')"
    by (rule mount_page_do_inserts [OF ok1 w av3])
  have mk: "m (kpt_slot ?s) = 0" using mount_page_do_closes [OF r] by simp
  note V = inserted_vm [OF ok1 ins mk]
  let ?t = "pulse (?s\<lparr>frames := fr', pmem := m\<rparr>)"
  have "available n fr'"
    using map_path_available [OF lin_path_ok _ mp, of n] p(2) by (simp add: add.commute)
  moreover have "used_frames fr \<subseteq> used_frames fr'" using ins by (simp add: inserted_def)
  ultimately show thesis
    using that [of ?t p] V(1-3) ent p(1,4,5) tr1 r
    by (simp add: add_page_def alloc_frame_vm_def)
qed

text \<open>The pages of a range, from page \<open>k\<close> on.\<close>

lemma add_pages:
  assumes "vm_ok s" and "available (4 * (n - k) + m) (frames s)" and "\<And>p. bit (ent p) 0"
    and "page_aligned addr" and "\<And>j. j < n \<Longrightarrow> outside_window (addr + of_nat (4096 * j))"
    and "n \<le> 2 ^ 36" and "k \<le> n" and "4096 * n < unat sz + 4096" and "unat sz \<le> 4096 * n"
  shows "\<exists>ps s'. page_loop (\<lambda>i. add_page ent (addr + i)) sz (of_nat (4096 * k)) s = Some (Inr s')
     \<and> vm_ok s' \<and> available m (frames s') \<and> keeps s s' \<and> length ps = n - k \<and> distinct ps \<and> set ps \<inter> used_frames (frames s) = {}
     \<and> set ps \<union> used_frames (frames s) \<subseteq> used_frames (frames s')
     \<and> (\<forall>j < n - k. translate s' (addr + of_nat (4096 * (k + j))) = Some (ent (ps ! j)))
     \<and> (\<forall>b. (\<forall>j. k \<le> j \<and> j < n \<longrightarrow> lin_path b \<noteq> lin_path (addr + of_nat (4096 * j))) \<longrightarrow>
          translate s' b = translate s b)"
  using assms(1,2,7)
proof (induction "n - k" arbitrary: k s)
  case 0
  then have k: "k = n" by simp
  have "4096 * n < 2 ^ 64" using assms(6) by simp
  then have "unat (of_nat (4096 * n) :: u64) = 4096 * n" by (simp only: unat_of_nat) simp
  then have "\<not> of_nat (4096 * k) < sz" using assms(9) k by (simp add: word_less_nat_alt del: of_nat_mult)
  then have "page_loop (\<lambda>i. add_page ent (addr + i)) sz (of_nat (4096 * k)) s = Some (Inr s)"
    by (subst page_loop.simps) (simp del: of_nat_mult)
  then show ?case using "0.prems" k by (auto simp del: of_nat_mult)
next
  case (Suc d)
  have kn: "k < n" using Suc.hyps(2) by simp
  let ?a = "\<lambda>j. addr + of_nat (4096 * j)"
  have "4096 * k < 2 ^ 64" using assms(6) kn by simp
  then have "unat (of_nat (4096 * k) :: u64) = 4096 * k" by (simp only: unat_of_nat) simp
  then have lt: "of_nat (4096 * k) < sz" using assms(8) kn by (simp add: word_less_nat_alt del: of_nat_mult)
  have "4 * (n - k) + m = (4 * d + m) + 4" using Suc.hyps(2) by simp
  then have "available ((4 * d + m) + 4) (frames s)" using Suc.prems(2) by (simp only: )
  then obtain p s1 where b: "add_page ent (?a k) s = Inr s1" and s1: "vm_ok s1" "available (4 * d + m) (frames s1)"
    and p: "p \<notin> used_frames (frames s)" "insert p (used_frames (frames s)) \<subseteq> used_frames (frames s1)"
    and t: "translate s1 (?a k) = Some (ent p)"
    and o: "\<And>b. lin_path b \<noteq> lin_path (?a k) \<Longrightarrow> translate s1 b = translate s b" and k1: "keeps s s1"
    by (rule add_page_spec [where ent = ent, OF Suc.prems(1) assms(5) [OF kn] _ assms(3)]) blast
  have d: "d = n - Suc k" using Suc.hyps(2) by simp
  have nx: "(of_nat (4096 * k) :: u64) + 0x1000 = of_nat (4096 * Suc k)" by simp
  obtain ps s' where L: "page_loop (\<lambda>i. add_page ent (addr + i)) sz (of_nat (4096 * Suc k)) s1 = Some (Inr s')"
    and s': "vm_ok s'" "available m (frames s')" "keeps s1 s'" "length ps = n - Suc k" "distinct ps" "set ps \<inter> used_frames (frames s1) = {}"
      "set ps \<union> used_frames (frames s1) \<subseteq> used_frames (frames s')"
    and tr: "\<forall>j < n - Suc k. translate s' (?a (Suc k + j)) = Some (ent (ps ! j))"
    and ot: "\<forall>b. (\<forall>j. Suc k \<le> j \<and> j < n \<longrightarrow> lin_path b \<noteq> lin_path (?a j)) \<longrightarrow> translate s' b = translate s1 b"
    using Suc.hyps(1) [OF d s1(1)] s1(2) kn d by (auto simp del: of_nat_mult)
  have "page_loop (\<lambda>i. add_page ent (addr + i)) sz (of_nat (4096 * k)) s = Some (Inr s')"
    using lt b L unfolding nx [symmetric] by (subst page_loop.simps) (simp add: add.commute del: of_nat_mult)
  moreover have "translate s' (?a (k + j)) = Some (ent ((p # ps) ! j))" if "j < n - k" for j
  proof (cases j)
    case 0
    have "lin_path (?a k) \<noteq> lin_path (?a i)" if "Suc k \<le> i" "i < n" for i
      using lin_path_inj [OF assms(4), of k i] that assms(6) by fastforce
    then have "translate s' (?a k) = translate s1 (?a k)" using ot by blast
    then show ?thesis using t 0 by simp
  next
    case (Suc i)
    then show ?thesis using tr that by (simp del: of_nat_mult)
  qed
  moreover have "translate s' b = translate s b"
    if "\<forall>j. k \<le> j \<and> j < n \<longrightarrow> lin_path b \<noteq> lin_path (?a j)" for b
    using that ot o kn by (metis Suc_leD le_refl)
  ultimately show ?case
    using s' p kn keeps_trans [OF k1 s'(3)] by (intro exI [of _ "p # ps"] exI [of _ s']) (auto simp del: of_nat_mult)
qed

lemma alloc_pages_add: "alloc_pages addr sz s = of_loop (page_loop (\<lambda>i. add_page calc_page (addr + i)) sz 0 s)"
proof -
  have "(\<lambda>i s. rbind (create_page s) (\<lambda>(ph, s). mount_page_do (addr + i) ph s)) = (\<lambda>i. add_page calc_page (addr + i))"
    by (simp add: fun_eq_iff create_page_def add_page_def calc_page_def rbind_assoc split_def)
  then show ?thesis unfolding alloc_pages_def by simp
qed

text \<open>The entry of a page that user programs may access.\<close>

definition user_page :: "u64 \<Rightarrow> pte_desc" where
  "user_page p = set_flag WRITABLE True (set_flag EXISTS True (set_flag R3_ACCESS True (set_address (drop_bit 12 p) 0)))"

lemma alloc_pages_user_add: "alloc_pages_user addr sz s = of_loop (page_loop (\<lambda>i. add_page user_page (addr + i)) sz 0 s)"
proof -
  have "(\<lambda>i s. rbind (create_page_user s) (\<lambda>(ph, s). mount_page_do (addr + i) ph s)) = (\<lambda>i. add_page user_page (addr + i))"
    by (simp add: fun_eq_iff create_page_user_def add_page_def user_page_def rbind_assoc split_def)
  then show ?thesis unfolding alloc_pages_user_def by simp
qed

lemma alloc_pages_user_ok:
  assumes "vm_ok s" and "available (4 * n + m) (frames s)" and "page_aligned addr" and "n \<le> 2 ^ 36"
    and "\<And>j. j < n \<Longrightarrow> outside_window (addr + of_nat (4096 * j))"
    and "4096 * n < unat sz + 4096" and "unat sz \<le> 4096 * n"
  obtains s' where "alloc_pages_user addr sz s = Inr s'" and "vm_ok s'" and "available m (frames s')" and "keeps s s'"
    and "\<And>j. j < n \<Longrightarrow> \<exists>p. p \<notin> used_frames (frames s) \<and> translate s' (addr + of_nat (4096 * j)) = Some (user_page p)"
proof -
  have u: "bit (user_page p) 0" for p by (simp add: user_page_def set_flag_def bit_simps)
  have a: "available (4 * (n - 0) + m) (frames s)" using assms(2) by simp
  from add_pages [where ent = user_page and k = 0 and n = n and m = m and sz = sz, OF assms(1) a u assms(3) assms(5) assms(4) _ assms(6,7)]
  obtain ps s' where s': "page_loop (\<lambda>i. add_page user_page (addr + i)) sz 0 s = Some (Inr s')" "vm_ok s'"
    "available m (frames s')" "keeps s s'" "\<forall>j < n. translate s' (addr + of_nat (4096 * j)) = Some (user_page (ps ! j))"
    "length ps = n" "set ps \<inter> used_frames (frames s) = {}"
    by (auto simp del: of_nat_mult)
  moreover from this(6,7) have "ps ! j \<notin> used_frames (frames s)" if "j < n" for j using that by (auto simp: disjoint_iff)
  ultimately show thesis using that [of s'] unfolding alloc_pages_user_add by (simp del: of_nat_mult) blast
qed

lemma alloc_pages_ok:
  assumes "vm_ok s" and "available (4 * n) (frames s)" and "page_aligned addr" and "n \<le> 2 ^ 36"
    and "\<forall>j < n. outside_window (addr + of_nat (4096 * j))"
    and "4096 * n < unat sz + 4096" and "unat sz \<le> 4096 * n"
  shows "\<exists>ps s'. alloc_pages addr sz s = Inr s' \<and> vm_ok s' \<and> length ps = n \<and> distinct ps
     \<and> set ps \<inter> used_frames (frames s) = {} \<and> set ps \<subseteq> used_frames (frames s')
     \<and> (\<forall>j < n. translate s' (addr + of_nat (4096 * j)) = Some (calc_page (ps ! j)))
     \<and> (\<forall>b. (\<forall>j < n. lin_path b \<noteq> lin_path (addr + of_nat (4096 * j))) \<longrightarrow> translate s' b = translate s b)
     \<and> keeps s s'"
proof -
  have "\<exists>ps s'. page_loop (\<lambda>i. add_page calc_page (addr + i)) sz (of_nat (4096 * 0)) s = Some (Inr s')
     \<and> vm_ok s' \<and> available 0 (frames s') \<and> keeps s s' \<and> length ps = n - 0 \<and> distinct ps \<and> set ps \<inter> used_frames (frames s) = {}
     \<and> set ps \<union> used_frames (frames s) \<subseteq> used_frames (frames s')
     \<and> (\<forall>j < n - 0. translate s' (addr + of_nat (4096 * (0 + j))) = Some (calc_page (ps ! j)))
     \<and> (\<forall>b. (\<forall>j. 0 \<le> j \<and> j < n \<longrightarrow> lin_path b \<noteq> lin_path (addr + of_nat (4096 * j))) \<longrightarrow>
          translate s' b = translate s b)"
    by (rule add_pages) (use assms in auto)
  then show ?thesis
    unfolding alloc_pages_add by (auto simp del: of_nat_mult)
qed

text \<open>
  C17. \<^verbatim>\<open>alloc_pages\<close> returns when four frames per page are available; then the pages of the
  range are translated to distinct frames that were free before, every other page is
  translated as before, and the invariant of the tables holds.
\<close>

theorem alloc_pages_maps:
  assumes "vm_ok s" and "available (4 * n) (frames s)" and "page_aligned addr" and "n \<le> 2 ^ 36"
    and "\<forall>j < n. outside_window (addr + of_nat (4096 * j))"
    and "4096 * n < unat sz + 4096" and "unat sz \<le> 4096 * n"
  shows "\<exists>ps s'. alloc_pages addr sz s = Inr s' \<and> vm_ok s' \<and> length ps = n \<and> distinct ps
     \<and> set ps \<inter> used_frames (frames s) = {} \<and> set ps \<subseteq> used_frames (frames s')
     \<and> (\<forall>j < n. translate s' (addr + of_nat (4096 * j)) = Some (calc_page (ps ! j)))
     \<and> (\<forall>b. (\<forall>j < n. lin_path b \<noteq> lin_path (addr + of_nat (4096 * j))) \<longrightarrow> translate s' b = translate s b)"
  using alloc_pages_ok [OF assms] by blast

text \<open>
  C18. A page fault of the kernel on a page of its heap that is not present ends with that page
  translated to a frame that was free before, every other page as before; any other fault
  stops the processor.
\<close>

theorem page_fault_serves_heap:
  assumes "vm_ok s" and "available 4 (frames s)" and "outside_window addr"
  shows "if kernel_heap (kheap s) \<le> addr \<and> \<not> bit reg1 0 \<and> \<not> bit reg1 2
     then \<exists>p s'. page_fault_handler addr reg1 s = Inr s' \<and> vm_ok s' \<and> p \<notin> used_frames (frames s)
        \<and> p \<in> used_frames (frames s') \<and> translate s' addr = Some (calc_page p)
        \<and> (\<forall>b. lin_path b \<noteq> lin_path addr \<longrightarrow> translate s' b = translate s b)
     else page_fault_handler addr reg1 s = Inl Halt"
proof -
  have m: "TABLE_MASK = NOT (mask 12)" by (simp add: TABLE_MASK_def mask_eq_exp_minus_1)
  have bits: "take_bit 9 (drop_bit k (addr AND TABLE_MASK)) = take_bit 9 (drop_bit k addr)" if "12 \<le> k" for k
    unfolding m by (rule bit_word_eqI) (use that in \<open>auto simp: bit_simps simp del: mask_numeral dest: bit_imp_le_length\<close>)
  then have path: "lin_path (addr AND TABLE_MASK) = lin_path addr"
    by (simp add: lin_path_def lin_pml4_def lin_pdp_def lin_pd_def lin_pt_def)
  have w: "outside_window (addr AND TABLE_MASK)" using assms(3) path by (simp add: outside_window_def)
  have av: "available (0 + 4) (frames s)" using assms(2) by simp
  obtain p s' where "add_page calc_page (addr AND TABLE_MASK) s = Inr s'" "vm_ok s'"
    "p \<notin> used_frames (frames s)" "insert p (used_frames (frames s)) \<subseteq> used_frames (frames s')"
    "translate s' (addr AND TABLE_MASK) = Some (calc_page p)"
    "\<And>b. lin_path b \<noteq> lin_path (addr AND TABLE_MASK) \<Longrightarrow> translate s' b = translate s b"
    by (rule add_page_spec [where ent = calc_page, OF assms(1) w av]) auto
  then show ?thesis
    unfolding page_fault_handler_def add_page_def mount_page_def translate_def path by auto
qed

section \<open>Witnesses\<close>

definition demo_vm :: vm where
  "demo_vm = \<lparr>pmem = (\<lambda>_. 0), PML4 = 0x40000, kernel_pt = 0xFFFFFFFFC0080000, cr3 = 0x40000,
     frames = \<lparr>phys_map = [-1, -1, -1, -1, 1], phys_size = 5\<rparr>,
     kheap = \<lparr>kernel_heap = 0xFFFFFFFFC0200000, kernel_hlim = 0x100000, hdrs = Map.empty\<rparr>,
     irq = demo_intr, this_cpu = 0\<rparr>"

lemma demo_vm_sel: "pmem demo_vm = (\<lambda>_. 0)" "frames demo_vm = demo_phys" "root demo_vm = 0x40000"
    "kpt_slot demo_vm = 0x80000" "irq_ok demo_vm"
  by (simp_all add: demo_vm_def demo_phys_def root_def frame_of_eq kpt_slot_def irq_ok_def cpu_ok_def
      intr_depth_def demo_intr_def MAX_CPU_NR_def)

lemma demo_used: "n < 256 \<Longrightarrow> of_nat (4096 * n) \<in> used_frames demo_phys"
proof -
  assume n: "n < 256"
  then have "n div 64 = 0 \<or> n div 64 = 1 \<or> n div 64 = 2 \<or> n div 64 = 3" by linarith
  then have "phys_map demo_phys ! (n div 64) = - 1" by (auto simp: demo_phys_def)
  then have "busy demo_phys n" by (simp add: busy_def)
  moreover have "n < npages demo_phys" using n demo_phys_ok(2) by simp
  ultimately show ?thesis unfolding used_frames_def by blast
qed

lemma demo_vm_ok: "vm_ok demo_vm"
proof -
  have e: "page_aligned 0x40000" "page_aligned 0x80000" by (simp_all add: page_aligned_def)
  have u: "0x40000 \<in> used_frames demo_phys" "0x80000 \<in> used_frames demo_phys"
    using demo_used [of 64] demo_used [of 128] by simp_all
  have z: "\<forall>i < 512. pmem demo_vm (slot 0x40000 i) = 0" by (simp add: demo_vm_sel)
  note emp = empty_table [OF e(1) z]
  have t: "tab_at (pmem demo_vm) 0x40000 (butlast (lin_path a)) = None" for a
    by (simp add: lin_path_def demo_vm_sel)
  show ?thesis
    unfolding vm_ok_def tables_ok_def demo_vm_sel(2-4) emp(2)
    using demo_phys_ok(1) emp(1) e u t demo_vm_sel(1,5) by (simp add: clean_def)
qed

lemma demo_available: "available 8 (frames demo_vm)"
proof -
  have "(case take_frames alloc_phys_page 8 demo_phys of Inl _ \<Rightarrow> False | Inr (ps, _) \<Rightarrow> 0 \<notin> set ps)"
    by code_simp
  then show ?thesis unfolding available_def demo_vm_sel(2) by (auto split: sum.splits)
qed

lemma demo_outside: "outside_window 0x400000" "outside_window 0xFFFFFFFFC0300000" "outside_window (0x400000 + 0x1000)"
  by (simp_all add: outside_window_def lin_path_def lin_pml4_def lin_pdp_def lin_pd_def lin_pt_def TMP_MOUNT_ADDR_def)

theorem mount_page_do_refines_witness:
  "vm_ok demo_vm \<and> mount_page_do 0x400000 0x5003 demo_vm =
     rbind (map_path 0x5003 0x40000 (lin_path 0x400000) (pmem demo_vm, frames demo_vm))
       (\<lambda>(m, fr). Inr (pulse (demo_vm\<lparr>frames := fr, pmem := m\<rparr>)))"
  using mount_page_do_refines [OF demo_vm_ok demo_outside(1) available_mono [OF demo_available]]
    demo_vm_ok demo_vm_sel(3) by simp

theorem mount_page_maps_witness:
  "\<exists>s'. mount_page 0x5000 0x400000 demo_vm = Inr s' \<and> translate s' 0x400000 = Some (calc_page 0x5000)"
  using mount_page_maps [OF demo_vm_ok demo_outside(1) available_mono [OF demo_available], of "0x5000"] by auto

theorem umount_page_unmaps_witness:
  "\<exists>r s'. umount_page 0x400000 demo_vm = Inr (r, s') \<and> translate s' 0x400000 = None"
  using umount_page_unmaps [OF demo_vm_ok demo_outside(1)] by auto

theorem alloc_pages_maps_witness:
  "\<exists>p q s'. alloc_pages 0x400000 0x1800 demo_vm = Inr s' \<and> p \<noteq> q
     \<and> translate s' 0x400000 = Some (calc_page p) \<and> translate s' 0x401000 = Some (calc_page q)"
proof -
  have o: "\<forall>j < 2. outside_window (0x400000 + of_nat (4096 * j))"
    using demo_outside by (auto simp: less_Suc_eq numeral_2_eq_2)
  have a: "available (4 * 2) (frames demo_vm)" using demo_available by simp
  have al: "page_aligned 0x400000" by (simp add: page_aligned_def)
  obtain ps s' where r: "alloc_pages 0x400000 0x1800 demo_vm = Inr s'" "length ps = 2" "distinct ps"
    "\<forall>j < 2. translate s' (0x400000 + of_nat (4096 * j)) = Some (calc_page (ps ! j))"
    using alloc_pages_maps [OF demo_vm_ok a al _ o, of "0x1800"] by auto
  have "ps ! 0 \<noteq> ps ! 1" using r(2,3) by (simp add: nth_eq_iff_index_eq)
  moreover have "translate s' 0x400000 = Some (calc_page (ps ! 0))" "translate s' 0x401000 = Some (calc_page (ps ! 1))"
    using r(4) [rule_format, of 0] r(4) [rule_format, of 1] by simp_all
  ultimately show ?thesis using r(1) by blast
qed

theorem page_fault_serves_heap_witness:
  "\<exists>p s'. page_fault_handler 0xFFFFFFFFC0300000 0 demo_vm = Inr s'
     \<and> translate s' 0xFFFFFFFFC0300000 = Some (calc_page p)"
proof -
  have "kernel_heap (kheap demo_vm) \<le> 0xFFFFFFFFC0300000" by (simp add: demo_vm_def)
  then show ?thesis
    using page_fault_serves_heap [OF demo_vm_ok available_mono [OF demo_available] demo_outside(2), of 0] by auto
qed

text \<open>
  The tables that \<^verbatim>\<open>mount_page_do\<close> takes are not cleared: when the frame that becomes a table
  still holds a word of its former use, that word is taken for an entry, and mounting a
  page writes into the frame it points to, here a frame in use that is no table.
\<close>

theorem mount_page_stale_frame:
  "\<exists>s'. mount_page 0x5000 0 (demo_vm\<lparr>pmem := (\<lambda>a. if a = 0x101000 then 0x90003 else 0)\<rparr>) = Inr s'
     \<and> pmem s' 0x90000 = 0x102003 \<and> 0x90000 \<in> used_frames (frames demo_vm)"
proof -
  let ?s = "demo_vm\<lparr>pmem := (\<lambda>a. if a = 0x101000 then 0x90003 else 0)\<rparr>"
  have "(case mount_page 0x5000 0 ?s of Inl _ \<Rightarrow> False | Inr s' \<Rightarrow> pmem s' 0x90000 = 0x102003)"
    by code_simp
  moreover have "0x90000 \<in> used_frames (frames demo_vm)"
    using demo_used [of 144] by (simp add: demo_vm_sel(2))
  ultimately show ?thesis by (auto split: sum.splits)
qed

section \<open>Copying address spaces\<close>

lemma win_get_mounted:
  assumes "pmem s (kpt_slot s) = calc_page p"
  shows "win_get is s = Inr (map (\<lambda>i. pmem s (slot (frame_of p) i)) is)"
  by (induction "is") (simp_all add: win_read_def win_mounted [OF assms])

lemma read_page_eq:
  assumes "irq_ok s" and "pmem s (kpt_slot s) = 0"
  shows "read_page p s = Inr (map (\<lambda>i. ((pmem s)(kpt_slot s := calc_page p)) (slot (frame_of p) i)) [0..<512], pulse s)"
proof -
  let ?s = "pulse (s\<lparr>pmem := (pmem s)(kpt_slot s := calc_page p)\<rparr>)"
  have m: "mount_page_t p s = Inr ?s" by (rule mount_page_t_eq [OF assms(1)])
  have g: "win_get [0..<512] ?s = Inr (map (\<lambda>i. pmem ?s (slot (frame_of p) i)) [0..<512])"
    by (rule win_get_mounted) simp
  have "(pmem s)(kpt_slot s := 0) = pmem s" using assms(2) by auto
  then show ?thesis
    using m g by (simp add: read_page_def umount_page_t_def pwrite_def)
qed

text \<open>
  \<^verbatim>\<open>copy_page\<close> does not copy the table of the kernel: read through the window it shows itself
  in its entry 0, and its own address is returned, so that all address spaces share it.
  Nothing but the heap changes; the buffer taken from the heap is not given back.
\<close>

theorem copy_page_kernel_shared:
  assumes "vm_ok s" and "kernel_pt s AND 0x0FFFFFFF = kpt_slot s" and "kpt_slot s \<noteq> 0"
    and "kmalloc 4096 (kheap s) = Inr (b, H)" and "b \<noteq> 0"
  shows "copy_page 1 (kpt_slot s) s = Inr (kpt_slot s, pulse (s\<lparr>kheap := H\<rparr>))"
proof -
  let ?K = "kpt_slot s" and ?s = "s\<lparr>kheap := H\<rparr>"
  have ok: "irq_ok ?s" "pmem ?s (kpt_slot ?s) = 0" "page_aligned ?K" using assms(1) by (auto simp: vm_ok_def)
  have "kernel_pt s AND 0x0FFFFFFF \<le> 0x0FFFFFFF" by (rule word_and_le1)
  then have "unat ?K \<le> 0x0FFFFFFF" unfolding assms(2) by (simp add: word_le_nat_alt)
  then have fK: "frame_of ?K = ?K" using frame_of_small [OF ok(3)] by simp
  have "slot ?K 0 = ?K" by (simp add: slot_def)
  then obtain rest where r: "read_page ?K ?s = Inr (calc_page ?K # rest, pulse ?s)"
    using read_page_eq [OF ok(1,2), of ?K] by (simp add: fK upt_rec [of 0 512])
  have "push_bit 12 (pte_address (calc_page ?K)) = ?K"
    using frame_of_calc_page(1) [of ?K] fK by (simp add: frame_of_def)
  then have "copy_loop (copy_page 0) True 0 (calc_page ?K # rest) (pulse ?s) = Inr (None, pulse ?s)"
    using assms(2,3) by (simp add: Let_def)
  then show ?thesis
    using r assms(4,5) by (simp add: heap_alloc_def)
qed

text \<open>Writing a page through the window.\<close>

lemma win_put_mounted:
  assumes "pmem s (kpt_slot s) = calc_page p" and "page_aligned (kpt_slot s)" and "frame_of p \<noteq> kpt_slot s"
    and "k + length vs \<le> 512"
  shows "\<exists>m. win_put k vs s = Inr (s\<lparr>pmem := m\<rparr>) \<and> m (kpt_slot s) = calc_page p
     \<and> (\<forall>j < length vs. m (slot (frame_of p) (k + j)) = vs ! j)
     \<and> (\<forall>a. (\<forall>j < length vs. a \<noteq> slot (frame_of p) (k + j)) \<longrightarrow> m a = pmem s a)"
  using assms
proof (induction vs arbitrary: k s)
  case Nil
  then show ?case by (intro exI [of _ "pmem s"]) simp
next
  case (Cons v vs)
  let ?f = "frame_of p" and ?s = "s\<lparr>pmem := (pmem s)(slot (frame_of p) k := v)\<rparr>"
  have k: "k < 512" using Cons.prems(4) by simp
  have kp: "slot (kpt_slot s) 0 = kpt_slot s" by (simp add: slot_def)
  have ne: "slot ?f k \<noteq> kpt_slot s"
    using slot_inj [OF page_aligned_frame_of Cons.prems(2) k, of 0 p] Cons.prems(3) kp by auto
  have w: "win_write k v s = Inr ?s"
    by (simp add: win_write_def win_mounted [OF Cons.prems(1)] pwrite_def)
  have "pmem ?s (kpt_slot ?s) = calc_page p" using Cons.prems(1) ne by auto
  then obtain m where m: "win_put (Suc k) vs ?s = Inr (?s\<lparr>pmem := m\<rparr>)" "m (kpt_slot ?s) = calc_page p"
    "\<forall>j < length vs. m (slot ?f (Suc k + j)) = vs ! j"
    "\<forall>a. (\<forall>j < length vs. a \<noteq> slot ?f (Suc k + j)) \<longrightarrow> m a = pmem ?s a"
    using Cons.IH [of ?s "Suc k"] Cons.prems by auto
  have "slot ?f k \<noteq> slot ?f (Suc k + j)" if "j < length vs" for j
    using slot_inj [OF page_aligned_frame_of page_aligned_frame_of k, of "Suc k + j" p p] Cons.prems(4) that by simp
  then have mk: "m (slot ?f k) = v" using m(4) by simp
  have "m (slot ?f (k + j)) = (v # vs) ! j" if "j < length (v # vs)" for j
    using mk m(3) that by (cases j) auto
  moreover have "m a = pmem s a" if a: "\<forall>j < length (v # vs). a \<noteq> slot ?f (k + j)" for a
  proof -
    have "a \<noteq> slot ?f k" using a by (metis add_0_right length_Cons zero_less_Suc)
    moreover have "\<forall>j < length vs. a \<noteq> slot ?f (Suc k + j)"
      using a by (metis Suc_less_eq add_Suc add_Suc_right length_Cons)
    ultimately show ?thesis using m(4) by simp
  qed
  ultimately show ?case using w m(1,2) by (intro exI [of _ m]) simp
qed

lemma write_page_eq:
  assumes "irq_ok s" and "pmem s (kpt_slot s) = 0" and "page_aligned (kpt_slot s)"
    and "frame_of p \<noteq> kpt_slot s" and "length buf = 512"
  obtains m where "write_page p buf s = Inr (pulse (s\<lparr>pmem := m\<rparr>))"
    and "\<And>j. j < 512 \<Longrightarrow> m (slot (frame_of p) j) = buf ! j"
    and "\<And>a. (\<forall>j < 512. a \<noteq> slot (frame_of p) j) \<Longrightarrow> m a = pmem s a"
proof -
  let ?k = "kpt_slot s" and ?s = "pulse (s\<lparr>pmem := (pmem s)(kpt_slot s := calc_page p)\<rparr>)"
  have mt: "mount_page_t p s = Inr ?s" by (rule mount_page_t_eq [OF assms(1)])
  obtain m where m: "win_put 0 buf ?s = Inr (?s\<lparr>pmem := m\<rparr>)"
    "\<forall>j < 512. m (slot (frame_of p) j) = buf ! j"
    "\<forall>a. (\<forall>j < 512. a \<noteq> slot (frame_of p) j) \<longrightarrow> m a = pmem ?s a"
    using win_put_mounted [of ?s p 0 buf] assms(3-5) by auto
  have kp: "slot ?k 0 = ?k" by (simp add: slot_def)
  have ne: "slot (frame_of p) j \<noteq> ?k" if "j < 512" for j
    using slot_inj [OF page_aligned_frame_of assms(3) that, of 0 p] assms(4) kp by auto
  show thesis
  proof (rule that [of "m(?k := 0)"])
    show "write_page p buf s = Inr (pulse (s\<lparr>pmem := m(?k := 0)\<rparr>))"
      using mt m(1) by (simp add: write_page_def umount_page_t_def pwrite_def)
    show "(m(?k := 0)) (slot (frame_of p) j) = buf ! j" if "j < 512" for j
      using m(2) ne [OF that] that by simp
    show "(m(?k := 0)) a = pmem s a" if "\<forall>j < 512. a \<noteq> slot (frame_of p) j" for a
      using m(3) that assms(2) by auto
  qed
qed

text \<open>
  C19. \<^verbatim>\<open>copy_page\<close> of a data page returns a frame that was free before and now holds the same 4096
  bytes; no other frame but the bitmap's and the heap's changes, and the buffer goes back to
  the heap.
\<close>

theorem copy_page_data:
  assumes "vm_ok s" and "available 1 (frames s)" and "heap_inv (kheap s)"
    and "kmalloc 4096 (kheap s) = Inr (b, H)" and "b \<noteq> 0" and "frame_of f = f" and "f \<noteq> kpt_slot s"
  shows "\<exists>q s'. copy_page 0 f s = Inr (q, s') \<and> q \<notin> used_frames (frames s) \<and> q \<in> used_frames (frames s')
     \<and> (\<forall>j < 512. pmem s' (slot q j) = pmem s (slot f j))
     \<and> (\<forall>a. (\<forall>j < 512. a \<noteq> slot q j) \<longrightarrow> pmem s' a = pmem s a)
     \<and> heap_inv (kheap s') \<and> heap_live (kheap s') = heap_live (kheap s)"
proof -
  let ?K = "kpt_slot s" and ?s = "s\<lparr>kheap := H\<rparr>"
  have ok: "irq_ok ?s" "pmem ?s (kpt_slot ?s) = 0" "page_aligned ?K" "?K \<in> used_frames (frames s)"
    "phys_ok (frames s)"
    using assms(1) by (auto simp: vm_ok_def tables_ok_def)
  obtain k where k: "heap_inv H" "unat (4096 :: u64) \<le> k" "heap_live H = insert (unat b, k) (heap_live (kheap s))"
    "\<forall>c \<in> heap_live (kheap s). apart (unat b, k) c"
    using kheap.malloc_live [OF assms(3-5)] by blast
  then have "(unat b, k) \<notin> heap_live (kheap s)" by (auto simp: apart_def)
  then obtain H' where H': "kfree b H = Inr H'" "heap_inv H'" "heap_live H' = heap_live (kheap s)"
    using kheap.dealloc_live [OF k(1), of b k] k(3) by auto
  have sl: "slot f j \<noteq> ?K" if "j < 512" for j
    using slot_inj [OF page_aligned_frame_of ok(3) that, of 0 f] assms(6,7) by (auto simp: slot_def)
  let ?buf = "map (\<lambda>j. pmem s (slot f j)) [0..<512]"
  have rd: "read_page f ?s = Inr (?buf, pulse ?s)"
    using read_page_eq [OF ok(1,2), of f] sl assms(6) by (auto simp: fun_upd_def)
  have av: "available (Suc 0) (frames s)" using assms(2) by simp
  obtain q fr where q: "alloc_phys_page (frames s) = Inr (q, fr)" "q \<noteq> 0" "phys_ok fr"
    "q \<notin> used_frames (frames s)" "used_frames fr = insert q (used_frames (frames s))"
    using available_used [OF ok(5) av] by metis
  have fq: "frame_of q = q"
    using frame_of_small free_frame_small [OF ok(5) alloc_free_frame(1) [OF ok(5) q(1,2)]] by blast
  let ?t = "pulse (s\<lparr>kheap := H, frames := fr\<rparr>)"
  have t: "irq_ok ?t" "pmem ?t (kpt_slot ?t) = 0" "page_aligned (kpt_slot ?t)" "frame_of q \<noteq> kpt_slot ?t"
    using ok q(4) fq by auto
  obtain m where m: "write_page q ?buf ?t = Inr (pulse (?t\<lparr>pmem := m\<rparr>))"
    "\<And>j. j < 512 \<Longrightarrow> m (slot (frame_of q) j) = ?buf ! j"
    "\<And>a. (\<forall>j < 512. a \<noteq> slot (frame_of q) j) \<Longrightarrow> m a = pmem ?t a"
    by (rule write_page_eq [OF t, of ?buf]) auto
  let ?r = "pulse (s\<lparr>kheap := H, frames := fr, pmem := m, kheap := H'\<rparr>)"
  have "copy_page 0 f s = Inr (q, ?r)"
    using assms(4,5) rd q(1) m(1) H'(1)
    by (simp add: heap_alloc_def copy_out_def alloc_frame_vm_def heap_free_def)
  then show ?thesis
    using q(4,5) m(2,3) fq H'(2,3) by (intro exI [of _ q] exI [of _ ?r]) simp
qed

section \<open>The tables built at boot\<close>

lemma fold_pwrite:
  assumes "page_aligned f" and "\<forall>i \<in> set is. i < 512"
  shows "\<exists>m. fold (\<lambda>i. pwrite (slot f i) (g i)) is s = s\<lparr>pmem := m\<rparr>
     \<and> (\<forall>h j. page_aligned h \<longrightarrow> j < 512 \<longrightarrow>
          m (slot h j) = (if h = f \<and> j \<in> set is then g j else pmem s (slot h j)))"
  using assms(2)
proof (induction "is" arbitrary: s)
  case Nil
  show ?case by (rule exI [of _ "pmem s"]) simp
next
  case (Cons i "is")
  let ?s = "pwrite (slot f i) (g i) s"
  obtain m where m: "fold (\<lambda>i. pwrite (slot f i) (g i)) is ?s = ?s\<lparr>pmem := m\<rparr>"
    "\<forall>h j. page_aligned h \<longrightarrow> j < 512 \<longrightarrow>
       m (slot h j) = (if h = f \<and> j \<in> set is then g j else pmem ?s (slot h j))"
    using Cons.IH [of ?s] Cons.prems by auto
  have "m (slot h j) = (if h = f \<and> j \<in> set (i # is) then g j else pmem s (slot h j))"
    if "page_aligned h" "j < 512" for h j
    using m(2) that slot_inj [OF that(1) assms(1) that(2), of i] Cons.prems by (auto simp: pwrite_def)
  moreover have "?s\<lparr>pmem := m\<rparr> = s\<lparr>pmem := m\<rparr>" by (simp add: pwrite_def)
  ultimately show ?case using m(1) by (intro exI [of _ m]) simp
qed

lemma zero_words_pmem:
  assumes "page_aligned f"
  obtains m where "zero_words f s = s\<lparr>pmem := m\<rparr>"
    and "\<And>h j. page_aligned h \<Longrightarrow> j < 512 \<Longrightarrow> m (slot h j) = (if h = f then 0 else pmem s (slot h j))"
  using fold_pwrite [OF assms, of "[0..<512]" "\<lambda>_. 0" s] that by (auto simp: zero_words_def)

text \<open>A cleared table with one entry.\<close>

lemma one_entry:
  assumes "page_aligned f" and "i < 512"
  obtains m where "pwrite (slot f i) e (zero_words f s) = s\<lparr>pmem := m\<rparr>"
    and "\<And>h j. page_aligned h \<Longrightarrow> j < 512 \<Longrightarrow>
      m (slot h j) = (if h = f then (if j = i then e else 0) else pmem s (slot h j))"
proof -
  obtain m where m: "zero_words f s = s\<lparr>pmem := m\<rparr>"
    "\<And>h j. page_aligned h \<Longrightarrow> j < 512 \<Longrightarrow> m (slot h j) = (if h = f then 0 else pmem s (slot h j))"
    by (rule zero_words_pmem [OF assms(1)]) blast
  show thesis
  proof (rule that [of "m(slot f i := e)"])
    show "pwrite (slot f i) e (zero_words f s) = s\<lparr>pmem := m(slot f i := e)\<rparr>"
      by (simp add: m(1) pwrite_def)
    show "(m(slot f i := e)) (slot h j) = (if h = f then (if j = i then e else 0) else pmem s (slot h j))"
      if "page_aligned h" "j < 512" for h j
      using m(2) [OF that] slot_inj [OF that(1) assms(1) that(2) assms(2)] by auto
  qed
qed

lemma kernel_table:
  assumes "page_aligned f" and "unat f < 0x200000"
  obtains m where "init_entries f (zero_words f s) = s\<lparr>pmem := m\<rparr>"
    and "\<And>h j. page_aligned h \<Longrightarrow> j < 512 \<Longrightarrow> m (slot h j) =
      (if h = f then (if 0xB8 \<le> j \<and> j \<le> unat f div 4096 then calc_page (push_bit 12 (of_nat j)) else 0)
       else pmem s (slot h j))"
proof -
  obtain m where m: "zero_words f s = s\<lparr>pmem := m\<rparr>"
    "\<And>h j. page_aligned h \<Longrightarrow> j < 512 \<Longrightarrow> m (slot h j) = (if h = f then 0 else pmem s (slot h j))"
    by (rule zero_words_pmem [OF assms(1)]) blast
  let ?is = "[0xB8..<Suc (unat (drop_bit 12 f))]"
  have u: "unat (drop_bit 12 f) = unat f div 4096"
    by (simp only: unat_drop_bit_eq drop_bit_nat_def) simp
  then have lt: "\<forall>i \<in> set ?is. i < 512" using assms(2) by auto
  obtain m' where m': "init_entries f (s\<lparr>pmem := m\<rparr>) = s\<lparr>pmem := m'\<rparr>"
    "\<forall>h j. page_aligned h \<longrightarrow> j < 512 \<longrightarrow>
       m' (slot h j) = (if h = f \<and> j \<in> set ?is then calc_page (push_bit 12 (of_nat j)) else m (slot h j))"
    using fold_pwrite [OF assms(1) lt, of "\<lambda>n. calc_page (push_bit 12 (of_nat n))" "s\<lparr>pmem := m\<rparr>"]
    unfolding init_entries_def by (auto simp del: upt_Suc)
  show thesis
  proof (rule that [of m'])
    show "init_entries f (zero_words f s) = s\<lparr>pmem := m'\<rparr>" using m(1) m'(1) by simp
    show "m' (slot h j) = (if h = f then (if 0xB8 \<le> j \<and> j \<le> unat f div 4096 then calc_page (push_bit 12 (of_nat j)) else 0)
       else pmem s (slot h j))" if "page_aligned h" "j < 512" for h j
    proof -
      have "j \<in> set ?is \<longleftrightarrow> 0xB8 \<le> j \<and> j \<le> unat f div 4096"
        by (simp add: u less_Suc_eq_le del: upt_Suc)
      then show ?thesis
        using m'(2) [rule_format, OF that] m(2) [OF that] by (cases "h = f") auto
    qed
  qed
qed

lemma page_aligned_add:
  assumes "page_aligned a"
  shows "page_aligned (a + of_nat (4096 * k))"
proof -
  have b: "page_aligned b \<longleftrightarrow> unat b mod 4096 = 0" for b
    by (simp add: page_aligned_def word_unat_eq_iff unsigned_take_bit_eq take_bit_nat_def)
  have "unat (a + of_nat (4096 * k)) = (unat a + 4096 * k) mod 2 ^ 64"
    by (simp only: unat_word_ariths unat_of_nat) (simp add: mod_simps)
  then have "unat (a + of_nat (4096 * k)) mod 4096 = (unat a + 4096 * k) mod 4096"
    by (simp add: mod_mod_cancel del: of_nat_mult)
  then show ?thesis using assms unfolding b by simp
qed

lemma irq_bracket_cr3:
  assumes "irq_ok s"
  shows "rbind (irq_off s) (\<lambda>s. irq_on (cr3_load (PML4 s) s)) = Inr (pulse (cr3_load (PML4 s) s))"
proof -
  let ?c = "this_cpu s" and ?q = "irq s"
  have c: "?c < length (intr_sema ?q)" and d: "unat (intr_sema ?q ! ?c) < 255"
    using assms by (auto simp: irq_ok_def cpu_ok_def intr_depth_def)
  have "unat (intr_sema ?q ! ?c + 1) = unat (intr_sema ?q ! ?c) + 1"
    using d by (simp add: unat_word_ariths)
  then have "intr_sema ?q ! ?c + 1 \<noteq> 0" by (metis add_is_0 one_neq_zero unat_0)
  moreover have "intr_sema ?q ! ?c = 0 \<longleftrightarrow> unat (intr_sema ?q ! ?c) = 0"
    by (simp add: word_unat_eq_iff)
  ultimately show ?thesis
    using c by (simp add: irq_off_def irq_on_def intr_disable_def intr_enable_def cr3_load_def
        pulse_def intr_depth_def Let_def)
qed

text \<open>The memory image that \<^verbatim>\<open>page_init\<close> leaves.\<close>

lemma page_init_image:
  assumes "page_aligned lst" and "unat lst + 0x3000 < 0x200000" and "irq_ok s"
  obtains m where "page_init lst s = Inr (lst + 0x4000, pulse (cr3_load lst
      (s\<lparr>kernel_pt := (lst + 0x3000) OR 0xFFFFFFFFC0000000, PML4 := lst, pmem := m\<rparr>)))"
    and "\<And>j. j < 512 \<Longrightarrow> m (slot lst j) = (if j = 511 then calc_page (lst + 0x1000) else 0)"
    and "\<And>j. j < 512 \<Longrightarrow> m (slot (lst + 0x1000) j) = (if j = 511 then calc_page (lst + 0x2000) else 0)"
    and "\<And>j. j < 512 \<Longrightarrow> m (slot (lst + 0x2000) j) = (if j = 0 then calc_page (lst + 0x3000) else 0)"
    and "\<And>j. j < 512 \<Longrightarrow> m (slot (lst + 0x3000) j) =
      (if 0xB8 \<le> j \<and> j \<le> unat lst div 4096 + 3 then calc_page (push_bit 12 (of_nat j)) else 0)"
    and "\<And>h j. page_aligned h \<Longrightarrow> j < 512 \<Longrightarrow> h \<notin> {lst, lst + 0x1000, lst + 0x2000, lst + 0x3000} \<Longrightarrow>
      m (slot h j) = pmem s (slot h j)"
proof -
  have al: "page_aligned lst" "page_aligned (lst + 0x1000)" "page_aligned (lst + 0x2000)" "page_aligned (lst + 0x3000)"
    using assms(1) page_aligned_add [OF assms(1), of 1] page_aligned_add [OF assms(1), of 2]
      page_aligned_add [OF assms(1), of 3] by simp_all
  have u3: "unat (lst + 0x3000) = unat lst + 0x3000"
    using unat_add_of_nat [of lst "0x3000"] assms(2) by simp
  have ne: "lst \<noteq> lst + 0x1000" "lst \<noteq> lst + 0x2000" "lst \<noteq> lst + 0x3000" "lst + 0x1000 \<noteq> lst + 0x2000"
    "lst + 0x1000 \<noteq> lst + 0x3000" "lst + 0x2000 \<noteq> lst + 0x3000"
    by simp_all
  let ?s0 = "s\<lparr>kernel_pt := 0xD000, PML4 := lst\<rparr>"
  obtain m1 where m1: "pwrite (slot lst 511) (calc_page (lst + 0x1000)) (zero_words lst ?s0) = ?s0\<lparr>pmem := m1\<rparr>"
    "\<And>h j. page_aligned h \<Longrightarrow> j < 512 \<Longrightarrow> m1 (slot h j) =
      (if h = lst then (if j = 511 then calc_page (lst + 0x1000) else 0) else pmem ?s0 (slot h j))"
    by (rule one_entry [OF al(1), where i = 511 and e = "calc_page (lst + 0x1000)" and s = ?s0]) auto
  obtain m2 where m2: "pwrite (slot (lst + 0x1000) 511) (calc_page (lst + 0x2000)) (zero_words (lst + 0x1000) (?s0\<lparr>pmem := m1\<rparr>))
      = ?s0\<lparr>pmem := m2\<rparr>"
    "\<And>h j. page_aligned h \<Longrightarrow> j < 512 \<Longrightarrow> m2 (slot h j) =
      (if h = lst + 0x1000 then (if j = 511 then calc_page (lst + 0x2000) else 0) else m1 (slot h j))"
    by (rule one_entry [OF al(2), where i = 511 and e = "calc_page (lst + 0x2000)" and s = "?s0\<lparr>pmem := m1\<rparr>"]) auto
  obtain m3 where m3: "pwrite (slot (lst + 0x2000) 0) (calc_page (lst + 0x3000)) (zero_words (lst + 0x2000) (?s0\<lparr>pmem := m2\<rparr>))
      = ?s0\<lparr>pmem := m3\<rparr>"
    "\<And>h j. page_aligned h \<Longrightarrow> j < 512 \<Longrightarrow> m3 (slot h j) =
      (if h = lst + 0x2000 then (if j = 0 then calc_page (lst + 0x3000) else 0) else m2 (slot h j))"
    by (rule one_entry [OF al(3), where i = 0 and e = "calc_page (lst + 0x3000)" and s = "?s0\<lparr>pmem := m2\<rparr>"]) auto
  have b: "unat (lst + 0x3000) < 0x200000" using u3 assms(2) by simp
  obtain m4 where m4: "init_entries (lst + 0x3000) (zero_words (lst + 0x3000) (?s0\<lparr>pmem := m3\<rparr>)) = ?s0\<lparr>pmem := m4\<rparr>"
    "\<And>h j. page_aligned h \<Longrightarrow> j < 512 \<Longrightarrow> m4 (slot h j) =
      (if h = lst + 0x3000 then (if 0xB8 \<le> j \<and> j \<le> unat (lst + 0x3000) div 4096
         then calc_page (push_bit 12 (of_nat j)) else 0) else m3 (slot h j))"
    by (rule kernel_table [OF al(4) b, of "?s0\<lparr>pmem := m3\<rparr>"]) auto
  let ?s4 = "s\<lparr>kernel_pt := (lst + 0x3000) OR 0xFFFFFFFFC0000000, PML4 := lst, pmem := m4\<rparr>"
  have "irq_ok ?s4" using assms(3) by (simp add: irq_ok_def)
  note br = irq_bracket_cr3 [OF this]
  have e: "?s0\<lparr>pmem := m4\<rparr>\<lparr>kernel_pt := (lst + 0x3000) OR 0xFFFFFFFFC0000000\<rparr> = ?s4" by simp
  have sums: "lst + 0x1000 + 0x1000 = lst + 0x2000" "lst + 0x2000 + 0x1000 = lst + 0x3000"
    "lst + 0x3000 + 0x1000 = lst + 0x4000"
    by simp_all
  have "page_init lst s = rbind (rbind (irq_off ?s4) (\<lambda>s. irq_on (cr3_load (PML4 s) s))) (\<lambda>s. Inr (lst + 0x4000, s))"
    unfolding page_init_def Let_def sums m1(1) m2(1) m3(1) m4(1) e rbind_assoc by (rule refl)
  then have "page_init lst s = Inr (lst + 0x4000, pulse (cr3_load lst ?s4))"
    using br by simp
  moreover have "unat (lst + 0x3000) div 4096 = unat lst div 4096 + 3" using u3 by simp
  ultimately show thesis
    using that [of m4] m4(2) m3(2) m2(2) m1(2) al ne by simp
qed

text \<open>
  \<^verbatim>\<open>page_init\<close> returns with new tables loaded in \<^verbatim>\<open>cr3\<close> in which, of the kernel's first two
  megabytes, exactly the pages from \<open>0xB8000\<close> to the last table are mapped, each at its
  physical address above \<open>0xFFFFFFFFC0000000\<close>, everything else is unmapped, and the table
  of the window is \<^verbatim>\<open>kernel_pt\<close>.
\<close>

theorem page_init_maps:
  assumes "page_aligned lst" and "unat lst + 0x3000 < 0x200000" and "irq_ok s"
  shows "\<exists>s'. page_init lst s = Inr (lst + 0x4000, s') \<and> cr3 s' = lst \<and> PML4 s' = lst
     \<and> kpt_slot s' = lst + 0x3000
     \<and> tab_at (pmem s') (root s') (butlast (lin_path TMP_MOUNT_ADDR)) = Some (kpt_slot s')
     \<and> (\<forall>a. translate s' a =
          (if butlast (lin_path a) = [511, 511, 0] \<and> 0xB8 \<le> lin_pt a \<and> lin_pt a \<le> unat lst div 4096 + 3
           then Some (calc_page (push_bit 12 (of_nat (lin_pt a)))) else None))"
proof -
  obtain m where r: "page_init lst s = Inr (lst + 0x4000, pulse (cr3_load lst
      (s\<lparr>kernel_pt := (lst + 0x3000) OR 0xFFFFFFFFC0000000, PML4 := lst, pmem := m\<rparr>)))" (is "_ = Inr (_, ?s)")
    and m: "\<And>j. j < 512 \<Longrightarrow> m (slot lst j) = (if j = 511 then calc_page (lst + 0x1000) else 0)"
    "\<And>j. j < 512 \<Longrightarrow> m (slot (lst + 0x1000) j) = (if j = 511 then calc_page (lst + 0x2000) else 0)"
    "\<And>j. j < 512 \<Longrightarrow> m (slot (lst + 0x2000) j) = (if j = 0 then calc_page (lst + 0x3000) else 0)"
    "\<And>j. j < 512 \<Longrightarrow> m (slot (lst + 0x3000) j) =
      (if 0xB8 \<le> j \<and> j \<le> unat lst div 4096 + 3 then calc_page (push_bit 12 (of_nat j)) else 0)"
    by (rule page_init_image [OF assms]) blast
  have fr: "frame_of (lst + of_nat (4096 * k)) = lst + of_nat (4096 * k)" if "k \<le> 3" for k
  proof (rule frame_of_small [OF page_aligned_add [OF assms(1)]])
    show "unat (lst + of_nat (4096 * k)) < 2 ^ 52"
      using unat_add_of_nat [of lst "4096 * k"] assms(2) that by (simp del: of_nat_mult)
  qed
  have f: "frame_of lst = lst" "frame_of (lst + 0x1000) = lst + 0x1000"
    "frame_of (lst + 0x2000) = lst + 0x2000" "frame_of (lst + 0x3000) = lst + 0x3000"
    using fr [of 0] fr [of 1] fr [of 2] fr [of 3] by simp_all
  have kpt: "((lst + 0x3000) OR 0xFFFFFFFFC0000000) AND 0x3FFFFFFF = lst + 0x3000"
  proof (rule kernel_base_and)
    show "unat (lst + 0x3000) < 2 ^ 30"
      using unat_add_of_nat [of lst "0x3000"] assms(2) by simp
  qed
  have s: "pmem ?s = m" "root ?s = lst" "PML4 ?s = lst" "cr3 ?s = lst" "kpt_slot ?s = lst + 0x3000"
    using f(1) frame_of_eq [of lst] kpt by (simp_all add: root_def cr3_load_def kpt_slot_def)
  have nz: "calc_page x \<noteq> 0" for x using frame_of_calc_page(2) [of x] by (metis bit_0_eq bot_apply bot_bool_def)
  have tab: "tab_at m lst [511, 511, 0] = Some (lst + 0x3000)"
    using m(1-3) f nz by simp
  have "translate ?s a = (if butlast (lin_path a) = [511, 511, 0] \<and> 0xB8 \<le> lin_pt a \<and> lin_pt a \<le> unat lst div 4096 + 3
      then Some (calc_page (push_bit 12 (of_nat (lin_pt a)))) else None)" for a
    using lin_path_ok [of a] m f nz unfolding translate_def s lin_path_def
    by (simp add: path_ok_def Let_def)
  then show ?thesis
    using r s tab by (intro exI [of _ ?s]) (simp add: lin_path_window del: tab_at.simps)
qed

text \<open>The witnesses for copying and for the boot tables.\<close>

definition demo_vm_heap :: vm where
  "demo_vm_heap = demo_vm\<lparr>kheap := boot_heap\<rparr>"

lemma demo_heap_ok: "vm_ok demo_vm_heap" "kpt_slot demo_vm_heap = 0x80000" "kheap demo_vm_heap = boot_heap"
    "kernel_pt demo_vm_heap AND 0x0FFFFFFF = 0x80000" "frames demo_vm_heap = frames demo_vm"
proof -
  show "vm_ok demo_vm_heap"
    using demo_vm_ok by (simp add: demo_vm_heap_def vm_ok_def root_def)
  show "kernel_pt demo_vm_heap AND 0x0FFFFFFF = 0x80000"
    by (simp add: demo_vm_heap_def demo_vm_def)
qed (simp_all add: demo_vm_heap_def demo_vm_sel)

lemma demo_kmalloc:
  obtains H where "kmalloc 4096 boot_heap = Inr (0xFFFFFFFFC0200010, H)"
  using kmalloc_found [OF boot_heap_rep(1), of 4096 0 "[(4096, False), (0x3FDFEFE0, True)]"]
  by (auto simp: boot_heap_rep split_chunk_def chunk_at_def)

theorem copy_page_kernel_shared_witness:
  "\<exists>s'. copy_page 1 0x80000 demo_vm_heap = Inr (0x80000, s')"
proof -
  obtain H where "kmalloc 4096 boot_heap = Inr (0xFFFFFFFFC0200010, H)" by (rule demo_kmalloc)
  then show ?thesis
    using copy_page_kernel_shared [OF demo_heap_ok(1), of "0xFFFFFFFFC0200010" H] demo_heap_ok by simp
qed

theorem copy_page_data_witness:
  "\<exists>q s'. copy_page 0 0x90000 demo_vm_heap = Inr (q, s') \<and> q \<notin> used_frames (frames demo_vm_heap)"
proof -
  obtain H where H: "kmalloc 4096 boot_heap = Inr (0xFFFFFFFFC0200010, H)" by (rule demo_kmalloc)
  have inv: "heap_inv (kheap demo_vm_heap)"
    using boot_heap_rep demo_heap_ok(3) by (force simp: heap_inv_def)
  have av: "available 1 (frames demo_vm_heap)"
    using available_mono [OF demo_available, of 1] demo_heap_ok(5) by simp
  show ?thesis
    using copy_page_data [OF demo_heap_ok(1) av inv, of "0xFFFFFFFFC0200010" H "0x90000"] H demo_heap_ok(2,3)
    by (auto simp: frame_of_eq)
qed

theorem page_init_maps_witness:
  "\<exists>s'. page_init 0x110000 demo_vm = Inr (0x114000, s')
     \<and> translate s' 0xFFFFFFFFC00B8000 = Some (calc_page 0xB8000)"
proof -
  have "page_aligned 0x110000" by (simp add: page_aligned_def)
  moreover have "lin_path 0xFFFFFFFFC00B8000 = [511, 511, 0, 0xB8]" "lin_pt 0xFFFFFFFFC00B8000 = 0xB8"
    by (simp_all add: lin_path_def lin_pml4_def lin_pdp_def lin_pd_def lin_pt_def)
  ultimately show ?thesis
    using page_init_maps [of "0x110000" demo_vm] demo_vm_sel(5) by auto
qed

end
