(* ===== verification/Boot.thy ===== *)
theory Boot
  imports Page
begin

text \<open>
  Memory initialisation at boot: the structures the boot loader passes (\<^verbatim>\<open>kernel/multiboot.h\<close>),
  \<^verbatim>\<open>phys_init\<close> with its mapping of the bitmap and of the boot loader's structures, and
  \<^verbatim>\<open>mem_init\<close>, which builds the page tables, the page bitmap and the kernel heap in turn.
\<close>

record elf_section_header_table =
  sht_num :: u32
  sht_size :: u32
  sht_addr :: u32
  sht_shndx :: u32

record multiboot_info =
  flags8 :: u32
  mem_lower :: u32
  mem_upper :: u32
  boot_device :: u32
  cmdline :: u32
  mods_count :: u32
  mods_addr :: u32
  elf_sec :: elf_section_header_table
  mmap_length :: u32
  mmap_addr :: u32
  drives_length :: u32
  drives_addr :: u32
  config_table :: u32
  boot_loader_name :: u32
  apm_table :: u32
  vbe_control_info :: u32
  vbe_mode_info :: u32
  vbe_mode :: u16
  vbe_interface_seg :: u16
  vbe_interface_off :: u16
  vbe_interface_len :: u16

definition KBASE :: u64 where
  "KBASE = 0xFFFFFFFFC0000000"

text \<open>The loop that maps the pages of the bitmap, one for every 128 megabytes.\<close>

function mount_map :: "nat \<Rightarrow> u64 \<Rightarrow> u64 \<Rightarrow> vm \<Rightarrow> (u64 \<times> vm) res" where
  "mount_map sz memsize lst s =
     (if sz < unat memsize then
        (case mount_page lst (KBASE OR lst) s of
           Inl e \<Rightarrow> Inl e
         | Inr s' \<Rightarrow> mount_map (sz + 128) memsize (lst + 0x1000) s')
      else Inr (lst, s))"
  by pat_completeness auto
termination
  by (relation "measure (\<lambda>(sz, memsize, lst, s). unat memsize - sz)") auto

declare mount_map.simps [simp del]

text \<open>
  \<^verbatim>\<open>phys_init\<close>. While its pages are being mapped the bitmap cannot be read, so it is empty in
  the model: a call of \<^verbatim>\<open>alloc_phys_page\<close> at that point is a fault. \<open>mb\<close> is the physical address of the
  boot loader's structure and \<open>MB\<close> its contents; \<open>M\<close> holds the memory map at kernel addresses.
  The read of \<^verbatim>\<open>mb->mmap_addr\<close> after \<^verbatim>\<open>umount_page(mb)\<close> is served from the processor's
  translation cache, which the code does not flush.
\<close>

definition phys_init :: "u64 \<Rightarrow> u64 \<Rightarrow> u64 \<Rightarrow> multiboot_info \<Rightarrow> mmap_mem \<Rightarrow> vm
    \<Rightarrow> (u64 \<times> mmap_mem \<times> vm) res" where
  "phys_init lst memsize mb MB M s =
     rbind (mount_map 0 memsize lst (s\<lparr>frames := \<lparr>phys_map = [], phys_size = push_bit 2 memsize\<rparr>\<rparr>)) (\<lambda>(lst, s).
     rbind (mount_page mb (KBASE OR mb) (s\<lparr>frames := phys_fill memsize\<rparr>)) (\<lambda>s.
     let mmap = ucast (mmap_addr MB) in
     rbind (mount_page mmap (KBASE OR mmap) s) (\<lambda>s.
     rbind (of_loop (mmap_loop lst ((KBASE OR mmap) + ucast (mmap_length MB)) (KBASE OR mmap) (M, frames s))) (\<lambda>(M, fr).
     rbind (umount_page (KBASE OR mb) (s\<lparr>frames := fr\<rparr>)) (\<lambda>(_, s).
     rbind (umount_page (KBASE OR mmap) s) (\<lambda>(_, s).
     Inr (lst, M, s)))))))"

definition mem_init :: "u64 \<Rightarrow> u64 \<Rightarrow> u64 \<Rightarrow> multiboot_info \<Rightarrow> mmap_mem \<Rightarrow> vm \<Rightarrow> (mmap_mem \<times> vm) res" where
  "mem_init pl_addr pl_size mb MB M s =
     rbind (page_init ((pl_addr AND 0x0FFFF000) + 0x1000) s) (\<lambda>(last_page, s).
     rbind (phys_init last_page pl_size mb MB M s) (\<lambda>(last_page, M, s).
     Inr (M, s\<lparr>kheap := heap_setup last_page (kheap s)\<rparr>)))"

section \<open>Mounting into the kernel's table\<close>

text \<open>The tables that \<^verbatim>\<open>page_init\<close> leaves, at \<open>L\<close> and in the three frames after it.\<close>

definition boot_tables :: "u64 \<Rightarrow> vm \<Rightarrow> bool" where
  "boot_tables L s \<longleftrightarrow> irq_ok s \<and> PML4 s = L \<and> kpt_slot s = L + 0x3000 \<and> pmem s (L + 0x3000) = 0
     \<and> pmem s (slot L 511) = calc_page (L + 0x1000)
     \<and> pmem s (slot (L + 0x1000) 511) = calc_page (L + 0x2000)
     \<and> pmem s (slot (L + 0x2000) 0) = calc_page (L + 0x3000)"

definition low_frame :: "u64 \<Rightarrow> bool" where
  "low_frame L \<longleftrightarrow> page_aligned L \<and> unat L + 0x3000 < 0x200000"

lemma low_frames:
  assumes "low_frame L"
  shows "frame_of L = L" "frame_of (L + 0x1000) = L + 0x1000" "frame_of (L + 0x2000) = L + 0x2000"
    "frame_of (L + 0x3000) = L + 0x3000"
proof -
  have fr: "frame_of (L + of_nat (4096 * k)) = L + of_nat (4096 * k)" if "k \<le> 3" for k
  proof (rule frame_of_small)
    show "page_aligned (L + of_nat (4096 * k))"
      using assms by (intro page_aligned_add) (simp add: low_frame_def)
    show "unat (L + of_nat (4096 * k)) < 2 ^ 52"
      using unat_add_of_nat [of L "4096 * k"] assms that by (simp add: low_frame_def del: of_nat_mult)
  qed
  show "frame_of L = L" "frame_of (L + 0x1000) = L + 0x1000" "frame_of (L + 0x2000) = L + 0x2000"
    "frame_of (L + 0x3000) = L + 0x3000"
    using fr [of 0] fr [of 1] fr [of 2] fr [of 3] by simp_all
qed

lemma low_slots:
  assumes "low_frame L" and "j < 512" and "j \<noteq> 0"
  shows "slot L 511 \<noteq> L + 0x3000" "slot (L + 0x1000) 511 \<noteq> L + 0x3000" "slot (L + 0x2000) 0 \<noteq> L + 0x3000"
    "slot (L + 0x3000) j \<noteq> L + 0x3000" "slot (L + 0x3000) j \<noteq> slot L 511"
    "slot (L + 0x3000) j \<noteq> slot (L + 0x1000) 511" "slot (L + 0x3000) j \<noteq> slot (L + 0x2000) 0"
proof -
  note al = page_aligned_frame_of [of L] page_aligned_frame_of [of "L + 0x1000"]
    page_aligned_frame_of [of "L + 0x2000"] page_aligned_frame_of [of "L + 0x3000"]
  note al = al [unfolded low_frames [OF assms(1)]]
  have k: "slot (L + 0x3000) 0 = L + 0x3000" by (simp add: slot_def)
  show "slot L 511 \<noteq> L + 0x3000" "slot (L + 0x1000) 511 \<noteq> L + 0x3000" "slot (L + 0x2000) 0 \<noteq> L + 0x3000"
    "slot (L + 0x3000) j \<noteq> L + 0x3000" "slot (L + 0x3000) j \<noteq> slot L 511"
    "slot (L + 0x3000) j \<noteq> slot (L + 0x1000) 511" "slot (L + 0x3000) j \<noteq> slot (L + 0x2000) 0"
    using slot_inj [OF al(1,4), of 511 0] slot_inj [OF al(2,4), of 511 0] slot_inj [OF al(3,4), of 0 0]
      slot_inj [OF al(4,4) assms(2), of 0] slot_inj [OF al(4,1) assms(2), of 511]
      slot_inj [OF al(4,2) assms(2), of 511] slot_inj [OF al(4,3) assms(2), of 0] assms(3)
    unfolding k by auto
qed

text \<open>Memory that differs in the kernel's table only.\<close>

definition kpt_only :: "u64 \<Rightarrow> mem \<Rightarrow> mem \<Rightarrow> bool" where
  "kpt_only L m m' \<longleftrightarrow> (\<forall>g i. page_aligned g \<and> g \<noteq> L + 0x3000 \<and> i < 512 \<longrightarrow> m' (slot g i) = m (slot g i))"

lemma kpt_only_refl [simp]: "kpt_only L m m"
  by (simp add: kpt_only_def)

lemma kpt_only_trans [trans]: "kpt_only L m m' \<Longrightarrow> kpt_only L m' m'' \<Longrightarrow> kpt_only L m m''"
  by (simp add: kpt_only_def)

lemma kpt_only_upd:
  assumes "low_frame L" and "j < 512"
  shows "kpt_only L m (m(slot (L + 0x3000) j := v))"
proof -
  have "page_aligned (L + 0x3000)" using page_aligned_frame_of [of "L + 0x3000"] low_frames(4) [OF assms(1)] by simp
  then show ?thesis using slot_inj assms(2) unfolding kpt_only_def by (metis fun_upd_other)
qed

lemma irq_ok_regs: "irq_ok (s\<lparr>kernel_pt := k\<rparr>) = irq_ok s" "irq_ok (s\<lparr>PML4 := k\<rparr>) = irq_ok s"
    "irq_ok (s\<lparr>cr3 := k\<rparr>) = irq_ok s"
  by (simp_all add: irq_ok_def)

lemma calc_page_nz [simp]: "calc_page x \<noteq> 0"
  using frame_of_calc_page(2) [of x] by (metis bit_0_eq bot_apply bot_bool_def)

lemma boot_mount:
  assumes B: "boot_tables L s" and L: "low_frame L" and j: "j < 512" "j \<noteq> 0"
    and a: "lin_path a = [511, 511, 0, j]"
  shows "mount_page_do a ph s = Inr (pulse (s\<lparr>pmem := (pmem s)(slot (L + 0x3000) j := ph)\<rparr>))"
    and "boot_tables L (pulse (s\<lparr>pmem := (pmem s)(slot (L + 0x3000) j := ph)\<rparr>))"
proof -
  note f = low_frames [OF L] and sl = low_slots [OF L j]
  have b: "irq_ok s" "PML4 s = L" "kpt_slot s = L + 0x3000" "pmem s (kpt_slot s) = 0"
    "pmem s (slot L 511) = calc_page (L + 0x1000)"
    "pmem s (slot (L + 0x1000) 511) = calc_page (L + 0x2000)"
    "pmem s (slot (L + 0x2000) 0) = calc_page (L + 0x3000)"
    using B by (auto simp: boot_tables_def)
  have m: "frame_of (calc_page x AND TABLE_MASK) = frame_of x" for x by simp
  show "mount_page_do a ph s = Inr (pulse (s\<lparr>pmem := (pmem s)(slot (L + 0x3000) j := ph)\<rparr>))"
    unfolding mount_page_do_path a b(2)
    using vm_path_step [of s L 511 ph 511 "[0, j]"] vm_path_step [of "pulse s" "calc_page (L + 0x1000) AND TABLE_MASK" 511 ph 0 "[j]"]
      vm_path_step [of "pulse s" "calc_page (L + 0x2000) AND TABLE_MASK" 0 ph j "[]"]
      vm_path_last [of "pulse s" "calc_page (L + 0x3000) AND TABLE_MASK" j ph] b f sl m
    by (simp add: Let_def del: vm_path.simps)
  show "boot_tables L (pulse (s\<lparr>pmem := (pmem s)(slot (L + 0x3000) j := ph)\<rparr>))"
    using b sl by (simp add: boot_tables_def)
qed

lemma boot_umount:
  assumes B: "boot_tables L s" and L: "low_frame L" and j: "j < 512" "j \<noteq> 0"
    and a: "lin_path a = [511, 511, 0, j]"
  obtains r m where "umount_page a s = Inr (r, pulse (s\<lparr>pmem := m\<rparr>))"
    and "boot_tables L (pulse (s\<lparr>pmem := m\<rparr>))"
    and "kpt_only L (pmem s) m" and "\<not> bit (m (slot (L + 0x3000) j)) 0"
    and "\<And>i. \<not> bit (pmem s (slot (L + 0x3000) i)) 0 \<Longrightarrow> \<not> bit (m (slot (L + 0x3000) i)) 0"
proof -
  note f = low_frames [OF L] and sl = low_slots [OF L j]
  have al: "page_aligned (L + 0x3000)" using page_aligned_frame_of [of "L + 0x3000"] f(4) by simp
  have b: "irq_ok s" "PML4 s = L" "kpt_slot s = L + 0x3000" "pmem s (kpt_slot s) = 0"
    "pmem s (slot L 511) = calc_page (L + 0x1000)"
    "pmem s (slot (L + 0x1000) 511) = calc_page (L + 0x2000)"
    "pmem s (slot (L + 0x2000) 0) = calc_page (L + 0x3000)"
    using B by (auto simp: boot_tables_def)
  let ?a = "slot (L + 0x3000) j" and ?K = "L + 0x3000"
  let ?m = "(pmem s)(?a := pmem s ?a AND 0xFFFFFFFFFFFFFFFE)"
  let ?T = "calc_page (L + 0x3000) AND TABLE_MASK"
  have mt: "mount_page_t ?T (pulse s) = Inr (pulse (s\<lparr>pmem := (pmem s)(?K := calc_page ?T)\<rparr>))" (is "_ = Inr ?w")
    using mount_page_t_eq [of "pulse s" ?T] b(1,3) by simp
  have w: "win j ?w = Inr ?a" using win_mounted [of ?w ?T j] b(3) f(4) by simp
  have e: "(pmem s)(?K := calc_page ?T, ?a := v, ?K := 0) = (pmem s)(?a := v)" for v
    using b(3,4) sl(4) by (auto simp: fun_eq_iff)
  have "vm_unpath ?T [j] (pulse s) = Inr (pmem s ?a, pulse (s\<lparr>pmem := ?m\<rparr>))"
    using mt w e sl(4) b(3) by (simp add: win_read_def win_write_def umount_page_t_def pwrite_def)
  then have "umount_page a s = Inr (pmem s ?a, pulse (s\<lparr>pmem := ?m\<rparr>))"
    unfolding umount_page_path a b(2)
    using peek_table_eq [of s L 511] peek_table_eq [of "pulse s" "calc_page (L + 0x1000) AND TABLE_MASK" 511]
      peek_table_eq [of "pulse s" "calc_page (L + 0x2000) AND TABLE_MASK" 0] b f sl by simp
  moreover have "boot_tables L (pulse (s\<lparr>pmem := ?m\<rparr>))"
    using b sl by (simp add: boot_tables_def)
  moreover have "kpt_only L (pmem s) ?m" by (rule kpt_only_upd [OF L j(1)])
  moreover have "\<not> bit (x AND 0xFFFFFFFFFFFFFFFE) 0" for x :: u64 by (simp add: bit_simps)
  ultimately show thesis using that [of "pmem s ?a" ?m] by auto
qed

lemma kernel_path:
  assumes "unat x < 0x200000"
  shows "lin_path (KBASE OR x) = [511, 511, 0, unat x div 4096]" and "unat x div 4096 < 512"
proof -
  show q: "unat x div 4096 < 512" using assms by auto
  have "unat (KBASE OR x) = 0xFFFFFFFFC0000000 + unat x"
    using or_kernel_base(2) [of x] assms by (simp add: KBASE_def or.commute)
  then have d: "unat (KBASE OR x) div 4096 = 0xFFFFFFFFC0000 + unat x div 4096" by simp
  have e: "(0xFFFFFFFFC0000 + unat x div 4096) div 512 = 0x7FFFFFFFE00"
    "(0xFFFFFFFFC0000 + unat x div 4096) mod 512 = unat x div 4096"
  proof -
    have c: "0xFFFFFFFFC0000 + unat x div 4096 = unat x div 4096 + 512 * 0x7FFFFFFFE00" by simp
    show "(0xFFFFFFFFC0000 + unat x div 4096) div 512 = 0x7FFFFFFFE00"
      "(0xFFFFFFFFC0000 + unat x div 4096) mod 512 = unat x div 4096"
      unfolding c div_mult_self2 [OF numeral_neq_zero] mod_mult_self2 using q by simp_all
  qed
  show "lin_path (KBASE OR x) = [511, 511, 0, unat x div 4096]"
    unfolding lin_path_digits d e by simp
qed

lemma boot_mount_page:
  assumes "boot_tables L s" and "low_frame L" and "0x1000 \<le> unat x" and "unat x < 0x200000"
  obtains m where "mount_page p (KBASE OR x) s = Inr (pulse (s\<lparr>pmem := m\<rparr>))"
    and "boot_tables L (pulse (s\<lparr>pmem := m\<rparr>))" and "kpt_only L (pmem s) m"
proof -
  have j: "unat x div 4096 < 512" "unat x div 4096 \<noteq> 0" using assms(3,4) by auto
  note M = boot_mount [OF assms(1,2) j kernel_path(1) [OF assms(4)], of "calc_page p"]
  show thesis by (rule that) (use M kpt_only_upd [OF assms(2) j(1)] in \<open>auto simp: mount_page_def\<close>)
qed

lemma boot_tables_frames: "boot_tables L (s\<lparr>frames := fr\<rparr>) = boot_tables L s"
  by (simp add: boot_tables_def)

lemma mount_map_boot:
  assumes "boot_tables L s" and "low_frame L" and "0x1000 \<le> unat lst"
    and "unat lst + 4096 * ((unat memsize - sz + 127) div 128) \<le> 0x200000"
  shows "\<exists>m. mount_map sz memsize lst s = Inr (lst + of_nat (4096 * ((unat memsize - sz + 127) div 128)), pulse (s\<lparr>pmem := m\<rparr>))
      \<and> boot_tables L (pulse (s\<lparr>pmem := m\<rparr>)) \<and> kpt_only L (pmem s) m
    \<or> mount_map sz memsize lst s = Inr (lst, s) \<and> unat memsize \<le> sz"
  using assms
proof (induction sz memsize lst s rule: mount_map.induct)
  case (1 sz memsize lst s)
  show ?case
  proof (cases "sz < unat memsize")
    case False
    then show ?thesis by (subst mount_map.simps) auto
  next
    case True
    define k where "k = (unat memsize - (sz + 128) + 127) div 128"
    have k: "(unat memsize - sz + 127) div 128 = Suc k"
      using True unfolding k_def by (cases "sz + 128 \<le> unat memsize") auto
    have lst: "unat lst < 0x200000" using "1.prems"(4) k by simp
    obtain m where m: "mount_page lst (KBASE OR lst) s = Inr (pulse (s\<lparr>pmem := m\<rparr>))"
      "boot_tables L (pulse (s\<lparr>pmem := m\<rparr>))" "kpt_only L (pmem s) m"
      by (rule boot_mount_page [OF "1.prems"(1-3) lst])
    have u: "unat (lst + 0x1000) = unat lst + 0x1000"
      using unat_add_of_nat [of lst "0x1000"] lst by simp
    have p: "0x1000 \<le> unat (lst + 0x1000)"
      "unat (lst + 0x1000) + 4096 * ((unat memsize - (sz + 128) + 127) div 128) \<le> 0x200000"
    proof -
      have "unat lst + 4096 * Suc k \<le> 0x200000" using "1.prems"(4) unfolding k .
      then show "unat (lst + 0x1000) + 4096 * ((unat memsize - (sz + 128) + 127) div 128) \<le> 0x200000"
        unfolding k_def [symmetric] u by simp
    qed (use u in simp)
    have st: "mount_map sz memsize lst s = mount_map (sz + 128) memsize (lst + 0x1000) (pulse (s\<lparr>pmem := m\<rparr>))"
      using True m(1) by (simp add: mount_map.simps [of sz])
    from "1.IH" [OF True m(1) m(2) "1.prems"(2) p]
    show ?thesis
    proof (elim disjE exE)
      fix m' assume "mount_map (sz + 128) memsize (lst + 0x1000) (pulse (s\<lparr>pmem := m\<rparr>)) =
          Inr (lst + 0x1000 + of_nat (4096 * ((unat memsize - (sz + 128) + 127) div 128)),
            pulse ((pulse (s\<lparr>pmem := m\<rparr>))\<lparr>pmem := m'\<rparr>))
          \<and> boot_tables L (pulse ((pulse (s\<lparr>pmem := m\<rparr>))\<lparr>pmem := m'\<rparr>)) \<and> kpt_only L (pmem (pulse (s\<lparr>pmem := m\<rparr>))) m'"
      then show ?thesis
        unfolding st k k_def [symmetric] using kpt_only_trans [OF m(3)]
        by (intro disjI1 exI [of _ m']) (simp add: algebra_simps)
    next
      assume a: "mount_map (sz + 128) memsize (lst + 0x1000) (pulse (s\<lparr>pmem := m\<rparr>)) =
          Inr (lst + 0x1000, pulse (s\<lparr>pmem := m\<rparr>)) \<and> unat memsize \<le> sz + 128"
      then have "k = 0" by (simp add: k_def)
      then show ?thesis
        unfolding st k using a m(2,3) by (intro disjI1 exI [of _ m]) simp
    qed
  qed
qed

text \<open>Boot memory layout: kernel, tables, bitmap and the boot loader's structures below 2 MB.\<close>

definition boot_layout :: "u64 \<Rightarrow> u64 \<Rightarrow> u64 \<Rightarrow> multiboot_info \<Rightarrow> bool" where
  "boot_layout L pl_size mb MB \<longleftrightarrow> page_aligned L
     \<and> unat L + 0x4000 + 4096 * ((unat pl_size + 127) div 128) < 0x200000
     \<and> pl_size \<noteq> 0 \<and> unat pl_size \<le> 2 ^ 32 \<and> 0x1000 \<le> unat mb \<and> unat mb < 0x200000
     \<and> 0x1000 \<le> unat (mmap_addr MB) \<and> unat (mmap_addr MB) < 0x200000"

lemma phys_init_boot:
  assumes B: "boot_tables L s" and L: "low_frame L" and lst: "lst = L + 0x4000"
    and lay: "boot_layout L memsize mb MB"
    and mm: "mmap_at M ((KBASE OR ucast (mmap_addr MB)) + ucast (mmap_length MB)) (KBASE OR ucast (mmap_addr MB)) ms"
  obtains M' fr m where "phys_init lst memsize mb MB M s =
      Inr (lst + of_nat (4096 * ((unat memsize + 127) div 128)), M', pulse (s\<lparr>frames := fr, pmem := m\<rparr>))"
    and "phys_ok fr" and "npages fr = 256 * unat memsize"
    and "\<And>n. n < npages fr \<Longrightarrow> busy fr n \<longleftrightarrow>
      \<not> (\<exists>x \<in> set ms. unit_freed (lst + of_nat (4096 * ((unat memsize + 127) div 128))) x (n div 64))"
    and "boot_tables L (pulse (s\<lparr>frames := fr, pmem := m\<rparr>))" and "kpt_only L (pmem s) m"
    and "\<not> bit (m (slot (L + 0x3000) (unat mb div 4096))) 0"
proof -
  let ?n = "(unat memsize + 127) div 128" and ?mmap = "ucast (mmap_addr MB) :: u64"
  let ?lst = "lst + of_nat (4096 * ?n)"
  note lay = lay [unfolded boot_layout_def]
  have umm: "unat ?mmap = unat (mmap_addr MB)"
    using lay by (simp add: unsigned_ucast_eq take_bit_nat_eq_self)
  have ul: "unat lst = unat L + 0x4000" using unat_add_of_nat [of L "0x4000"] lay lst by simp
  let ?d = "s\<lparr>frames := \<lparr>phys_map = [], phys_size = push_bit 2 memsize\<rparr>\<rparr>"
  have "\<not> unat memsize \<le> 0" using lay by (simp add: word_unat_eq_iff)
  moreover have "boot_tables L ?d" using B by (simp add: boot_tables_frames)
  ultimately obtain m1 where m1: "mount_map 0 memsize lst ?d = Inr (?lst, pulse (?d\<lparr>pmem := m1\<rparr>))"
    "boot_tables L (pulse (?d\<lparr>pmem := m1\<rparr>))" "kpt_only L (pmem s) m1"
    using mount_map_boot [of L ?d lst memsize 0] L ul lay by auto
  let ?s1 = "pulse (s\<lparr>frames := phys_fill memsize, pmem := m1\<rparr>)"
  have e1: "(pulse (?d\<lparr>pmem := m1\<rparr>))\<lparr>frames := phys_fill memsize\<rparr> = ?s1"
    by (rule vm.equality) (simp_all add: pulse_def intr_depth_def)
  have B1: "boot_tables L ?s1"
    using m1(2) unfolding e1 [symmetric] by (simp only: boot_tables_frames)
  obtain m2 where m2: "mount_page mb (KBASE OR mb) ?s1 = Inr (pulse (?s1\<lparr>pmem := m2\<rparr>))"
    "boot_tables L (pulse (?s1\<lparr>pmem := m2\<rparr>))" "kpt_only L m1 m2"
    by (rule boot_mount_page [OF B1 L, of mb mb]) (use lay in auto)
  obtain m3 where m3: "mount_page ?mmap (KBASE OR ?mmap) (pulse (?s1\<lparr>pmem := m2\<rparr>)) = Inr (pulse (?s1\<lparr>pmem := m3\<rparr>))"
    "boot_tables L (pulse (?s1\<lparr>pmem := m3\<rparr>))" "kpt_only L m2 m3"
    by (rule boot_mount_page [OF m2(2) L, of ?mmap ?mmap]) (use lay umm in auto)
  obtain M' fr where fr: "phys_init_map ?lst memsize (KBASE OR ?mmap) (ucast (mmap_length MB)) M = Inr (M', fr)"
    "phys_ok fr" "npages fr = 256 * unat memsize"
    "\<forall>n < npages fr. busy fr n \<longleftrightarrow> \<not> (\<exists>x \<in> set ms. unit_freed ?lst x (n div 64))"
    using phys_init_map_busy [OF mm] lay by blast
  let ?s3 = "pulse (s\<lparr>frames := fr, pmem := m3\<rparr>)"
  have e3: "(pulse (?s1\<lparr>pmem := m3\<rparr>))\<lparr>frames := fr\<rparr> = ?s3"
    by (rule vm.equality) (simp_all add: pulse_def intr_depth_def)
  have B3: "boot_tables L ?s3" using m3(2) unfolding e3 [symmetric] by (simp only: boot_tables_frames)
  have mbj: "unat mb div 4096 < 512" "unat mb div 4096 \<noteq> 0" "unat ?mmap div 4096 < 512" "unat ?mmap div 4096 \<noteq> 0"
    "unat mb < 0x200000" "unat ?mmap < 0x200000"
    using lay umm by auto
  obtain r4 m4 where m4: "umount_page (KBASE OR mb) ?s3 = Inr (r4, pulse (?s3\<lparr>pmem := m4\<rparr>))"
    "boot_tables L (pulse (?s3\<lparr>pmem := m4\<rparr>))" "kpt_only L m3 m4" "\<not> bit (m4 (slot (L + 0x3000) (unat mb div 4096))) 0"
    by (rule boot_umount [OF B3 L mbj(1,2) kernel_path(1) [OF mbj(5)]]) auto
  obtain r5 m5 where m5: "umount_page (KBASE OR ?mmap) (pulse (?s3\<lparr>pmem := m4\<rparr>)) = Inr (r5, pulse (?s3\<lparr>pmem := m5\<rparr>))"
    "boot_tables L (pulse (?s3\<lparr>pmem := m5\<rparr>))" "kpt_only L m4 m5"
    "\<And>i. \<not> bit (m4 (slot (L + 0x3000) i)) 0 \<Longrightarrow> \<not> bit (m5 (slot (L + 0x3000) i)) 0"
    by (rule boot_umount [OF m4(2) L mbj(3,4) kernel_path(1) [OF mbj(6)]]) auto
  have k: "kpt_only L (pmem s) m5"
    using m1(3) m2(3) m3(3) m4(3) m5(3) kpt_only_trans by blast
  have loop: "of_loop (mmap_loop ?lst ((KBASE OR ?mmap) + ucast (mmap_length MB)) (KBASE OR ?mmap) (M, phys_fill memsize))
      = Inr (M', fr)"
    using fr(1) by (simp add: phys_init_map_def)
  have "phys_init lst memsize mb MB M s = Inr (?lst, M', pulse (s\<lparr>frames := fr, pmem := m5\<rparr>))"
    unfolding phys_init_def m1(1) rbind_simps prod.case e1 m2(1) Let_def m3(1)
    using loop e3 m4(1) m5(1) by simp
  then show thesis
    by (rule that) (use fr(2-4) k m4(4) m5(2,4) in auto)
qed

text \<open>The tables after \<^verbatim>\<open>mem_init\<close>: only the kernel's table at \<open>L + 0x3000\<close> holds more than one entry.\<close>

definition boot_image :: "u64 \<Rightarrow> mem \<Rightarrow> mem \<Rightarrow> bool" where
  "boot_image L m0 m \<longleftrightarrow> (\<forall>j < 512.
       m (slot L j) = (if j = 511 then calc_page (L + 0x1000) else 0)
     \<and> m (slot (L + 0x1000) j) = (if j = 511 then calc_page (L + 0x2000) else 0)
     \<and> m (slot (L + 0x2000) j) = (if j = 0 then calc_page (L + 0x3000) else 0)
     \<and> (\<forall>h. page_aligned h \<and> h \<notin> {L, L + 0x1000, L + 0x2000, L + 0x3000} \<longrightarrow> m (slot h j) = m0 (slot h j)))"

lemma mem_init_ok:
  assumes "boot_layout ((pl_addr AND 0x0FFFF000) + 0x1000) pl_size mb MB" and "irq_ok s"
    and "mmap_at M ((KBASE OR ucast (mmap_addr MB)) + ucast (mmap_length MB)) (KBASE OR ucast (mmap_addr MB)) ms"
    and "hdrs (kheap s) 0 = None"
  obtains M' s' L lst f where "mem_init pl_addr pl_size mb MB M s = Inr (M', s')"
    and "L = (pl_addr AND 0x0FFFF000) + 0x1000"
    and "lst = (pl_addr AND 0x0FFFF000) + 0x5000 + of_nat (4096 * ((unat pl_size + 127) div 128))"
    and "phys_ok (frames s')" and "npages (frames s') = 256 * unat pl_size"
    and "\<forall>n < npages (frames s'). busy (frames s') n \<longleftrightarrow> \<not> (\<exists>m \<in> set ms. unit_freed lst m (n div 64))"
    and "heap_inv (kheap s')" and "heap_live (kheap s') = {}" and "kernel_heap (kheap s') = lst OR 0xFFFFFFFFC0000000"
    and "boot_tables L s'" and "low_frame L" and "boot_image L (pmem s) (pmem s')"
    and "\<not> bit (pmem s' (slot (L + 0x3000) (unat mb div 4096))) 0"
    and "irq s' = (irq s)\<lparr>iflag := f\<rparr>" and "f (this_cpu s) = (intr_depth (this_cpu s) (irq s) = 0)" and "this_cpu s' = this_cpu s"
proof -
  define L where "L = (pl_addr AND 0x0FFFF000) + 0x1000"
  let ?n = "(unat pl_size + 127) div 128"
  note lay = assms(1) [folded L_def]
  have l: "page_aligned L" "unat L + 0x3000 < 0x200000" "unat L + 0x4000 + 4096 * ?n < 0x200000"
    using lay by (auto simp: boot_layout_def)
  have L: "low_frame L" using l by (simp add: low_frame_def)
  obtain m0 where pi: "page_init L s = Inr (L + 0x4000, pulse (cr3_load L
      (s\<lparr>kernel_pt := (L + 0x3000) OR 0xFFFFFFFFC0000000, PML4 := L, pmem := m0\<rparr>)))" (is "_ = Inr (_, ?s0)")
    and i0: "\<And>j. j < 512 \<Longrightarrow> m0 (slot L j) = (if j = 511 then calc_page (L + 0x1000) else 0)"
    "\<And>j. j < 512 \<Longrightarrow> m0 (slot (L + 0x1000) j) = (if j = 511 then calc_page (L + 0x2000) else 0)"
    "\<And>j. j < 512 \<Longrightarrow> m0 (slot (L + 0x2000) j) = (if j = 0 then calc_page (L + 0x3000) else 0)"
    "\<And>j. j < 512 \<Longrightarrow> m0 (slot (L + 0x3000) j) =
      (if 0xB8 \<le> j \<and> j \<le> unat L div 4096 + 3 then calc_page (push_bit 12 (of_nat j)) else 0)"
    "\<And>h j. page_aligned h \<Longrightarrow> j < 512 \<Longrightarrow> h \<notin> {L, L + 0x1000, L + 0x2000, L + 0x3000} \<Longrightarrow> m0 (slot h j) = pmem s (slot h j)"
    by (rule page_init_image [OF l(1,2) assms(2)]) (rule that, assumption+)
  have u3: "unat (L + 0x3000) < 2 ^ 30" using unat_add_of_nat [of L "0x3000"] l(2) by simp
  have k0: "slot (L + 0x3000) 0 = L + 0x3000" by (simp add: slot_def)
  have B0: "boot_tables L ?s0"
    using i0(1) [of 511] i0(2) [of 511] i0(3) [of 0] i0(4) [of 0] k0 assms(2) kernel_base_and [OF u3]
    by (simp add: boot_tables_def cr3_load_def irq_ok_regs) (simp add: kpt_slot_def)
  let ?lst = "L + 0x4000 + of_nat (4096 * ?n)"
  obtain M' fr m where r: "phys_init (L + 0x4000) pl_size mb MB M ?s0 = Inr (?lst, M', pulse (?s0\<lparr>frames := fr, pmem := m\<rparr>))"
    and fr: "phys_ok fr" "npages fr = 256 * unat pl_size"
      "\<And>n. n < npages fr \<Longrightarrow> busy fr n \<longleftrightarrow> \<not> (\<exists>x \<in> set ms. unit_freed ?lst x (n div 64))"
    and B: "boot_tables L (pulse (?s0\<lparr>frames := fr, pmem := m\<rparr>))" and K: "kpt_only L (pmem ?s0) m"
      "\<not> bit (m (slot (L + 0x3000) (unat mb div 4096))) 0"
    by (rule phys_init_boot [OF B0 L refl lay assms(3)]) blast
  let ?s1 = "pulse (?s0\<lparr>frames := fr, pmem := m\<rparr>)"
  have ul: "unat ?lst = unat L + 0x4000 + 4096 * ?n"
    using unat_add_of_nat [of "L + 0x4000" "4096 * ?n"] unat_add_of_nat [of L "0x4000"] l(2,3)
    by (simp del: of_nat_mult)
  have kh: "kheap ?s1 = kheap s" by (simp add: cr3_load_def)
  have hp: "unat ?lst < 0x3FFFFFF0" using ul l(3) by simp
  let ?s' = "?s1\<lparr>kheap := heap_setup ?lst (kheap s)\<rparr>"
  have r': "mem_init pl_addr pl_size mb MB M s = Inr (M', ?s1\<lparr>kheap := heap_setup ?lst (kheap s)\<rparr>)"
    using pi r kh by (simp add: mem_init_def L_def [symmetric] del: of_nat_mult)
  have al: "page_aligned L" "page_aligned (L + 0x1000)" "page_aligned (L + 0x2000)"
    using l(1) page_aligned_add [OF l(1), of 1] page_aligned_add [OF l(1), of 2] by simp_all
  have im: "boot_image L (pmem s) (pmem ?s')"
    using K(1) i0(1-3,5) al unfolding boot_image_def kpt_only_def by (simp add: cr3_load_def)
  have bt: "boot_tables L ?s'" using B by (simp add: boot_tables_def)
  have ls: "?lst = (pl_addr AND 0x0FFFF000) + 0x5000 + of_nat (4096 * ?n)"
    by (simp add: L_def)
  have kb: "kernel_heap (kheap ?s') = ?lst OR 0xFFFFFFFFC0000000"
    by (simp add: heap_setup_def Let_def)
  have hi: "heap_inv (kheap ?s')" "heap_live (kheap ?s') = {}"
    using heap_setup_inv [OF hp assms(4)] by auto
  have ir: "irq ?s' = (irq s)\<lparr>iflag := (iflag (irq s))(this_cpu s := (intr_depth (this_cpu s) (irq s) = 0))\<rparr>"
      "this_cpu ?s' = this_cpu s"
    by (simp_all add: pulse_def cr3_load_def intr_depth_def)
  have fr': "phys_ok (frames ?s')" "npages (frames ?s') = 256 * unat pl_size"
    "\<forall>n < npages (frames ?s'). busy (frames ?s') n \<longleftrightarrow> \<not> (\<exists>x \<in> set ms. unit_freed ?lst x (n div 64))"
    using fr by simp_all
  have nb: "\<not> bit (pmem ?s' (slot (L + 0x3000) (unat mb div 4096))) 0" using K(2) by simp
  show thesis
    by (rule that [OF r' L_def ls fr' hi kb bt L im nb ir(1) _ ir(2)]) simp
qed

text \<open>
  From a sane boot layout \<^verbatim>\<open>mem_init\<close> returns with the three memory managers consistent: a page
  bitmap in which a page is free exactly when an available area of the memory map covers
  its 256 KB unit, an empty heap whose invariant holds, behind the bitmap, and the
  window into the page tables closed.
\<close>

theorem mem_init_establishes:
  assumes "boot_layout ((pl_addr AND 0x0FFFF000) + 0x1000) pl_size mb MB" and "irq_ok s"
    and "mmap_at M ((KBASE OR ucast (mmap_addr MB)) + ucast (mmap_length MB)) (KBASE OR ucast (mmap_addr MB)) ms"
    and "hdrs (kheap s) 0 = None"
  shows "\<exists>M' s' lst. mem_init pl_addr pl_size mb MB M s = Inr (M', s')
     \<and> lst = (pl_addr AND 0x0FFFF000) + 0x5000 + of_nat (4096 * ((unat pl_size + 127) div 128))
     \<and> phys_ok (frames s') \<and> npages (frames s') = 256 * unat pl_size
     \<and> (\<forall>n < npages (frames s'). busy (frames s') n \<longleftrightarrow> \<not> (\<exists>m \<in> set ms. unit_freed lst m (n div 64)))
     \<and> heap_inv (kheap s') \<and> heap_live (kheap s') = {} \<and> kernel_heap (kheap s') = lst OR 0xFFFFFFFFC0000000
     \<and> pmem s' (kpt_slot s') = 0"
proof -
  obtain M' s' L lst where "mem_init pl_addr pl_size mb MB M s = Inr (M', s')"
    "lst = (pl_addr AND 0x0FFFF000) + 0x5000 + of_nat (4096 * ((unat pl_size + 127) div 128))"
    "phys_ok (frames s')" "npages (frames s') = 256 * unat pl_size"
    "\<forall>n < npages (frames s'). busy (frames s') n \<longleftrightarrow> \<not> (\<exists>m \<in> set ms. unit_freed lst m (n div 64))"
    "heap_inv (kheap s')" "heap_live (kheap s') = {}" "kernel_heap (kheap s') = lst OR 0xFFFFFFFFC0000000" "boot_tables L s'"
    by (rule mem_init_ok [OF assms]) blast
  then show ?thesis by (auto simp: boot_tables_def)
qed

section \<open>The invariant of the tables\<close>

lemma one_child:
  assumes "page_aligned f" and "i < 512" and "\<And>j. j < 512 \<Longrightarrow> m (slot f j) = (if j = i then e else 0)"
    and "bit e 0" and "tree m d (frame_of e)" and "f \<notin> tabs m d (frame_of e)"
  shows "tree m (Suc d) f" and "tabs m (Suc d) f = insert f (tabs m d (frame_of e))"
proof -
  have "e \<noteq> 0" using assms(4) by auto
  then have "{j. j < 512 \<and> m (slot f j) \<noteq> 0} = {i}" using assms(2,3) by (auto split: if_splits)
  then show "tabs m (Suc d) f = insert f (tabs m d (frame_of e))"
    unfolding tabs.simps using assms(3) [OF assms(2)] by (simp only: UN_insert UN_empty Un_empty_right if_True refl)
  have "m (slot f j) \<noteq> 0 \<longleftrightarrow> j = i" and "m (slot f i) = e" if "j < 512" for j
    using assms(2,3) that \<open>e \<noteq> 0\<close> by auto
  then show "tree m (Suc d) f" using assms(1,2,4-6) unfolding tree.simps by metis
qed

lemma boot_tree:
  assumes "low_frame L" and "boot_image L m0 m"
  shows "tree m 3 L" and "tabs m 3 L = {L, L + 0x1000, L + 0x2000, L + 0x3000}" and "tabs m 2 L = {L, L + 0x1000, L + 0x2000}"
    and "tab_at m L (butlast (lin_path a)) = Some (L + 0x3000) \<Longrightarrow> butlast (lin_path a) = butlast (lin_path TMP_MOUNT_ADDR)"
proof -
  note f = low_frames [OF assms(1)]
  have al: "page_aligned L" "page_aligned (L + 0x1000)" "page_aligned (L + 0x2000)" "page_aligned (L + 0x3000)"
    using f page_aligned_frame_of by metis+
  have e: "m (slot L j) = (if j = 511 then calc_page (L + 0x1000) else 0)"
    "m (slot (L + 0x1000) j) = (if j = 511 then calc_page (L + 0x2000) else 0)"
    "m (slot (L + 0x2000) j) = (if j = 0 then calc_page (L + 0x3000) else 0)" if "j < 512" for j
    using assms(2) that by (auto simp: boot_image_def)
  have t1: "tree m (Suc 0) (L + 0x2000)" "tabs m (Suc 0) (L + 0x2000) = {L + 0x2000, L + 0x3000}"
    using one_child [OF al(3) _ e(3), where d = 0] al(4) f(4) by simp_all
  have t2: "tree m (Suc (Suc 0)) (L + 0x1000)" "tabs m (Suc (Suc 0)) (L + 0x1000) = {L + 0x1000, L + 0x2000, L + 0x3000}"
    using one_child [OF al(2) _ e(2), where d = "Suc 0"] t1 f(3) by simp_all
  show "tree m 3 L" and "tabs m 3 L = {L, L + 0x1000, L + 0x2000, L + 0x3000}"
    using one_child [OF al(1) _ e(1), where d = "Suc (Suc 0)"] t2 f(2) unfolding numeral_3_eq_3 [symmetric] by simp_all
  have u1: "tree m 0 (L + 0x2000)" "tabs m 0 (L + 0x2000) = {L + 0x2000}" using al(3) by simp_all
  have u2: "tree m (Suc 0) (L + 0x1000)" "tabs m (Suc 0) (L + 0x1000) = {L + 0x1000, L + 0x2000}"
    using one_child [OF al(2) _ e(2), where d = 0] u1 f(3) by simp_all
  show "tabs m 2 L = {L, L + 0x1000, L + 0x2000}"
    using one_child(2) [OF al(1) _ e(1), where d = "Suc 0"] u2 f(2) unfolding numeral_2_eq_2 [symmetric] by simp
  have "lin_pml4 a < 512" "lin_pdp a < 512" "lin_pd a < 512"
    using lin_path_ok [of a] by (auto simp: path_ok_def lin_path_def)
  then show "tab_at m L (butlast (lin_path a)) = Some (L + 0x3000) \<Longrightarrow> butlast (lin_path a) = butlast (lin_path TMP_MOUNT_ADDR)"
    using e f by (auto simp: lin_path_def [of a] lin_path_window split: if_splits)
qed

text \<open>
  What the code relies on: the frames of the four tables lie in no unit that is set free, and the
  frames that are set free hold zeros, as the memory of a machine that was just switched on.
\<close>

definition boot_ram :: "u64 \<Rightarrow> u64 \<Rightarrow> u64 \<Rightarrow> mmap_info list \<Rightarrow> mem \<Rightarrow> bool" where
  "boot_ram L lst pl_size ms m \<longleftrightarrow> 2 \<le> unat pl_size
     \<and> (\<forall>k < 4. \<forall>x \<in> set ms. \<not> unit_freed lst x ((unat L div 4096 + k) div 64))
     \<and> (\<forall>n < 256 * unat pl_size. 256 \<le> n \<longrightarrow> (\<exists>x \<in> set ms. unit_freed lst x (n div 64)) \<longrightarrow>
          (\<forall>i < 512. m (slot (of_nat (4096 * n)) i) = 0))"

lemma boot_vm_ok:
  assumes "boot_tables L s" and L: "low_frame L" and im: "boot_image L m0 (pmem s)" and ram: "boot_ram L lst pl_size ms m0"
    and fr: "phys_ok (frames s)" "npages (frames s) = 256 * unat pl_size"
    and busy: "\<forall>n < npages (frames s). busy (frames s) n \<longleftrightarrow> \<not> (\<exists>x \<in> set ms. unit_freed lst x (n div 64))"
  shows "vm_ok s"
proof -
  have b: "irq_ok s" "PML4 s = L" "kpt_slot s = L + 0x3000" "pmem s (L + 0x3000) = 0"
    using assms(1) by (auto simp: boot_tables_def)
  note f = low_frames [OF L] and t = boot_tree [OF L im]
  have al: "page_aligned L" "page_aligned (L + 0x3000)" using f page_aligned_frame_of by metis+
  have u: "L + of_nat (4096 * k) \<in> used_frames (frames s)" if "k < 4" for k
  proof -
    have "unat L mod 4096 = 0" using unat_slot(2) [OF al(1), of 0] by simp
    then obtain q where "unat L = 4096 * q" by auto
    then have "unat L = 4096 * (unat L div 4096)" by simp
    then have "L = of_nat (4096 * (unat L div 4096))" by (metis of_nat_unat ucast_id)
    then have e: "L + of_nat (4096 * k) = of_nat (4096 * (unat L div 4096 + k))" by (simp add: distrib_left)
    have "unat L div 4096 + k < npages (frames s)"
      using L ram fr(2) that unfolding low_frame_def boot_ram_def by linarith
    moreover have "busy (frames s) (unat L div 4096 + k)" using busy ram that calculation by (auto simp: boot_ram_def)
    ultimately show ?thesis unfolding used_frames_def e by blast
  qed
  have us: "{L, L + 0x1000, L + 0x2000, L + 0x3000} \<subseteq> used_frames (frames s)"
    using u [of 0] u [of 1] u [of 2] u [of 3] by simp
  have "clean (pmem s) (frames s)"
    unfolding clean_def
  proof (intro ballI allI impI)
    fix p and i :: nat assume p: "p \<in> free_frames (frames s)" and i: "i < 512"
    then obtain n where n: "p = of_nat (4096 * n)" "256 \<le> n" "n < npages (frames s)" "\<not> busy (frames s) n"
      by (auto simp: free_frames_def)
    have "p \<notin> {L, L + 0x1000, L + 0x2000, L + 0x3000}" using free_used_disjoint [OF fr(1)] p us by blast
    moreover have "page_aligned p" using n(1) page_aligned_page by simp
    ultimately have "pmem s (slot p i) = m0 (slot p i)" using im i by (auto simp: boot_image_def)
    then show "pmem s (slot p i) = 0" using ram n busy fr(2) i by (auto simp: boot_ram_def)
  qed
  then show ?thesis
    using t b f us al fr(1) by (auto simp: vm_ok_def tables_ok_def Page.root_def)
qed


definition demo_mb :: multiboot_info where
  "demo_mb = \<lparr>flags8 = 0x41, mem_lower = 639, mem_upper = 14336, boot_device = 0, cmdline = 0, mods_count = 0,
     mods_addr = 0, elf_sec = \<lparr>sht_num = 0, sht_size = 0, sht_addr = 0, sht_shndx = 0\<rparr>, mmap_length = 24,
     mmap_addr = 0xA000, drives_length = 0, drives_addr = 0, config_table = 0, boot_loader_name = 0,
     apm_table = 0, vbe_control_info = 0, vbe_mode_info = 0, vbe_mode = 0, vbe_interface_seg = 0,
     vbe_interface_off = 0, vbe_interface_len = 0\<rparr>"

lemma demo_layout: "boot_layout ((0x100000 AND 0x0FFFF000) + 0x1000) 16 0x9000 demo_mb"
  by (simp add: boot_layout_def demo_mb_def page_aligned_def)

lemma demo_mmap:
  "mmap_at [0xFFFFFFFFC000A000 \<mapsto> area_7mb]
     ((KBASE OR ucast (mmap_addr demo_mb)) + ucast (mmap_length demo_mb)) (KBASE OR ucast (mmap_addr demo_mb)) [area_7mb]"
  by (simp add: demo_mb_def KBASE_def area_7mb_def)

lemma demo_vm_heap_free: "hdrs (kheap demo_vm) 0 = None"
  by (simp add: demo_vm_def)

lemma demo_boot_ram: "boot_ram 0x101000 0x106000 16 [area_7mb] (\<lambda>_. 0)"
proof -
  have "unit_freed 0x106000 area_7mb u \<longleftrightarrow> 5 \<le> u \<and> u < 33" for u
    by (simp add: unit_freed_def area_7mb_def mmap_base_def)
  then have "\<not> unit_freed 0x106000 area_7mb ((unat (0x101000 :: u64) div 4096 + k) div 64)" if "k < 4" for k
    using that by simp
  then show ?thesis unfolding boot_ram_def by simp
qed

theorem mem_init_establishes_witness:
  "\<exists>M' s'. mem_init 0x100000 16 0x9000 demo_mb [0xFFFFFFFFC000A000 \<mapsto> area_7mb] demo_vm = Inr (M', s')
     \<and> phys_ok (frames s') \<and> heap_inv (kheap s')"
  using mem_init_establishes [OF demo_layout demo_vm_sel(5) demo_mmap demo_vm_heap_free] by blast


end
