(* ===== verification/Ktty.thy ===== *)
theory Ktty
  imports Prelude
begin

text \<open>
  The text console of the kernel (\<^verbatim>\<open>kernel/ktty.c\<close>): video memory as the bytes at
  \<^verbatim>\<open>screen_base\<close>, the position of the cursor, the attribute. A write outside the 4000 bytes of
  the screen is the fault \<open>Oob\<close>. \<open>Screen\<close> is what a reader sees: the characters of the 25
  lines. Printing a character at a screen is specified on that list, and \<^verbatim>\<open>ktty_putc\<close> implements
  it.
\<close>

declare upt_rec_numeral [simp del]

section \<open>State and operations\<close>

definition SCREEN_HEIGHT :: nat where "SCREEN_HEIGHT = 25"
definition SCREEN_WIDTH :: nat where "SCREEN_WIDTH = 80"
definition SCREEN_START_COLOUR :: u64 where "SCREEN_START_COLOUR = 0xFFFFFFFFC00B8000"
definition SCREEN_SIZE :: nat where "SCREEN_SIZE = SCREEN_HEIGHT * SCREEN_WIDTH"

lemmas screen_consts = SCREEN_HEIGHT_def SCREEN_WIDTH_def SCREEN_SIZE_def

record ktty =
  screen_base :: u64
  screen_pos :: u64
  ktty_attribute :: u8
  video :: "u8 list"

text \<open>A store to \<^verbatim>\<open>*((uint8_t *)(screen_base + i))\<close>, and a load from there.\<close>

definition vput :: "nat \<Rightarrow> u8 \<Rightarrow> ktty \<Rightarrow> ktty res" where
  "vput i b s =
     (if screen_base s = SCREEN_START_COLOUR \<and> i < length (video s)
      then Inr (s\<lparr>video := (video s)[i := b]\<rparr>) else Inl (BadAddr (screen_base s + of_nat i)))"

definition vget :: "nat \<Rightarrow> ktty \<Rightarrow> u8 res" where
  "vget i s =
     (if screen_base s = SCREEN_START_COLOUR \<and> i < length (video s)
      then Inr (video s ! i) else Inl (BadAddr (screen_base s + of_nat i)))"

text \<open>The loops of \<^verbatim>\<open>ktty_clear\<close> and \<^verbatim>\<open>ktty_shift\<close>, over the indices still to visit.\<close>

fun clear_loop :: "nat list \<Rightarrow> ktty \<Rightarrow> ktty res" where
  "clear_loop [] s = Inr s"
| "clear_loop (i # is) s = rbind (vput i 0 s) (clear_loop is)"

fun shift_loop :: "nat list \<Rightarrow> ktty \<Rightarrow> ktty res" where
  "shift_loop [] s = Inr s"
| "shift_loop (i # is) s =
     rbind (vget (i + SCREEN_WIDTH * 2) s) (\<lambda>b. rbind (vput i b s) (shift_loop is))"

definition ktty_clear :: "ktty \<Rightarrow> ktty res" where
  "ktty_clear s =
     rbind (clear_loop [0..<SCREEN_SIZE * 2] s) (\<lambda>s. Inr (s\<lparr>screen_pos := 0\<rparr>))"

definition ktty_init :: "ktty \<Rightarrow> ktty res" where
  "ktty_init s = ktty_clear (s\<lparr>screen_base := SCREEN_START_COLOUR, ktty_attribute := 0x07\<rparr>)"

definition ktty_shift :: "ktty \<Rightarrow> ktty res" where
  "ktty_shift s =
     rbind (shift_loop [0..<(SCREEN_SIZE - SCREEN_WIDTH) * 2] s)
       (\<lambda>s. rbind (clear_loop [(SCREEN_SIZE - SCREEN_WIDTH) * 2..<SCREEN_SIZE * 2] s)
         (\<lambda>s. Inr (s\<lparr>screen_pos := of_nat (SCREEN_SIZE - SCREEN_WIDTH)\<rparr>)))"

definition ktty_putc :: "u8 \<Rightarrow> ktty \<Rightarrow> ktty res" where
  "ktty_putc c s =
     rbind
       (if c = 10
        then let p = screen_pos s + of_nat SCREEN_WIDTH
             in Inr (s\<lparr>screen_pos := p - p mod of_nat SCREEN_WIDTH\<rparr>)
        else rbind (vput (unat (screen_pos s * 2)) c s)
               (\<lambda>s. rbind (vput (unat (screen_pos s * 2 + 1)) (ktty_attribute s) s)
                 (\<lambda>s. Inr (s\<lparr>screen_pos := screen_pos s + 1\<rparr>))))
       (\<lambda>s. if screen_pos s \<ge> of_nat SCREEN_SIZE then ktty_shift s else Inr s)"

text \<open>\<^verbatim>\<open>ktty_puts\<close> stops at the first zero byte; a string without one is read past its end.\<close>

fun ktty_puts :: "u8 list \<Rightarrow> ktty \<Rightarrow> ktty res" where
  "ktty_puts [] s = Inl (Oob 0)"
| "ktty_puts (c # cs) s = (if c = 0 then Inr s else rbind (ktty_putc c s) (ktty_puts cs))"

section \<open>What the screen shows\<close>

text \<open>The invariant, and the cells (character and attribute) of the screen.\<close>

definition ktty_ok :: "ktty \<Rightarrow> bool" where
  "ktty_ok s \<longleftrightarrow> screen_base s = SCREEN_START_COLOUR \<and> length (video s) = 4000 \<and> unat (screen_pos s) < 2000"

type_synonym cell = "u8 \<times> u8"

definition cells :: "ktty \<Rightarrow> cell list" where
  "cells s = map (\<lambda>i. (video s ! (2 * i), video s ! (2 * i + 1))) [0..<2000]"

text \<open>
  The specification: a screen is its 2000 cells and the position of the cursor. A character
  is put at the cursor; a line feed moves the cursor to the next line; behind the last cell
  the screen moves up by one line.
\<close>

definition scroll :: "cell list \<times> nat \<Rightarrow> cell list \<times> nat" where
  "scroll x = (case x of (cs, p) \<Rightarrow> if p < 2000 then (cs, p) else (drop 80 cs @ replicate 80 (0, 0), 1920))"

definition print_char :: "u8 \<Rightarrow> u8 \<Rightarrow> cell list \<times> nat \<Rightarrow> cell list \<times> nat" where
  "print_char attr c x = (case x of (cs, p) \<Rightarrow>
     scroll (if c = 10 then (cs, (p div 80 + 1) * 80) else (cs[p := (c, attr)], p + 1)))"

definition view :: "ktty \<Rightarrow> cell list \<times> nat" where
  "view s = (cells s, unat (screen_pos s))"

section \<open>The loops\<close>

definition set_zero :: "nat list \<Rightarrow> u8 list \<Rightarrow> u8 list" where
  "set_zero is v = fold (\<lambda>i v. v[i := 0]) is v"

lemma set_zero_length [simp]: "length (set_zero is v) = length v"
  unfolding set_zero_def by (induction "is" arbitrary: v) auto

lemma set_zero_nth:
  "i < length v \<Longrightarrow> set_zero is v ! i = (if i \<in> set is then 0 else v ! i)"
  unfolding set_zero_def by (induction "is" arbitrary: v) (auto simp: nth_list_update)

lemma set_zero_upt:
  assumes "m \<le> length v" and "n = length v"
  shows "set_zero [m..<n] v = take m v @ replicate (n - m) 0"
  using assms by (intro nth_equalityI) (auto simp: set_zero_nth nth_append)

lemma clear_loop_eq:
  assumes "screen_base s = SCREEN_START_COLOUR" and "\<forall>i \<in> set is. i < length (video s)"
  shows "clear_loop is s = Inr (s\<lparr>video := set_zero is (video s)\<rparr>)"
  using assms
proof (induction "is" arbitrary: s)
  case (Cons i "is")
  then show ?case by (simp add: vput_def set_zero_def)
qed (simp add: set_zero_def)

lemma shift_loop_eq:
  assumes "screen_base s = SCREEN_START_COLOUR" and "length (video s) = 4000" and "n \<le> 3840"
  shows "shift_loop [3840 - n..<3840] s =
    Inr (s\<lparr>video := take (3840 - n) (video s) @ drop (4000 - n) (video s) @ drop 3840 (video s)\<rparr>)"
  using assms
proof (induction n arbitrary: s)
  case 0
  then show ?case by (simp add: append_take_drop_id)
next
  case (Suc n)
  let ?i = "3840 - Suc n"
  let ?s = "s\<lparr>video := (video s)[?i := video s ! (?i + 160)]\<rparr>"
  have u: "[?i..<3840] = ?i # [3840 - n..<3840]"
    using Suc.prems(3) upt_conv_Cons [of ?i 3840] Suc_diff_Suc [of n 3840] by simp
  have "shift_loop [?i..<3840] s = shift_loop [3840 - n..<3840] ?s"
  proof -
    have "?i + 160 < 4000" "?i < 4000" using Suc.prems(3) by linarith+
    then show ?thesis unfolding u using Suc.prems(1,2) by (simp add: vget_def vput_def SCREEN_WIDTH_def)
  qed
  also have "\<dots> = Inr (?s\<lparr>video := take (3840 - n) (video ?s) @ drop (4000 - n) (video ?s) @ drop 3840 (video ?s)\<rparr>)"
    by (rule Suc.IH) (use Suc.prems in auto)
  also have "take (3840 - n) (video ?s) @ drop (4000 - n) (video ?s) @ drop 3840 (video ?s)
      = take ?i (video s) @ drop (4000 - Suc n) (video s) @ drop 3840 (video s)"
  proof -
    have "3840 - n = Suc ?i" "4000 - n = Suc (4000 - Suc n)" "?i + 160 = 4000 - Suc n"
      using Suc.prems(3) by auto
    then show ?thesis
      using Suc.prems(2,3) Cons_nth_drop_Suc [of "4000 - Suc n" "video s"]
      by (simp add: take_Suc_conv_app_nth drop_update_swap)
  qed
  finally show ?case by simp
qed

lemma ktty_shift_eq:
  assumes "screen_base s = SCREEN_START_COLOUR" and "length (video s) = 4000"
  shows "ktty_shift s =
    Inr (s\<lparr>video := drop 160 (video s) @ replicate 160 0, screen_pos := 1920\<rparr>)"
proof -
  let ?v = "drop 160 (video s) @ drop 3840 (video s)"
  have l: "shift_loop [0..<3840] s = Inr (s\<lparr>video := ?v\<rparr>)"
    using shift_loop_eq [of s 3840] assms by simp
  have z: "set_zero [3840..<4000] ?v = drop 160 (video s) @ replicate 160 0"
    using assms(2) by (subst set_zero_upt) simp_all
  have "clear_loop [3840..<4000] (s\<lparr>video := ?v\<rparr>) = Inr (s\<lparr>video := drop 160 (video s) @ replicate 160 0\<rparr>)"
    using clear_loop_eq [of "s\<lparr>video := ?v\<rparr>" "[3840..<4000]"] assms z by simp
  then show ?thesis using l by (simp add: ktty_shift_def screen_consts)
qed

lemma ktty_clear_eq:
  assumes "screen_base s = SCREEN_START_COLOUR" and "length (video s) = 4000"
  shows "ktty_clear s = Inr (s\<lparr>video := replicate 4000 0, screen_pos := 0\<rparr>)"
proof -
  have "set_zero [0..<4000] (video s) = replicate 4000 0"
    by (subst set_zero_upt) (simp_all only: assms(2), simp_all)
  then show ?thesis
    using clear_loop_eq [of s "[0..<4000]"] assms
    by (simp add: ktty_clear_def screen_consts)
qed

section \<open>Printing\<close>

lemma length_cells [simp]: "length (cells s) = 2000"
  by (simp add: cells_def)

lemma cells_nth: "i < 2000 \<Longrightarrow> cells s ! i = (video s ! (2 * i), video s ! (2 * i + 1))"
  by (simp add: cells_def)

lemma cells_shift:
  assumes "length (video s) = 4000" and "video s' = drop 160 (video s) @ replicate 160 0"
  shows "cells s' = drop 80 (cells s) @ replicate 80 (0, 0)"
  using assms
  by (intro nth_equalityI) (auto simp: cells_nth nth_append)

lemma cells_put:
  assumes "length (video s) = 4000" and "p < 2000" and "video s' = (video s)[2 * p := c, 2 * p + 1 := a]"
  shows "cells s' = (cells s)[p := (c, a)]"
proof (rule nth_equalityI)
  fix i assume "i < length (cells s')"
  moreover have "2 * i + 1 \<noteq> 2 * p" "2 * i \<noteq> 2 * p + 1" for i :: nat by presburger+
  ultimately show "cells s' ! i = (cells s)[p := (c, a)] ! i"
    using assms by (auto simp: cells_nth nth_list_update)
qed simp

lemma finish_scroll:
  assumes "screen_base s = SCREEN_START_COLOUR" and "length (video s) = 4000" and "unat (screen_pos s) < 3000"
  shows "\<exists>s'. (if screen_pos s \<ge> of_nat SCREEN_SIZE then ktty_shift s else Inr s) = Inr s' \<and> ktty_ok s'
     \<and> view s' = scroll (view s) \<and> ktty_attribute s' = ktty_attribute s"
proof (cases "unat (screen_pos s) < 2000")
  case True
  then have "\<not> screen_pos s \<ge> of_nat SCREEN_SIZE"
    by (simp add: screen_consts word_le_nat_alt)
  then show ?thesis using assms True by (simp add: ktty_ok_def scroll_def view_def)
next
  case False
  then have "screen_pos s \<ge> of_nat SCREEN_SIZE"
    by (simp add: screen_consts word_le_nat_alt)
  then show ?thesis
    using ktty_shift_eq [OF assms(1,2)] assms False
    by (auto simp: ktty_ok_def scroll_def view_def cells_shift)
qed

lemma line_feed:
  fixes p :: u64
  assumes "unat p < 2000"
  shows "unat (p + 80 - (p + 80) mod 80) = (unat p div 80 + 1) * 80"
proof -
  have a: "unat (p + 80) = unat p + 80"
    using assms unat_add_of_nat [of p 80] by simp
  have m: "unat ((p + 80) mod 80) = unat p mod 80"
    by (simp add: unat_mod a)
  have "(p + 80) mod 80 \<le> p + 80"
    unfolding word_le_nat_alt m a by simp
  then have "unat (p + 80 - (p + 80) mod 80) = unat p + 80 - unat p mod 80"
    by (simp add: unat_sub a m)
  then show ?thesis by (simp add: minus_mod_eq_div_mult [symmetric])
qed

lemma putc_step:
  assumes "ktty_ok s"
  shows "\<exists>s'. ktty_putc c s = Inr s' \<and> ktty_ok s' \<and> view s' = print_char (ktty_attribute s) c (view s)
     \<and> ktty_attribute s' = ktty_attribute s"
proof -
  let ?p = "unat (screen_pos s)"
  have ok: "screen_base s = SCREEN_START_COLOUR" "length (video s) = 4000" "?p < 2000"
    using assms by (simp_all add: ktty_ok_def)
  have u: "unat (screen_pos s * 2) = 2 * ?p" "unat (screen_pos s * 2 + 1) = 2 * ?p + 1"
    using ok(3) by (simp_all add: unat_word_ariths)
  have n: "unat (screen_pos s + 1) = ?p + 1" using ok(3) by (simp add: unat_word_ariths)
  show ?thesis
  proof (cases "c = 10")
    case True
    let ?s = "s\<lparr>screen_pos := screen_pos s + 80 - (screen_pos s + 80) mod 80\<rparr>"
    have v: "view ?s = (cells s, (?p div 80 + 1) * 80)"
      using line_feed [OF ok(3)] by (simp add: view_def cells_def)
    then have "unat (screen_pos ?s) < 3000" using ok(3) line_feed [OF ok(3)] by simp
    then show ?thesis
      using finish_scroll [of ?s] ok True v
      by (simp add: ktty_putc_def SCREEN_WIDTH_def print_char_def view_def Let_def)
  next
    case False
    let ?s = "s\<lparr>video := (video s)[2 * ?p := c, Suc (2 * ?p) := ktty_attribute s], screen_pos := screen_pos s + 1\<rparr>"
    have "view ?s = ((cells s)[?p := (c, ktty_attribute s)], ?p + 1)"
      using cells_put [OF ok(2,3), of ?s] n by (simp add: view_def)
    then show ?thesis
      using finish_scroll [of ?s] ok False n u
      by (simp add: ktty_putc_def vput_def print_char_def view_def split del: if_split cong: if_cong)
  qed
qed

lemma puts_prints:
  assumes "ktty_ok s" and "0 \<notin> set cs"
  shows "\<exists>s'. ktty_puts (cs @ 0 # rest) s = Inr s' \<and> ktty_ok s'
    \<and> view s' = fold (print_char (ktty_attribute s)) cs (view s) \<and> ktty_attribute s' = ktty_attribute s"
  using assms
proof (induction cs arbitrary: s)
  case (Cons c cs)
  obtain s1 where s1: "ktty_putc c s = Inr s1" "ktty_ok s1"
    "view s1 = print_char (ktty_attribute s) c (view s)" "ktty_attribute s1 = ktty_attribute s"
    using putc_step [OF Cons.prems(1), of c] by blast
  then show ?case using Cons.IH [OF s1(2)] Cons.prems by auto
qed simp

text \<open>
  C24. On a console in order \<^verbatim>\<open>ktty_puts\<close> prints the characters up to the zero byte as the
  specification does, one after another, scrolling as often as needed; it writes nowhere
  but to the screen, and the cursor stays on it.
\<close>

theorem ktty_puts_prints:
  assumes "ktty_ok s" and "0 \<notin> set cs"
  shows "\<exists>s'. ktty_puts (cs @ 0 # rest) s = Inr s' \<and> ktty_ok s'
    \<and> view s' = fold (print_char (ktty_attribute s)) cs (view s)"
  using puts_prints [OF assms] by blast

text \<open>A console after \<^verbatim>\<open>ktty_init\<close>.\<close>

definition demo_ktty :: ktty where
  "demo_ktty = \<lparr>screen_base = SCREEN_START_COLOUR, screen_pos = 0, ktty_attribute = 7, video = replicate 4000 0\<rparr>"

lemma demo_ktty_ok: "ktty_ok demo_ktty"
  by (simp add: ktty_ok_def demo_ktty_def)

theorem ktty_puts_prints_witness:
  "ktty_ok demo_ktty \<and> (\<exists>s'. ktty_puts [72, 10, 0] demo_ktty = Inr s' \<and> unat (screen_pos s') = 80)"
proof -
  obtain s' where "ktty_puts ([72, 10] @ 0 # []) demo_ktty = Inr s'"
    "view s' = fold (print_char (ktty_attribute demo_ktty)) [72, 10] (view demo_ktty)"
    using ktty_puts_prints [OF demo_ktty_ok, of "[72, 10]" "[]"] by auto
  then show ?thesis
    using demo_ktty_ok by (auto simp: view_def print_char_def scroll_def demo_ktty_def)
qed

end
