(* ===== verification/Fs_Core.thy ===== *)
theory Fs_Core
  imports Mem Ktty
begin

text \<open>
  What the parts of the file system share (\<^verbatim>\<open>fs/vfs/vfs.h\<close>, \<^verbatim>\<open>fs/vfs/dirent.h\<close>, the allocation functions of
  \<^verbatim>\<open>fs/vfs/vfs.c\<close>): nodes, directory entries, the drivers by name, the bytes of memory that buffers
  occupy, and the string functions of C on the bytes of a name. Nodes and directory entries are
  kept apart from the bytes, each at the address \<^verbatim>\<open>kmalloc\<close> returned. The error numbers come from the C
  library and are parameters, as is the disk behind the ATA interface. The locale \<open>storage\<close> is what the
  layers above a device rely on.
\<close>

section \<open>Constants and data\<close>

definition MAXNAMLEN :: nat where "MAXNAMLEN = 255"

definition VFS_DIRECTORY :: u32 where "VFS_DIRECTORY = 0x02"
definition VFS_CHARDEV :: u32 where "VFS_CHARDEV = 0x04"
definition VFS_PIPE :: u32 where "VFS_PIPE = 0x10"
definition VFS_MOUNTPOINT :: u32 where "VFS_MOUNTPOINT = 0x40"
definition VFS_TTY :: u32 where "VFS_TTY = 0x80"
definition VFS_STORAGE :: u32 where "VFS_STORAGE = 0x100"

lemmas vfs_flags = VFS_DIRECTORY_def VFS_CHARDEV_def VFS_PIPE_def VFS_MOUNTPOINT_def VFS_TTY_def VFS_STORAGE_def

text \<open>
  The driver tables of the system by name. \<open>NoDrv\<close> is the pointer \<^verbatim>\<open>NULL\<close>.
\<close>

datatype driver = NoDrv | DevfsDrv | InitrdDrv | AtaDrv | MdpartDrv | TtyDrv | Ext2Drv

record vfs_node =
  name :: "u8 list"
  rights :: u32
  flags :: u32
  uid :: u64
  gid :: u64
  inode :: u64
  length_of :: u64
  reserved :: u64
  drv :: driver
  ptr :: u64

record dirent =
  d_name :: "u8 list"
  d_inode :: u64

abbreviation SIZEOF_NODE :: u64 where "SIZEOF_NODE \<equiv> 320"
abbreviation SIZEOF_DIRENT :: u64 where "SIZEOF_DIRENT \<equiv> 264"

definition zero_node :: vfs_node where
  "zero_node = \<lparr>name = replicate 256 0, rights = 0, flags = 0, uid = 0, gid = 0, inode = 0, length_of = 0,
     reserved = 0, drv = NoDrv, ptr = 0\<rparr>"

definition zero_dirent :: dirent where
  "zero_dirent = \<lparr>d_name = replicate 256 0, d_inode = 0\<rparr>"

text \<open>The error numbers of the C library, and the bytes of the disk.\<close>

record env =
  EBADF :: u32
  EINVAL :: u32
  ENOTDIR :: u32
  EBUSY :: u32
  EXDEV :: u32
  ENOENT :: u32
  ENFILE :: u32
  disk :: "nat \<Rightarrow> u8"

text \<open>An \<^verbatim>\<open>int\<close> returned as \<^verbatim>\<open>uint64_t\<close>.\<close>

definition int_u64 :: "u32 \<Rightarrow> u64" where
  "int_u64 x = scast x"

record fs =
  fnodes :: "u64 \<rightharpoonup> vfs_node"
  dents :: "u64 \<rightharpoonup> dirent"
  ram :: "u64 \<Rightarrow> u8"
  fheap :: heap
  dev_nodes :: "u64 list"
  nod_cnt :: nat
  console :: ktty

definition node_at :: "u64 \<Rightarrow> fs \<Rightarrow> vfs_node res" where
  "node_at p s = of_opt (BadAddr p) (fnodes s p)"

definition put_node :: "u64 \<Rightarrow> vfs_node \<Rightarrow> fs \<Rightarrow> fs" where
  "put_node p n s = s\<lparr>fnodes := (fnodes s)(p \<mapsto> n)\<rparr>"

definition fs_kmalloc :: "u64 \<Rightarrow> fs \<Rightarrow> (u64 \<times> fs) res" where
  "fs_kmalloc sz s = rbind (kmalloc sz (fheap s)) (\<lambda>(p, H). Inr (p, s\<lparr>fheap := H\<rparr>))"

definition fs_kfree :: "u64 \<Rightarrow> fs \<Rightarrow> fs res" where
  "fs_kfree p s = rbind (kfree p (fheap s)) (\<lambda>H. Inr (s\<lparr>fheap := H\<rparr>))"

definition vfs_alloc_node :: "fs \<Rightarrow> (u64 \<times> fs) res" where
  "vfs_alloc_node s =
     rbind (fs_kmalloc SIZEOF_NODE s) (\<lambda>(res, s).
       if res \<noteq> 0 then Inr (res, put_node res zero_node s) else Inr (res, s))"

definition vfs_alloc_dirent :: "fs \<Rightarrow> (u64 \<times> fs) res" where
  "vfs_alloc_dirent s =
     rbind (fs_kmalloc SIZEOF_DIRENT s) (\<lambda>(res, s).
       if res \<noteq> 0 then Inr (res, s\<lparr>dents := (dents s)(res \<mapsto> zero_dirent)\<rparr>) else Inr (res, s))"

section \<open>Bytes in memory\<close>

definition load :: "u64 \<Rightarrow> nat \<Rightarrow> (u64 \<Rightarrow> u8) \<Rightarrow> u8 list" where
  "load a n m = map (\<lambda>i. m (a + of_nat i)) [0..<n]"

definition store :: "u64 \<Rightarrow> u8 list \<Rightarrow> (u64 \<Rightarrow> u8) \<Rightarrow> u64 \<Rightarrow> u8" where
  "store a bs m = (\<lambda>x. if unat (x - a) < length bs then bs ! unat (x - a) else m x)"

text \<open>
  \<^verbatim>\<open>memcpy\<close>. A length above \<open>2 ^ 63\<close>, a negative \<^verbatim>\<open>int\<close> taken as \<^verbatim>\<open>size_t\<close>, runs into unmapped memory.
\<close>

definition memcpy :: "u64 \<Rightarrow> u64 \<Rightarrow> u64 \<Rightarrow> (u64 \<Rightarrow> u8) \<Rightarrow> (u64 \<Rightarrow> u8) res" where
  "memcpy dst src n m =
     (if unat n < 2 ^ 63 then Inr (store dst (load src (unat n) m) m) else Inl (BadAddr dst))"

definition get16 :: "(u64 \<Rightarrow> u8) \<Rightarrow> u64 \<Rightarrow> u16" where
  "get16 m a = ucast (m a) OR push_bit 8 (ucast (m (a + 1)))"

definition get32 :: "(u64 \<Rightarrow> u8) \<Rightarrow> u64 \<Rightarrow> u32" where
  "get32 m a = ucast (m a) OR push_bit 8 (ucast (m (a + 1)))
     OR push_bit 16 (ucast (m (a + 2))) OR push_bit 24 (ucast (m (a + 3)))"

definition get64 :: "(u64 \<Rightarrow> u8) \<Rightarrow> u64 \<Rightarrow> u64" where
  "get64 m a = ucast (get32 m a) OR push_bit 32 (ucast (get32 m (a + 4)))"

text \<open>A structure read through a pointer; the first page is never mapped.\<close>

definition deref :: "((u64 \<Rightarrow> u8) \<Rightarrow> u64 \<Rightarrow> 'a) \<Rightarrow> u64 \<Rightarrow> fs \<Rightarrow> 'a res" where
  "deref get a s = (if a < 4096 then Inl (BadAddr a) else Inr (get (ram s) a))"

lemma load_length [simp]: "length (load a n m) = n"
  by (simp add: load_def)

lemma load_nth [simp]: "i < n \<Longrightarrow> load a n m ! i = m (a + of_nat i)"
  by (simp add: load_def)

lemma store_in:
  assumes "i < length bs" and "length bs < 2 ^ 64"
  shows "store a bs m (a + of_nat i) = bs ! i"
proof -
  have "unat (of_nat i :: u64) = i" using assms by (simp add: unat_of_nat)
  then show ?thesis using assms(1) by (simp add: store_def)
qed

lemma store_out: "\<not> unat (x - a) < length bs \<Longrightarrow> store a bs m x = m x"
  by (simp add: store_def)

lemma store_append:
  assumes "length xs + length ys < 2 ^ 64"
  shows "store (a + of_nat (length xs)) ys (store a xs m) = store a (xs @ ys) m"
proof (rule ext)
  fix x
  let ?d = "unat (x - a)" and ?e = "unat (x - (a + of_nat (length xs)))"
  have l: "unat (of_nat (length xs) :: u64) = length xs" using assms by (simp add: unat_of_nat)
  have e: "x - (a + of_nat (length xs)) = (x - a) - of_nat (length xs)" by simp
  show "store (a + of_nat (length xs)) ys (store a xs m) x = store a (xs @ ys) m x"
  proof (cases "?d < length xs")
    case True
    have "?e = 2 ^ 64 + ?d - length xs"
      unfolding e using True l by (simp add: unat_sub_if')
    then have "\<not> ?e < length ys" using assms True by linarith
    then show ?thesis using True by (simp add: store_def nth_append)
  next
    case False
    have "?e = ?d - length xs"
      unfolding e using False l by (simp add: unat_sub_if')
    then show ?thesis using False by (auto simp: store_def nth_append)
  qed
qed

lemma store_same: "(\<And>i. i < length bs \<Longrightarrow> a + of_nat i \<noteq> x) \<Longrightarrow> store a bs m x = m x"
  by (rule store_out) (metis add_diff_cancel_left' diff_add_cancel add.commute of_nat_unat ucast_id)

lemma load_store:
  assumes "length bs < 2 ^ 64"
  shows "load a (length bs) (store a bs m) = bs"
  using assms by (intro nth_equalityI) (auto simp: store_in)

section \<open>Strings\<close>

text \<open>The string that starts a list of bytes, and the functions of \<^verbatim>\<open>string.h\<close> that the drivers use.\<close>

definition cstr :: "u8 list \<Rightarrow> u8 list" where
  "cstr bs = takeWhile (\<lambda>b. b \<noteq> 0) bs"

definition strlen :: "u8 list \<Rightarrow> nat" where
  "strlen bs = length (cstr bs)"

definition strncpy :: "u8 list \<Rightarrow> u8 list \<Rightarrow> nat \<Rightarrow> u8 list" where
  "strncpy dst src n =
     (let t = take n (cstr src) in t @ replicate (n - length t) 0 @ drop n dst)"

text \<open>\<^verbatim>\<open>strncmp(a, b, n) == 0\<close>.\<close>

fun strncmp_eq :: "u8 list \<Rightarrow> u8 list \<Rightarrow> nat \<Rightarrow> bool" where
  "strncmp_eq a b 0 = True"
| "strncmp_eq [] [] (Suc n) = True"
| "strncmp_eq [] (y # ys) (Suc n) = (y = 0)"
| "strncmp_eq (x # xs) [] (Suc n) = (x = 0)"
| "strncmp_eq (x # xs) (y # ys) (Suc n) = (if x \<noteq> y then False else if x = 0 then True else strncmp_eq xs ys n)"

lemma strncmp_eq_take: "strncmp_eq a b n \<longleftrightarrow> take n (cstr a) = take n (cstr b)"
  by (induction a b n rule: strncmp_eq.induct) (auto simp: cstr_def)

lemma strncpy_length: "n \<le> length dst \<Longrightarrow> length (strncpy dst src n) = length dst"
  by (simp add: strncpy_def Let_def)

section \<open>Devices as storage\<close>

text \<open>
  What a layer above a device relies on: the device has \<open>contents\<close>, and a read within them of
  less than 2 GB to a buffer returns the number of bytes and stores exactly these bytes; the contents
  change only with the bytes of memory \<open>own\<close> that the device itself uses.
\<close>

type_synonym reader = "u64 \<Rightarrow> u64 \<Rightarrow> u64 \<Rightarrow> u64 \<Rightarrow> fs \<Rightarrow> (u64 \<times> fs) res"

definition cut :: "nat \<Rightarrow> nat \<Rightarrow> u8 list \<Rightarrow> u8 list" where
  "cut off n bs = take n (drop off bs)"

lemma cut_length: "off + n \<le> length bs \<Longrightarrow> length (cut off n bs) = n"
  by (simp add: cut_def)

lemma cut_cut: "off + n \<le> k \<Longrightarrow> cut off n (cut b k bs) = cut (b + off) n bs"
  by (simp add: cut_def drop_take take_take add.commute min_def)

locale storage =
  fixes rd :: reader
    and dev :: u64
    and ok :: "fs \<Rightarrow> bool"
    and contents :: "fs \<Rightarrow> u8 list"
    and own :: "u64 set"
  assumes read_law: "\<lbrakk>ok s; buf \<noteq> 0; unat off + unat n \<le> length (contents s); unat n < 2 ^ 31; 0 < unat n\<rbrakk>
      \<Longrightarrow> rd dev off n buf s = Inr (n, s\<lparr>ram := store buf (cut (unat off) (unat n) (contents s)) (ram s)\<rparr>)"
    and size_law: "ok s \<Longrightarrow> length (contents s) < 2 ^ 64"
    and keep_law: "\<lbrakk>ok s; \<And>x. x \<in> own \<Longrightarrow> m x = ram s x\<rbrakk>
      \<Longrightarrow> ok (s\<lparr>ram := m\<rparr>) \<and> contents (s\<lparr>ram := m\<rparr>) = contents s"
begin

text \<open>What is read is what the device holds.\<close>

lemma read_back:
  assumes "ok s" and "buf \<noteq> 0" and "unat off + unat n \<le> length (contents s)" and "unat n < 2 ^ 31" and "0 < unat n"
  obtains s' where "rd dev off n buf s = Inr (n, s')" and "load buf (unat n) (ram s') = cut (unat off) (unat n) (contents s)"
    and "fnodes s' = fnodes s" and "fheap s' = fheap s"
proof -
  let ?d = "cut (unat off) (unat n) (contents s)"
  have l: "length ?d = unat n" using assms(3) by (rule cut_length)
  have "load buf (unat n) (store buf ?d (ram s)) = ?d"
    using load_store [of ?d buf "ram s"] l assms(4) by simp
  then show thesis using that [of "s\<lparr>ram := store buf ?d (ram s)\<rparr>"] read_law [OF assms] by simp
qed

end

end
