(* ===== verification/Apic.thy ===== *)
theory Apic
  imports Page Fs_Core
begin

text \<open>
  Interrupt controllers and processors (\<^verbatim>\<open>x86_64/apic.c\<close>, \<^verbatim>\<open>x86_64/apic.h\<close>, \<^verbatim>\<open>x86_64/smp.c\<close>, \<^verbatim>\<open>x86_64/smp.h\<close>,
  \<^verbatim>\<open>x86_64/cpuid.c\<close>). The registers of the controllers are memory: accesses to them are a history of
  events, and what a read returns is a parameter, a function of the history, like the ports. The
  tables of the firmware are bytes of memory. The result of the instruction \<^verbatim>\<open>cpuid\<close> is a parameter.
\<close>

section \<open>Registers\<close>

definition APIC_TASKPRIOR :: nat where "APIC_TASKPRIOR = 0x080 div 4"
definition APIC_LDR :: nat where "APIC_LDR = 0x0D0 div 4"
definition APIC_DFR :: nat where "APIC_DFR = 0x0E0 div 4"
definition APIC_SPURIOUS :: nat where "APIC_SPURIOUS = 0x0F0 div 4"
definition APIC_ICRL :: nat where "APIC_ICRL = 0x300 div 4"
definition APIC_ICRH :: nat where "APIC_ICRH = 0x310 div 4"
definition APIC_LVT_TMR :: nat where "APIC_LVT_TMR = 0x320 div 4"
definition APIC_LVT_PERF :: nat where "APIC_LVT_PERF = 0x340 div 4"
definition APIC_LVT_LINT0 :: nat where "APIC_LVT_LINT0 = 0x350 div 4"
definition APIC_LVT_LINT1 :: nat where "APIC_LVT_LINT1 = 0x360 div 4"
definition APIC_TMRINITCNT :: nat where "APIC_TMRINITCNT = 0x380 div 4"
definition APIC_TMRCURRCNT :: nat where "APIC_TMRCURRCNT = 0x390 div 4"
definition APIC_TMRDIV :: nat where "APIC_TMRDIV = 0x3E0 div 4"
definition IOAPIC_REGSEL :: nat where "IOAPIC_REGSEL = 0x00 div 4"
definition IOAPIC_REGWIN :: nat where "IOAPIC_REGWIN = 0x10 div 4"

lemmas apic_regs = APIC_TASKPRIOR_def APIC_LDR_def APIC_DFR_def APIC_SPURIOUS_def APIC_ICRL_def APIC_ICRH_def
  APIC_LVT_TMR_def APIC_LVT_PERF_def APIC_LVT_LINT0_def APIC_LVT_LINT1_def APIC_TMRINITCNT_def APIC_TMRCURRCNT_def
  APIC_TMRDIV_def

definition AP_CODE :: u32 where "AP_CODE = 0x8000"
definition APIC_BASE_MSR :: u32 where "APIC_BASE_MSR = 0x1B"
definition APIC_BASE_MSR_ENABLE :: u32 where "APIC_BASE_MSR_ENABLE = 0x800"
definition APIC_DISABLE :: u32 where "APIC_DISABLE = 0x10000"
definition APIC_SW_ENABLE :: u32 where "APIC_SW_ENABLE = 0x100"
definition APIC_NMI :: u32 where "APIC_NMI = push_bit 8 4"
definition TMR_PERIODIC :: u32 where "TMR_PERIODIC = 0x20000"
definition APIC_LAPIC_ADDR :: u64 where "APIC_LAPIC_ADDR = 0xFFFFFFFFC00F0000"
definition APIC_IOAPIC_ADDR :: u64 where "APIC_IOAPIC_ADDR = 0xFFFFFFFFC00F1000"
definition IOAPIC_ENABLED :: u8 where "IOAPIC_ENABLED = 0x01"

text \<open>\<open>MWr base i v\<close> is \<^verbatim>\<open>base[i] = v\<close>, \<open>MRd base i v\<close> a read of \<^verbatim>\<open>base[i]\<close> that returned \<open>v\<close>.\<close>

datatype mm_ev = MWr u64 nat u32 | MRd u64 nat u32

type_synonym mmdev = "mm_ev list \<Rightarrow> u64 \<Rightarrow> nat \<Rightarrow> u32"

record apic =
  lapic_addr :: u64
  lapic_hw_addr :: u32
  ioapic_addr :: u64
  quantum :: u32
  apic_divisor :: u32
  cpu_nr :: u8
  mmio :: "mm_ev list"
  msr :: "u32 \<Rightarrow> u32 \<times> u32"
  avm :: vm
  acon :: ktty

definition reg_wr :: "u64 \<Rightarrow> nat \<Rightarrow> u32 \<Rightarrow> apic \<Rightarrow> apic" where
  "reg_wr base i v s = s\<lparr>mmio := mmio s @ [MWr base i v]\<rparr>"

definition reg_rd :: "mmdev \<Rightarrow> u64 \<Rightarrow> nat \<Rightarrow> apic \<Rightarrow> u32 \<times> apic" where
  "reg_rd mm base i s = (mm (mmio s) base i, s\<lparr>mmio := mmio s @ [MRd base i (mm (mmio s) base i)]\<rparr>)"

definition lapic_wr :: "nat \<Rightarrow> u32 \<Rightarrow> apic \<Rightarrow> apic" where
  "lapic_wr i v s = reg_wr (lapic_addr s) i v s"

text \<open>\<^verbatim>\<open>lapic_addr[i] = f(lapic_addr[i])\<close>\<close>

definition lapic_upd :: "mmdev \<Rightarrow> nat \<Rightarrow> (u32 \<Rightarrow> u32) \<Rightarrow> apic \<Rightarrow> apic" where
  "lapic_upd mm i f s = (let (v, s) = reg_rd mm (lapic_addr s) i s in lapic_wr i (f v) s)"

definition port_out :: "u16 \<Rightarrow> u8 \<Rightarrow> apic \<Rightarrow> apic" where
  "port_out p v s = s\<lparr>avm := (avm s)\<lparr>irq := out_port p v (irq (avm s))\<rparr>\<rparr>"

definition port_in :: "device \<Rightarrow> u16 \<Rightarrow> apic \<Rightarrow> u8 \<times> apic" where
  "port_in dev p s =
     (let (v, h) = inb dev p (ports (irq (avm s)))
      in (v, s\<lparr>avm := (avm s)\<lparr>irq := (irq (avm s))\<lparr>ports := h\<rparr>\<rparr>\<rparr>))"

section \<open>Processor identification\<close>

text \<open>The vendor string: \<open>cpuid\<close> gives the registers \<^verbatim>\<open>eax\<close>, \<^verbatim>\<open>ebx\<close>, \<^verbatim>\<open>ecx\<close>, \<^verbatim>\<open>edx\<close> for a function number. \<^verbatim>\<open>tmp[5]\<close> lies behind the array of 5.\<close>

type_synonym cpuid = "u32 \<Rightarrow> u32 \<times> u32 \<times> u32 \<times> u32"

definition CPU_get_vendor_string :: "cpuid \<Rightarrow> u32 list \<Rightarrow> u32 list res" where
  "CPU_get_vendor_string cpuid tmp =
     (if length tmp \<le> 5 then Inl (Oob 5)
      else let (a, b, c, d) = cpuid 0;
               tmp = tmp[5 := 0, 0 := a, 1 := b, 2 := c, 3 := d];
               tmp = tmp[0 := tmp ! 3];
               tmp = tmp[3 := tmp ! 2]
           in Inr (tmp[2 := tmp ! 0]))"

definition CPU_get_info :: "cpuid \<Rightarrow> u32" where
  "CPU_get_info cpuid = (case cpuid 1 of (a, b, c, d) \<Rightarrow> a)"

definition CPU_get_xinfo :: "cpuid \<Rightarrow> u32" where
  "CPU_get_xinfo cpuid = (case cpuid 1 of (a, b, c, d) \<Rightarrow> d)"

definition CPU_get_info_family :: "cpuid \<Rightarrow> u32" where
  "CPU_get_info_family cpuid = drop_bit 8 (CPU_get_info cpuid AND 0xF00)"

definition CPU_get_info_model :: "cpuid \<Rightarrow> u32" where
  "CPU_get_info_model cpuid = drop_bit 4 (CPU_get_info cpuid AND 0xF0)"

definition CPU_get_info_stepping :: "cpuid \<Rightarrow> u32" where
  "CPU_get_info_stepping cpuid = CPU_get_info cpuid AND 0xF"

definition CPU_get_info_type :: "cpuid \<Rightarrow> u32" where
  "CPU_get_info_type cpuid = drop_bit 12 (CPU_get_info cpuid AND 0x3000)"

definition CPU_read_MSR :: "u32 \<Rightarrow> apic \<Rightarrow> u32" where
  "CPU_read_MSR r s = fst (msr s r)"

definition CPU_write_MSR :: "u32 \<Rightarrow> u32 \<Rightarrow> u32 \<Rightarrow> apic \<Rightarrow> apic" where
  "CPU_write_MSR r eax edx s = s\<lparr>msr := (msr s)(r := (eax, edx))\<rparr>"

section \<open>Local controller\<close>

text \<open>The divisor that \<^verbatim>\<open>pit_wait\<close> loads: the product has 32 bits.\<close>

definition pit_divisor :: "u32 \<Rightarrow> u64" where
  "pit_divisor microsec = ucast (1193182 * microsec div 100000)"

definition pit_wait :: "device \<Rightarrow> u32 \<Rightarrow> apic \<Rightarrow> apic res" where
  "pit_wait dev microsec s =
     (let divisor = pit_divisor microsec;
          (v, s) = port_in dev 0x61 s;
          s = port_out 0x61 ((v AND 0xFD) OR 1) s;
          s = port_out 0x43 0xB2 s;
          s = port_out 0x42 (ucast (divisor AND 0xFF)) s;
          (_, s) = port_in dev 0x60 s;
          s = port_out 0x42 (ucast (drop_bit 8 divisor AND 0xFF)) s;
          (v, s) = port_in dev 0x61 s;
          tmp = v AND 0xFE;
          s = port_out 0x61 tmp s;
          s = port_out 0x61 (tmp OR 1) s
      in rbind (of_opt Diverge (wait_port dev 0x61 0x20 (ports (irq (avm s)))))
           (\<lambda>h. Inr (s\<lparr>avm := (avm s)\<lparr>irq := (irq (avm s))\<lparr>ports := h\<rparr>\<rparr>\<rparr>)))"

definition in_avm :: "(vm \<Rightarrow> vm res) \<Rightarrow> apic \<Rightarrow> apic res" where
  "in_avm f s = rbind (f (avm s)) (\<lambda>v. Inr (s\<lparr>avm := v\<rparr>))"

text \<open>The block of register settings that \<^verbatim>\<open>apic_init\<close> and \<^verbatim>\<open>apic_init_ap\<close> share.\<close>

definition lapic_setup :: "mmdev \<Rightarrow> apic \<Rightarrow> apic" where
  "lapic_setup mm s =
     (let s = lapic_wr APIC_DFR 0xFFFFFFFF s;
          s = lapic_upd mm APIC_LDR (\<lambda>v. (v AND 0x00FFFFFF) OR 1) s;
          s = lapic_wr APIC_LVT_TMR APIC_DISABLE s;
          s = lapic_wr APIC_LVT_PERF APIC_NMI s;
          s = lapic_upd mm APIC_LVT_LINT0 (\<lambda>v. v AND 0xFFFE58FF) s;
          s = lapic_upd mm APIC_LVT_LINT1 (\<lambda>v. v AND 0xFFFE58FF) s;
          s = lapic_upd mm APIC_LVT_LINT1 (\<lambda>v. v OR 0x400) s;
          s = lapic_wr APIC_TASKPRIOR 0 s;
          s = port_out 0x22 0x70 s;
          s = port_out 0x23 1 s
      in lapic_wr APIC_SPURIOUS (39 OR APIC_SW_ENABLE) s)"

text \<open>The start of the periodic timer.\<close>

definition timer_start :: "apic \<Rightarrow> apic" where
  "timer_start s =
     (let s = lapic_wr APIC_TMRINITCNT (if apic_divisor s < 16 then 16 else apic_divisor s) s;
          s = lapic_wr APIC_LVT_TMR (32 OR TMR_PERIODIC) s
      in lapic_wr APIC_TMRDIV 0x03 s)"

text \<open>The bus frequency from the count the timer has reached.\<close>

definition bus_freq :: "u32 \<Rightarrow> u32" where
  "bus_freq cnt = ((0xFFFFFFFF - cnt) + 1) * 16 * 100"

definition apic_init :: "device \<Rightarrow> mmdev \<Rightarrow> u64 \<Rightarrow> u32 \<Rightarrow> apic \<Rightarrow> apic res" where
  "apic_init dev mm apic_spur_isr lapic_a s =
     (let s = port_out 0xA1 0xFF (port_out 0x21 0xFF s);
          s = s\<lparr>lapic_addr := APIC_LAPIC_ADDR, lapic_hw_addr := lapic_a\<rparr>
      in rbind (in_avm (mount_page_hw (ucast lapic_a) (lapic_addr s)) s) (\<lambda>s.
         rbind (in_avm (\<lambda>v. rbind (ext_intr_install 0x27 apic_spur_isr (irq v)) (\<lambda>q. Inr (v\<lparr>irq := q\<rparr>))) s) (\<lambda>s.
         let s = lapic_setup mm s;
             s = lapic_wr APIC_LVT_TMR 32 s;
             s = lapic_wr APIC_TMRDIV 0x03 s;
             s = lapic_wr APIC_TMRINITCNT 0xFFFFFFFF s
         in rbind (pit_wait dev 1000 s) (\<lambda>s.
            let s = lapic_wr APIC_LVT_TMR APIC_DISABLE s;
                (cnt, s) = reg_rd mm (lapic_addr s) APIC_TMRCURRCNT s
            in if quantum s = 0 then Inl DivZero
               else Inr (timer_start (s\<lparr>apic_divisor := bus_freq cnt div quantum s div 16\<rparr>))))))"

definition apic_init_ap :: "mmdev \<Rightarrow> apic \<Rightarrow> apic res" where
  "apic_init_ap mm s =
     rbind (in_avm (mount_page_hw (ucast (lapic_hw_addr s)) (lapic_addr s)) s) (\<lambda>s. Inr (timer_start (lapic_setup mm s)))"

definition apic_present :: u8 where
  "apic_present = 1"

definition apic_set_base :: "u32 \<Rightarrow> apic \<Rightarrow> apic" where
  "apic_set_base a s = CPU_write_MSR APIC_BASE_MSR ((a AND 0xFFFFF100) OR APIC_BASE_MSR_ENABLE) 0 s"

definition apic_get_base :: "apic \<Rightarrow> u32" where
  "apic_get_base s = CPU_read_MSR APIC_BASE_MSR s AND 0xFFFFF100"

definition apic_enable :: "mmdev \<Rightarrow> apic \<Rightarrow> apic" where
  "apic_enable mm s = lapic_upd mm APIC_SPURIOUS (\<lambda>v. v OR APIC_SW_ENABLE) (apic_set_base (apic_get_base s) s)"

text \<open>\<^verbatim>\<open>apic_eoi\<close>: nothing is written before the controller is set up.\<close>

definition apic_eoi :: "apic \<Rightarrow> apic" where
  "apic_eoi s = (if lapic_addr s = 0 then s else lapic_wr (0xB0 div 4) 0 s)"

section \<open>Input/output controller\<close>

definition ioapic_read :: "mmdev \<Rightarrow> u8 \<Rightarrow> apic \<Rightarrow> u32 \<times> apic" where
  "ioapic_read mm reg s = reg_rd mm (ioapic_addr s) IOAPIC_REGWIN (reg_wr (ioapic_addr s) IOAPIC_REGSEL (ucast reg) s)"

definition ioapic_write :: "u8 \<Rightarrow> u32 \<Rightarrow> apic \<Rightarrow> apic" where
  "ioapic_write reg val s = reg_wr (ioapic_addr s) IOAPIC_REGWIN val (reg_wr (ioapic_addr s) IOAPIC_REGSEL (ucast reg) s)"

definition ioapic_init :: "u32 \<Rightarrow> apic \<Rightarrow> apic res" where
  "ioapic_init ioapic_phys s =
     (let s = s\<lparr>ioapic_addr := APIC_IOAPIC_ADDR\<rparr>
      in rbind (in_avm (mount_page_hw (ucast ioapic_phys) (ioapic_addr s)) s) (\<lambda>s.
           let s = ioapic_write 0x11 0 (ioapic_write 0x10 0x10000 s);
               s = ioapic_write 0x13 0 (ioapic_write 0x12 0x21 s)
           in Inr (ioapic_write 0x31 0 (ioapic_write 0x30 0xA030 s))))"

section \<open>Starting processors\<close>

text \<open>\<^verbatim>\<open>while(lapic_addr[APIC_ICRL]&0x1000);\<close> \<open>None\<close> if it is never left.\<close>

partial_function (option) icr_wait :: "mmdev \<Rightarrow> apic \<Rightarrow> apic option" where
  "icr_wait mm s =
     (let r = reg_rd mm (lapic_addr s) APIC_ICRL s
      in if fst r AND 0x1000 \<noteq> 0 then icr_wait mm (snd r) else Some (snd r))"

definition send_ipi :: "u8 \<Rightarrow> u32 \<Rightarrow> apic \<Rightarrow> apic" where
  "send_ipi apic_id cmd s = lapic_wr APIC_ICRL cmd (lapic_wr APIC_ICRH (push_bit 24 (ucast apic_id)) s)"

definition ap_init :: "device \<Rightarrow> mmdev \<Rightarrow> u8 \<Rightarrow> apic \<Rightarrow> apic res" where
  "ap_init dev mm apic_id s =
     rbind (of_opt Diverge (icr_wait mm (send_ipi apic_id 0x00004500 s))) (\<lambda>s.
     rbind (pit_wait dev 10000 s) (\<lambda>s.
     rbind (pit_wait dev 200 (send_ipi apic_id (0x00004600 OR drop_bit 12 AP_CODE) s)) (\<lambda>s.
     Inr (send_ipi apic_id (0x00004600 OR drop_bit 12 AP_CODE) s))))"

section \<open>The tables of the firmware\<close>

definition SMP_MAGIC :: u32 where "SMP_MAGIC = 0x5F504D5F"

type_synonym bytes = "u64 \<Rightarrow> u8"

record SMP =
  smp_magic :: u32
  smp_config :: u32
  smp_length :: u8
  smp_version :: u8
  smp_chksum :: u8
  smp_features :: "u8 list"

definition SMP_of :: "bytes \<Rightarrow> u64 \<Rightarrow> SMP" where
  "SMP_of m a = \<lparr>smp_magic = get32 m a, smp_config = get32 m (a + 4), smp_length = m (a + 8), smp_version = m (a + 9),
     smp_chksum = m (a + 10), smp_features = load (a + 11) 5 m\<rparr>"

record SMP_config =
  sc_magic :: u32
  sc_length :: u16
  sc_revision :: u8
  sc_chksum :: u8
  sc_oemid :: "u8 list"
  sc_productid :: "u8 list"
  sc_oem_tbl :: u32
  sc_oem_sz :: u16
  sc_count :: u16
  sc_lapic_addr :: u32
  sc_e_length :: u16
  sc_e_chksum :: u8
  sc_reserved :: u8

definition SMP_config_of :: "bytes \<Rightarrow> u64 \<Rightarrow> SMP_config" where
  "SMP_config_of m a = \<lparr>sc_magic = get32 m a, sc_length = get16 m (a + 4), sc_revision = m (a + 6), sc_chksum = m (a + 7),
     sc_oemid = load (a + 8) 8 m, sc_productid = load (a + 16) 12 m,
     sc_oem_tbl = get32 m (a + 28), sc_oem_sz = get16 m (a + 32), sc_count = get16 m (a + 34), sc_lapic_addr = get32 m (a + 36),
     sc_e_length = get16 m (a + 40), sc_e_chksum = m (a + 42), sc_reserved = m (a + 43)\<rparr>"

abbreviation SIZEOF_SMP_config :: u64 where "SIZEOF_SMP_config \<equiv> 44"

record SMP_proc =
  pr_type :: u8
  pr_apic_id :: u8
  pr_apic_version :: u8
  pr_enabled :: bool
  pr_bsp :: bool
  pr_cpu_sig :: u32
  pr_cpu_features :: u32
  pr_reserved :: u8
  pr_reserved2 :: u32

definition SMP_proc_of :: "bytes \<Rightarrow> u64 \<Rightarrow> SMP_proc" where
  "SMP_proc_of m a = \<lparr>pr_type = m a, pr_apic_id = m (a + 1), pr_apic_version = m (a + 2), pr_enabled = bit (m (a + 3)) 0,
     pr_bsp = bit (m (a + 3)) 1, pr_cpu_sig = get32 m (a + 4), pr_cpu_features = get32 m (a + 8),
     pr_reserved = drop_bit 2 (m (a + 3)), pr_reserved2 = get32 m (a + 12)\<rparr>"

record SMP_ioapic =
  io_type :: u8
  io_apic_id :: u8
  io_apic_version :: u8
  io_flags :: u8
  io_address :: u32

definition SMP_ioapic_of :: "bytes \<Rightarrow> u64 \<Rightarrow> SMP_ioapic" where
  "SMP_ioapic_of m a = \<lparr>io_type = m a, io_apic_id = m (a + 1), io_apic_version = m (a + 2), io_flags = m (a + 3), io_address = get32 m (a + 4)\<rparr>"

definition SMP_PROCESSOR :: u8 where "SMP_PROCESSOR = 0"
definition SMP_BUS :: u8 where "SMP_BUS = 1"
definition SMP_IOAPIC :: u8 where "SMP_IOAPIC = 2"
definition SMP_INTRSRC :: u8 where "SMP_INTRSRC = 3"

lemmas smp_types = SMP_PROCESSOR_def SMP_BUS_def SMP_IOAPIC_def SMP_INTRSRC_def

text \<open>The search for the signature among words; \<open>base\<close> is where the first megabyte is mapped.\<close>

definition LOW :: u64 where "LOW = 0xFFFFFFFFC0000000"

definition smp_scan :: "bytes \<Rightarrow> nat \<Rightarrow> nat \<Rightarrow> nat option" where
  "smp_scan m a b = List.find (\<lambda>i. get32 m (LOW + 4 * of_nat i) = SMP_MAGIC) [a div 4..<b div 4]"

text \<open>The loop over the entries of the configuration table; \<open>l\<close> entries are left.\<close>

primrec smp_entries :: "device \<Rightarrow> mmdev \<Rightarrow> bytes \<Rightarrow> nat \<Rightarrow> u64 \<Rightarrow> apic \<Rightarrow> apic res" where
  "smp_entries dev mm m 0 addr2 s = Inr s"
| "smp_entries dev mm m (Suc l) addr2 s =
     (if m addr2 = SMP_PROCESSOR
      then let p = SMP_proc_of m addr2
           in rbind (if \<not> pr_bsp p \<and> pr_apic_id p \<noteq> 0 then ap_init dev mm (pr_apic_id p) s else Inr s)
                (smp_entries dev mm m l (addr2 + 20))
      else if m addr2 = SMP_BUS then smp_entries dev mm m l (addr2 + 8) s
      else if m addr2 = SMP_IOAPIC
      then let io = SMP_ioapic_of m addr2
           in rbind (if io_flags io AND IOAPIC_ENABLED \<noteq> 0 then ioapic_init (io_address io) s else Inr s)
                (smp_entries dev mm m l (addr2 + 8))
      else if m addr2 = SMP_INTRSRC then smp_entries dev mm m l (addr2 + 8) s
      else Inr s)"

text \<open>What \<^verbatim>\<open>smp_init\<close> does when the signature is at word \<open>i\<close>.\<close>

definition smp_found :: "device \<Rightarrow> mmdev \<Rightarrow> u64 \<Rightarrow> bytes \<Rightarrow> nat \<Rightarrow> apic \<Rightarrow> apic res" where
  "smp_found dev mm isr m i s =
     (let smp = SMP_of m (LOW + 4 * of_nat i)
      in if smp_features smp ! 0 = 0
         then let sca = LOW + ucast (smp_config smp); sc = SMP_config_of m sca
              in rbind (apic_init dev mm isr (sc_lapic_addr sc) s)
                   (smp_entries dev mm m (unat (sc_count sc)) (sca + SIZEOF_SMP_config))
         else Inr s)"

text \<open>The message \<^verbatim>\<open>SMP not found\<close>, with its line feed and zero byte.\<close>

definition smp_not_found :: "u8 list" where
  "smp_not_found = [83, 77, 80, 32, 110, 111, 116, 32, 102, 111, 117, 110, 100, 10, 0]"

definition smp_init :: "device \<Rightarrow> mmdev \<Rightarrow> u64 \<Rightarrow> bytes \<Rightarrow> apic \<Rightarrow> apic res" where
  "smp_init dev mm isr m s =
     rbind (in_avm (mount_page 0x9F000 0xFFFFFFFFC009F000) (s\<lparr>cpu_nr := 1\<rparr>)) (\<lambda>s.
     rbind (case (case smp_scan m 0x9FC00 0xA0000 of Some i \<Rightarrow> Some i | None \<Rightarrow> smp_scan m 0xF0000 0x100000) of
              None \<Rightarrow> rbind (ktty_puts smp_not_found (acon s)) (\<lambda>t. Inr (s\<lparr>acon := t\<rparr>))
            | Some i \<Rightarrow> smp_found dev mm isr m i s) (\<lambda>s.
     in_avm (\<lambda>v. rbind (umount_page 0xFFFFFFFFC009F000 v) (\<lambda>(_, v). Inr v)) s))"

section \<open>Delays and the timer\<close>

text \<open>
  Up to 3599 microseconds the divisor of \<^verbatim>\<open>pit_wait\<close> is exact, and fits the 16 bits of the counter, for
  a delay ten times as long as asked for; from 3600 on the 32-bit product wraps, so that the 10000
  microseconds of \<^verbatim>\<open>ap_init\<close> give the divisor 33418.
\<close>

theorem pit_divisor_exact:
  "if unat us < 3600 then unat (pit_divisor us) = 1193182 * unat us div 100000 \<and> unat (pit_divisor us) < 2 ^ 16
   else unat (pit_divisor us) = (1193182 * unat us) mod 2 ^ 32 div 100000"
proof -
  have d: "unat (pit_divisor us) = (1193182 * unat us) mod 2 ^ 32 div 100000"
  proof -
    have "unat (1193182 * us div 100000) = (1193182 * unat us) mod 2 ^ 32 div 100000"
      by (simp add: unat_div unat_word_ariths(2))
    moreover have "unat (ucast w :: u64) = unat w" for w :: u32
    proof -
      have "unat w < 2 ^ 64" using unsigned_less [of w, where ?'a = nat] by simp
      then show ?thesis by (simp add: unsigned_ucast_eq take_bit_nat_eq_self)
    qed
    ultimately show ?thesis by (simp add: pit_divisor_def)
  qed
  moreover have "(1193182 * unat us) mod 2 ^ 32 = 1193182 * unat us" if "unat us < 3600" using that by simp
  moreover have "1193182 * unat us div 100000 < 2 ^ 16" if "unat us < 3600"
    using that by (simp add: div_less_iff_less_mult)
  ultimately show ?thesis by simp
qed

lemma pit_divisor_ap: "pit_divisor 10000 = 33418" "pit_divisor 1000 = 11931"
  by (simp_all add: pit_divisor_def)

end
