(* ===== verification/Vesa.thy ===== *)
theory Vesa
  imports Page Fs_Core
begin

text \<open>
  The graphics driver (\<^verbatim>\<open>x86_64/vesa/vesa.c\<close>, \<^verbatim>\<open>x86_64/vesa/vesa.h\<close>): the frame buffer of the video card is
  mounted page by page; a text is converted from UTF-8 to the code page 1251, drawn with an 8 by 8
  font into a buffer of 400 by 8 cells, and its cells are copied to the screen as pixels. The picture
  of the font (\<^verbatim>\<open>header_data\<close> of the generated \<^verbatim>\<open>font.h\<close>) is a parameter.
\<close>

section \<open>State\<close>

definition VESA_FB_ADDR :: u64 where "VESA_FB_ADDR = 0xFFFFFFFFB0000000"

record vesa_mode_info =
  mode_attr :: u16
  win_attr :: "u8 list"
  win_grain :: u16
  win_size :: u16
  win_seg :: "u16 list"
  win_scheme :: u32
  logical_scan :: u16
  h_res :: u16
  v_res :: u16
  char_width :: u8
  char_height :: u8
  memory_planes :: u8
  bpp :: u8
  banks :: u8
  memory_layout :: u8
  bank_size :: u8
  image_pages :: u8
  page_function :: u8
  rmask :: u8
  rpos :: u8
  gmask :: u8
  gpos :: u8
  bmask :: u8
  bpos :: u8
  resv_mask :: u8
  resv_pos :: u8
  dcm_info :: u8
  lfb_ptr :: u64
  offscreen_ptr :: u64
  offscreen_size :: u16
  vi_reserved :: "u8 list"

text \<open>The packed structure at an address; its pointers have 64 bits.\<close>

definition vesa_mode_info_of :: "(u64 \<Rightarrow> u8) \<Rightarrow> u64 \<Rightarrow> vesa_mode_info" where
  "vesa_mode_info_of m a =
     \<lparr>mode_attr = get16 m a, win_attr = load (a + 2) 2 m, win_grain = get16 m (a + 4), win_size = get16 m (a + 6),
      win_seg = [get16 m (a + 8), get16 m (a + 10)], win_scheme = get32 m (a + 12), logical_scan = get16 m (a + 16),
      h_res = get16 m (a + 18), v_res = get16 m (a + 20), char_width = m (a + 22), char_height = m (a + 23),
      memory_planes = m (a + 24), bpp = m (a + 25), banks = m (a + 26), memory_layout = m (a + 27),
      bank_size = m (a + 28), image_pages = m (a + 29), page_function = m (a + 30), rmask = m (a + 31),
      rpos = m (a + 32), gmask = m (a + 33), gpos = m (a + 34), bmask = m (a + 35), bpos = m (a + 36),
      resv_mask = m (a + 37), resv_pos = m (a + 38), dcm_info = m (a + 39), lfb_ptr = get64 m (a + 40),
      offscreen_ptr = get64 m (a + 48), offscreen_size = get16 m (a + 56), vi_reserved = load (a + 58) 206 m\<rparr>"

definition FB_WIDTH :: nat where "FB_WIDTH = 400"
definition FB_HEIGHT :: nat where "FB_HEIGHT = 8"

text \<open>
  \<^verbatim>\<open>framebuf[x][y]\<close> is the cell \<^verbatim>\<open>x * FB_HEIGHT + y\<close> of the array; \<open>vx\<close> and \<open>vy\<close> are the variables \<^verbatim>\<open>x\<close> and \<^verbatim>\<open>y\<close>.
  \<open>pixels\<close> is the memory of the video card, by address.
\<close>

record vesa =
  vesa_width :: u64
  vesa_height :: u64
  vesa_bpp :: u64
  font :: "u8 list list"
  framebuf :: "u8 list"
  vx :: u32
  vy :: u32
  pixels :: "u64 \<Rightarrow> u8"
  vvm :: vm

section \<open>Text\<close>

text \<open>
  \<^verbatim>\<open>utf2win\<close>: the bytes it reads are the argument, those it writes the result, the closing zero
  included. A sequence that is cut off makes it step over the end of the string.
\<close>

definition utf_pair :: "u8 \<Rightarrow> u8 \<Rightarrow> u8" where
  "utf_pair u v =
     (if v AND 0x91 = 0x81 OR push_bit 4 (u AND 1) then v + 0x27
      else (v OR push_bit 6 (u AND 1)) + 0x30)"

fun utf2win :: "u8 list \<Rightarrow> u8 list res" where
  "utf2win [] = Inl (Oob 0)"
| "utf2win [u] =
     (if u = 0 then Inr [0] else Inl (Oob 0))"
| "utf2win (u # v # us) =
     (if u = 0 then Inr [0]
      else if u < 0x80 then rbind (utf2win (v # us)) (\<lambda>w. Inr (u # w))
      else if u AND 0xFE = 0xD0 then rbind (utf2win us) (\<lambda>w. Inr (utf_pair u v # w))
      else rbind (utf2win us) (\<lambda>w. Inr (63 # w)))"

section \<open>Font and characters\<close>

definition font_bit :: "nat \<Rightarrow> nat \<Rightarrow> vesa \<Rightarrow> vesa" where
  "font_bit i j s =
     (let c = i div 8 * 16 + j div 8
      in s\<lparr>font := (font s)[c := (font s ! c)[i mod 8 := font s ! c ! (i mod 8) OR push_bit (7 - j mod 8) 1]]\<rparr>)"

definition load_font :: "(nat \<Rightarrow> u8) \<Rightarrow> vesa \<Rightarrow> vesa" where
  "load_font header_data s =
     fold (\<lambda>(i, j) s. if header_data (i * 128 + j) \<noteq> 0 then font_bit i j s else s) (List.product [0..<128] [0..<128]) s"

definition put_cell :: "u8 \<Rightarrow> nat \<Rightarrow> nat \<Rightarrow> vesa \<Rightarrow> vesa res" where
  "put_cell c i j s =
     (let k = unat (vx s + of_nat j) * FB_HEIGHT + unat (vy s + of_nat i)
      in if k < FB_WIDTH * FB_HEIGHT
         then Inr (s\<lparr>framebuf := (framebuf s)[k := if push_bit (7 - j) 1 AND font s ! unat c ! i \<noteq> 0 then 120 else 32]\<rparr>)
         else Inl (Oob (int k)))"

fun put_cells :: "u8 \<Rightarrow> (nat \<times> nat) list \<Rightarrow> vesa \<Rightarrow> vesa res" where
  "put_cells c [] s = Inr s"
| "put_cells c ((i, j) # ps) s = rbind (put_cell c i j s) (put_cells c ps)"

definition put_char :: "u8 \<Rightarrow> vesa \<Rightarrow> vesa res" where
  "put_char c s =
     rbind (put_cells c (List.product [0..<8] [0..<8]) s) (\<lambda>s.
       let s = s\<lparr>vx := vx s + 8\<rparr>
       in Inr (if of_nat FB_WIDTH \<le> vx s + 8 then s\<lparr>vx := 0, vy := vy s + 8\<rparr> else s))"

fun put_s :: "u8 list \<Rightarrow> vesa \<Rightarrow> vesa res" where
  "put_s [] s = Inl (Oob 0)"
| "put_s (c # cs) s = (if c = 0 then Inr s else rbind (put_char c s) (put_s cs))"

section \<open>Pixels\<close>

definition putpixel :: "u32 \<Rightarrow> u32 \<Rightarrow> vesa \<Rightarrow> vesa" where
  "putpixel x y s =
     (let k = int_u64 y * vesa_width s + int_u64 x
      in if vesa_bpp s = 8 then s\<lparr>pixels := store (VESA_FB_ADDR + k) [0xFF] (pixels s)\<rparr>
         else if vesa_bpp s = 16 then s\<lparr>pixels := store (VESA_FB_ADDR + 2 * k) [0xFF, 0xFF] (pixels s)\<rparr>
         else if vesa_bpp s = 32 then s\<lparr>pixels := store (VESA_FB_ADDR + 4 * k) [0xFF, 0xFF, 0xFF, 0xFF] (pixels s)\<rparr>
         else s)"

definition show_cell :: "nat \<Rightarrow> nat \<Rightarrow> vesa \<Rightarrow> vesa" where
  "show_cell x y s = (if framebuf s ! (x * FB_HEIGHT + y) \<noteq> 32 then putpixel (of_nat x) (of_nat y) s else s)"

definition show_cells :: "vesa \<Rightarrow> vesa" where
  "show_cells s =
     (fold (\<lambda>(y, x). show_cell x y) (List.product [0..<FB_HEIGHT] [0..<FB_WIDTH]) s)
       \<lparr>vx := of_nat FB_WIDTH, vy := of_nat FB_HEIGHT\<rparr>"

text \<open>
  \<^verbatim>\<open>test\<close>; \<open>t\<close> is its text with the closing zero. The block for the converted text is taken from the
  heap and never given back; without one the conversion would write at address 0.
\<close>

definition test :: "(nat \<Rightarrow> u8) \<Rightarrow> u8 list \<Rightarrow> vesa \<Rightarrow> vesa res" where
  "test header_data t s =
     (let s = load_font header_data (s\<lparr>vx := 0, vy := 0\<rparr>)
      in rbind (kmalloc (of_nat (strlen t) + 1) (kheap (vvm s))) (\<lambda>(c, H).
         let s = s\<lparr>vvm := (vvm s)\<lparr>kheap := H\<rparr>\<rparr>
         in if c = 0 then Inl (BadAddr 0)
            else rbind (utf2win t) (\<lambda>w. rbind (put_s w s) (\<lambda>s. Inr (show_cells s)))))"

section \<open>Mounting the frame buffer\<close>

text \<open>\<^verbatim>\<open>limit\<close>: the product and the shift are those of \<^verbatim>\<open>int\<close>.\<close>

definition fb_limit :: "vesa_mode_info \<Rightarrow> u64" where
  "fb_limit vi = int_u64 (signed_drop_bit 3 (ucast (h_res vi) * ucast (v_res vi) * ucast (bpp vi)))"

definition fb_mount :: "vesa_mode_info \<Rightarrow> vm \<Rightarrow> vm res" where
  "fb_mount vi s =
     of_loop (page_loop (\<lambda>i s. mount_page_hw (lfb_ptr vi + i) (VESA_FB_ADDR + i) s) (fb_limit vi) 0 s)"

definition vesa_init :: "(nat \<Rightarrow> u8) \<Rightarrow> u8 list \<Rightarrow> vesa_mode_info \<Rightarrow> vesa \<Rightarrow> vesa res" where
  "vesa_init header_data t vi s =
     rbind (fb_mount vi (vvm s)) (\<lambda>v.
       test header_data t (s\<lparr>vvm := v, vesa_width := ucast (h_res vi), vesa_height := ucast (v_res vi),
         vesa_bpp := ucast (bpp vi)\<rparr>))"

section \<open>Conversion of text\<close>

text \<open>The two encodings of a character, given by its number in Unicode.\<close>

definition utf8 :: "nat \<Rightarrow> u8 list" where
  "utf8 c = (if c < 0x80 then [of_nat c] else [of_nat (0xC0 + c div 64), of_nat (0x80 + c mod 64)])"

definition cp1251 :: "nat \<Rightarrow> u8" where
  "cp1251 c = (if c < 0x80 then of_nat c else if c = 0x401 then 0xA8 else if c = 0x451 then 0xB8 else of_nat (c - 0x350))"

text \<open>The characters of a Russian text, and the capital letters that the test for the letter Yo also takes.\<close>

definition letters :: "nat list" where
  "letters = 0x401 # 0x451 # [0x410..<0x450]"

definition like_yo :: "nat \<Rightarrow> bool" where
  "like_yo c \<longleftrightarrow> 0x421 \<le> c \<and> c \<le> 0x42F \<and> odd c"

definition shown :: "nat \<Rightarrow> u8" where
  "shown c = (if like_yo c then cp1251 c - 9 else cp1251 c)"

lemma utf_pair_letters:
  "list_all (\<lambda>c. case utf8 c of [u, v] \<Rightarrow> \<not> u < 0x80 \<and> u AND 0xFE = 0xD0 \<and> utf_pair u v = shown c | _ \<Rightarrow> False) letters"
  by (simp add: letters_def utf8_def utf_pair_def shown_def like_yo_def cp1251_def upt_rec_numeral)

lemma utf2win_letter: "c \<in> set letters \<Longrightarrow> utf2win (utf8 c @ us) = rbind (utf2win us) (\<lambda>w. Inr (shown c # w))"
  using utf_pair_letters unfolding list_all_iff
  by (fastforce split: list.splits)

lemma utf2win_ascii: "0 < c \<Longrightarrow> c < 0x80 \<Longrightarrow> us \<noteq> [] \<Longrightarrow> utf2win (utf8 c @ us) = rbind (utf2win us) (\<lambda>w. Inr (shown c # w))"
proof -
  assume c: "0 < c" "c < 0x80" and us: "us \<noteq> []"
  have "unat (of_nat c :: u8) = c" using c(2) by (simp add: unat_of_nat)
  then have "(of_nat c :: u8) \<noteq> 0" "(of_nat c :: u8) < 0x80" using c by (auto simp: word_less_nat_alt)
  then show ?thesis using c us by (cases us) (simp_all add: utf8_def shown_def like_yo_def cp1251_def)
qed

lemma utf2win_text:
  assumes "\<forall>c \<in> set cs. 0 < c \<and> c < 0x80 \<or> c \<in> set letters"
  shows "utf2win (concat (map utf8 cs) @ [0]) = Inr (map shown cs @ [0])"
  using assms
proof (induction cs)
  case (Cons c cs)
  then have "utf2win (utf8 c @ concat (map utf8 cs) @ [0]) = rbind (utf2win (concat (map utf8 cs) @ [0])) (\<lambda>w. Inr (shown c # w))"
    using utf2win_letter utf2win_ascii by (cases "c < 0x80") (auto simp: letters_def)
  then show ?case using Cons by simp
qed simp

text \<open>
  C33. \<^verbatim>\<open>utf2win\<close> converts a text of ASCII characters and Russian letters from UTF-8 to the code page 1251,
  except for the eight capital letters with the odd numbers 0x421 to 0x42F, whose second byte passes the
  test for the letter Yo: their code is 9 too small.
\<close>

theorem utf2win_encodes:
  assumes "\<forall>c \<in> set cs. 0 < c \<and> c < 0x80 \<or> c \<in> set letters"
  shows "utf2win (concat (map utf8 cs) @ [0]) = Inr (map shown cs @ [0])"
  using assms by (rule utf2win_text)

theorem utf2win_encodes_witness:
  "utf2win [0xD0, 0xAB, 33, 0xD1, 0x91, 0] = Inr [0xD2, 33, 0xB8, 0]"
  using utf2win_encodes [of "[0x42B, 33, 0x451]"]
  by (simp add: letters_def utf8_def shown_def cp1251_def like_yo_def)

section \<open>Drawing\<close>

definition font_ok :: "vesa \<Rightarrow> bool" where
  "font_ok s \<longleftrightarrow> length (font s) = 256 \<and> (\<forall>c < 256. length (font s ! c) = 8)"

lemma font_bit_ok:
  assumes "font_ok s" and "i < 128" and "j < 128"
  shows "font_ok (font_bit i j s)"
    and "c < 256 \<Longrightarrow> r < 8 \<Longrightarrow> bit (font (font_bit i j s) ! c ! r) b \<longleftrightarrow>
      bit (font s ! c ! r) b \<or> c = i div 8 * 16 + j div 8 \<and> r = i mod 8 \<and> b = 7 - j mod 8"
proof -
  have "i div 8 < 16" "j div 8 < 16" using assms(2,3) by simp_all
  then have c: "i div 8 * 16 + j div 8 < 256" by linarith
  show "font_ok (font_bit i j s)"
    using assms(1) c by (auto simp: font_ok_def font_bit_def Let_def nth_list_update)
  have "7 - j mod 8 < 8" by simp
  then show "c < 256 \<Longrightarrow> r < 8 \<Longrightarrow> bit (font (font_bit i j s) ! c ! r) b \<longleftrightarrow>
      bit (font s ! c ! r) b \<or> c = i div 8 * 16 + j div 8 \<and> r = i mod 8 \<and> b = 7 - j mod 8"
    using assms(1) c by (auto simp: font_ok_def font_bit_def Let_def nth_list_update bit_simps)
qed

abbreviation font_step :: "(nat \<Rightarrow> u8) \<Rightarrow> nat \<times> nat \<Rightarrow> vesa \<Rightarrow> vesa" where
  "font_step h \<equiv> \<lambda>(i, j) s. if h (i * 128 + j) \<noteq> 0 then font_bit i j s else s"

lemma font_fold:
  assumes "c < 256" and "r < 8"
  shows "set ps \<subseteq> {0..<128} \<times> {0..<128} \<Longrightarrow> font_ok s \<Longrightarrow> font_ok (fold (font_step h) ps s) \<and>
    (bit (font (fold (font_step h) ps s) ! c ! r) b \<longleftrightarrow> bit (font s ! c ! r) b \<or>
      (\<exists>(i, j) \<in> set ps. h (i * 128 + j) \<noteq> 0 \<and> c = i div 8 * 16 + j div 8 \<and> r = i mod 8 \<and> b = 7 - j mod 8))"
proof (induction ps arbitrary: s)
  case (Cons p ps)
  obtain i j where p: "p = (i, j)" "i < 128" "j < 128" using Cons.prems(1) by (cases p) auto
  have ok: "font_ok (font_step h p s)" using font_bit_ok(1) Cons.prems(2) p by auto
  have "bit (font (font_step h p s) ! c ! r) b \<longleftrightarrow> bit (font s ! c ! r) b \<or>
      h (i * 128 + j) \<noteq> 0 \<and> c = i div 8 * 16 + j div 8 \<and> r = i mod 8 \<and> b = 7 - j mod 8"
    using font_bit_ok(2) [OF Cons.prems(2) p(2,3) assms, of b] p(1) by auto
  then show ?case using Cons.IH [OF _ ok] Cons.prems(1) p(1) by auto
qed simp

text \<open>The pixel \<open>j\<close> of row \<open>i\<close> of character \<open>c\<close> in the picture of 16 by 16 characters.\<close>

definition picture :: "(nat \<Rightarrow> u8) \<Rightarrow> nat \<Rightarrow> nat \<Rightarrow> nat \<Rightarrow> bool" where
  "picture h c i j \<longleftrightarrow> h ((c div 16 * 8 + i) * 128 + (c mod 16 * 8 + j)) \<noteq> 0"

lemma load_font_picture:
  assumes "font_ok s" and "c < 256" and "i < 8" and "j < 8"
  shows "font_ok (load_font h s)"
    and "bit (font (load_font h s) ! c ! i) (7 - j) \<longleftrightarrow> bit (font s ! c ! i) (7 - j) \<or> picture h c i j"
proof -
  let ?ps = "List.product [0..<128] [0..<128]"
  have ps: "set ?ps \<subseteq> {0..<128} \<times> {0..<128}" by auto
  show "font_ok (load_font h s)"
    unfolding load_font_def using font_fold [OF assms(2,3) ps assms(1)] by blast
  let ?i = "c div 16 * 8 + i" and ?j = "c mod 16 * 8 + j"
  have "(\<exists>(a, b) \<in> set ?ps. h (a * 128 + b) \<noteq> 0 \<and> c = a div 8 * 16 + b div 8 \<and> i = a mod 8 \<and> 7 - j = 7 - b mod 8)
      \<longleftrightarrow> h (?i * 128 + ?j) \<noteq> 0"
  proof
    assume "h (?i * 128 + ?j) \<noteq> 0"
    moreover have "c div 16 < 16" "c mod 16 < 16" using assms(2) by simp_all
    then have "?i < 128" "?j < 128" using assms(3,4) by linarith+
    moreover note this
    moreover have "c = ?i div 8 * 16 + ?j div 8" "i = ?i mod 8" "j = ?j mod 8" using assms(3,4) by auto
    ultimately show "\<exists>(a, b) \<in> set ?ps. h (a * 128 + b) \<noteq> 0 \<and> c = a div 8 * 16 + b div 8 \<and> i = a mod 8 \<and> 7 - j = 7 - b mod 8"
      by (intro bexI [of _ "(?i, ?j)"]) auto
  next
    assume "\<exists>(a, b) \<in> set ?ps. h (a * 128 + b) \<noteq> 0 \<and> c = a div 8 * 16 + b div 8 \<and> i = a mod 8 \<and> 7 - j = 7 - b mod 8"
    then obtain a b where ab: "h (a * 128 + b) \<noteq> 0" "c = a div 8 * 16 + b div 8" "i = a mod 8" "7 - j = 7 - b mod 8" "b < 128" by auto
    have "b mod 8 < 8" by simp
    then have j: "j = b mod 8" using ab(4) assms(4) by linarith
    have "b div 8 < 16" using ab(5) by linarith
    then have "c div 16 = a div 8" "c mod 16 = b div 8" using ab(2) by auto
    then have "?i = a" "?j = b" using ab(3) j by auto
    then show "h (?i * 128 + ?j) \<noteq> 0" using ab(1) by simp
  qed
  then show "bit (font (load_font h s) ! c ! i) (7 - j) \<longleftrightarrow> bit (font s ! c ! i) (7 - j) \<or> picture h c i j"
    unfolding load_font_def picture_def using font_fold [OF assms(2,3) ps assms(1), of h "7 - j"] by simp
qed

text \<open>
  A line of text: character \<open>p\<close> has the 64 cells from \<open>64 * p\<close> on, column after column. The line is
  full after 49 characters.
\<close>

definition glyph :: "vesa \<Rightarrow> u8 \<Rightarrow> nat \<Rightarrow> nat \<Rightarrow> u8" where
  "glyph s c i j = (if bit (font s ! unat c ! i) (7 - j) then 120 else 32)"

definition line_at :: "nat \<Rightarrow> vesa \<Rightarrow> bool" where
  "line_at p s \<longleftrightarrow> p < 49 \<and> unat (vx s) = 8 * p \<and> vy s = 0 \<and> length (framebuf s) = 3200"

lemma put_cell_eq:
  assumes "line_at p s" and "i < 8" and "j < 8"
  shows "put_cell c i j s = Inr (s\<lparr>framebuf := (framebuf s)[64 * p + 8 * j + i := glyph s c i j]\<rparr>)"
proof -
  have x: "unat (vx s + of_nat j) = 8 * p + j"
  proof -
    have "unat (of_nat j :: u32) = j" using assms(3) by (simp add: unat_of_nat)
    then have "unat (vx s) + unat (of_nat j :: u32) < 2 ^ LENGTH(32)" using assms(1,3) by (simp add: line_at_def)
    then show ?thesis using assms(1,3) \<open>unat (of_nat j :: u32) = j\<close>
      by (simp add: unat_word_ariths(1) line_at_def)
  qed
  have y: "unat (vy s + of_nat i) = i" using assms(1,2) by (simp add: line_at_def unat_of_nat)
  have "push_bit (7 - j) 1 AND font s ! unat c ! i \<noteq> 0 \<longleftrightarrow> bit (font s ! unat c ! i) (7 - j)"
    using and_exp_eq_0_iff_not_bit [of "font s ! unat c ! i" "7 - j"] by (simp add: push_bit_of_1 and.commute)
  moreover have "(8 * p + j) * 8 + i = 64 * p + 8 * j + i" by simp
  ultimately show ?thesis
    using x y assms unfolding put_cell_def glyph_def Let_def FB_WIDTH_def FB_HEIGHT_def line_at_def
    by (auto simp: mult.commute)
qed

lemma put_cells_eq:
  assumes "line_at p s" and "set qs \<subseteq> {0..<8} \<times> {0..<8}"
  shows "put_cells c qs s = Inr (s\<lparr>framebuf := fold (\<lambda>(i, j) f. f[64 * p + 8 * j + i := glyph s c i j]) qs (framebuf s)\<rparr>)"
  using assms
proof (induction qs arbitrary: s)
  case (Cons q qs)
  obtain i j where q: "q = (i, j)" "i < 8" "j < 8" using Cons.prems(2) by (cases q) auto
  let ?s = "s\<lparr>framebuf := (framebuf s)[64 * p + 8 * j + i := glyph s c i j]\<rparr>"
  have "line_at p ?s" "glyph ?s = glyph s" using Cons.prems(1) by (simp_all add: line_at_def fun_eq_iff glyph_def)
  then show ?case using put_cell_eq [OF Cons.prems(1) q(2,3)] Cons.IH [of ?s] Cons.prems(2) q(1) by simp
qed simp

lemma cell_div: "i < 8 \<Longrightarrow> j < 8 \<Longrightarrow> (64 * p + 8 * j + i) div 64 = p" for i j p :: nat
  by (rule div_nat_eqI) simp_all

lemma cell_inj: "a < 8 \<Longrightarrow> 64 * p + 8 * b + a = 64 * p + 8 * j + i \<Longrightarrow> i < 8 \<Longrightarrow> a = i \<and> b = j" for a b i j p :: nat
proof -
  assume "a < 8" "i < 8"
  then have "a = (8 * b + a) mod 8" "i = (8 * j + i) mod 8" by simp_all
  moreover assume e: "64 * p + 8 * b + a = 64 * p + 8 * j + i"
  moreover have "8 * b + a = 8 * j + i" using e by simp
  ultimately have "a = i" by metis
  then show ?thesis using e by simp
qed

lemma fold_cells:
  assumes "set qs \<subseteq> {0..<8} \<times> {0..<8}" and "64 * p + 64 \<le> length f"
  shows "let f' = fold (\<lambda>(i, j) f. f[64 * p + 8 * j + i := g i j]) qs f in
    length f' = length f \<and> (\<forall>i j. (i, j) \<in> set qs \<longrightarrow> f' ! (64 * p + 8 * j + i) = g i j) \<and> (\<forall>k. k div 64 \<noteq> p \<longrightarrow> f' ! k = f ! k)"
  using assms(1)
proof (induction qs rule: rev_induct)
  case (snoc q qs)
  let ?u = "\<lambda>(i, j) f. f[64 * p + 8 * j + i := g i j]"
  obtain a b where q: "q = (a, b)" "a < 8" "b < 8" using snoc.prems by (cases q) auto
  let ?k = "64 * p + 8 * b + a"
  define f' where "f' = fold ?u qs f"
  have IH: "length f' = length f" "\<And>i j. (i, j) \<in> set qs \<Longrightarrow> f' ! (64 * p + 8 * j + i) = g i j"
    "\<And>k. k div 64 \<noteq> p \<Longrightarrow> f' ! k = f ! k"
    using snoc by (auto simp: Let_def f'_def)
  have F: "fold ?u (qs @ [q]) f = f'[?k := g a b]" by (simp add: q(1) f'_def)
  have l: "?k < length f'" using assms(2) q(2,3) IH(1) by linarith
  have "f'[?k := g a b] ! (64 * p + 8 * j + i) = g i j" if m: "(i, j) \<in> set (qs @ [q])" for i j
  proof (cases "?k = 64 * p + 8 * j + i")
    case True
    have "i < 8" using m snoc.prems by auto
    then show ?thesis using cell_inj [OF q(2) True] l True by simp
  next
    case False
    then have "(i, j) \<in> set qs" using m q(1) by auto
    then show ?thesis using IH(2) False by (simp add: nth_list_update_neq)
  qed
  moreover have "f'[?k := g a b] ! k = f ! k" if "k div 64 \<noteq> p" for k
  proof -
    have "?k \<noteq> k" using that cell_div [OF q(2,3), of p] by auto
    then show ?thesis using IH(3) [OF that] by (simp add: nth_list_update_neq)
  qed
  ultimately show ?case unfolding F Let_def using IH(1) by simp
qed simp

text \<open>The state after a character.\<close>

lemma put_char_line:
  assumes "line_at p s"
  obtains s' where "put_char c s = Inr s'" and "font s' = font s"
    and "\<And>i j. i < 8 \<Longrightarrow> j < 8 \<Longrightarrow> framebuf s' ! (64 * p + 8 * j + i) = glyph s c i j"
    and "\<And>k. k div 64 \<noteq> p \<Longrightarrow> framebuf s' ! k = framebuf s ! k"
    and "if p < 48 then line_at (Suc p) s' else vx s' = 0 \<and> vy s' = 8"
proof -
  let ?qs = "List.product [0..<8] [0..<8 :: nat]"
  let ?f = "fold (\<lambda>(i, j) f. f[64 * p + 8 * j + i := glyph s c i j]) ?qs (framebuf s)"
  let ?s = "s\<lparr>framebuf := ?f, vx := vx s + 8\<rparr>"
  have F: "length ?f = 3200" "\<And>i j. i < 8 \<Longrightarrow> j < 8 \<Longrightarrow> ?f ! (64 * p + 8 * j + i) = glyph s c i j"
    "\<forall>k. k div 64 \<noteq> p \<longrightarrow> ?f ! k = framebuf s ! k"
    using fold_cells [of ?qs p "framebuf s" "glyph s c"] assms by (auto simp: Let_def line_at_def)
  have "unat (vx s + 8) = 8 * p + 8" "unat (vx s + 8 + 8) = 8 * p + 16"
    using assms by (auto simp: line_at_def unat_word_ariths(1))
  then have w: "of_nat FB_WIDTH \<le> vx s + 8 + 8 \<longleftrightarrow> \<not> p < 48" and x: "unat (vx ?s) = 8 * Suc p"
    by (auto simp: word_le_nat_alt FB_WIDTH_def)
  have "put_char c s = Inr (if p < 48 then ?s else ?s\<lparr>vx := 0, vy := 8\<rparr>)"
    using put_cells_eq [OF assms, of ?qs c] w assms by (auto simp: put_char_def Let_def line_at_def)
  moreover have "line_at (Suc p) ?s" if "p < 48" using assms that F(1) x by (simp add: line_at_def)
  ultimately show thesis using F(2,3) that [of "if p < 48 then ?s else ?s\<lparr>vx := 0, vy := 8\<rparr>"] by auto
qed

lemma put_s_line:
  assumes "line_at p s" and "0 \<notin> set cs" and "p + length cs \<le> 49"
  shows "\<exists>s'. put_s (cs @ 0 # rest) s = Inr s' \<and> font s' = font s
    \<and> (\<forall>q < length cs. \<forall>i < 8. \<forall>j < 8. framebuf s' ! (64 * (p + q) + 8 * j + i) = glyph s (cs ! q) i j)
    \<and> (\<forall>k. k div 64 < p \<or> p + length cs \<le> k div 64 \<longrightarrow> framebuf s' ! k = framebuf s ! k)"
  using assms
proof (induction cs arbitrary: p s)
  case (Cons c cs)
  obtain s1 where s1: "put_char c s = Inr s1" "font s1 = font s"
    "\<And>i j. i < 8 \<Longrightarrow> j < 8 \<Longrightarrow> framebuf s1 ! (64 * p + 8 * j + i) = glyph s c i j"
    "\<And>k. k div 64 \<noteq> p \<Longrightarrow> framebuf s1 ! k = framebuf s ! k"
    "if p < 48 then line_at (Suc p) s1 else vx s1 = 0 \<and> vy s1 = 8"
    using put_char_line [OF Cons.prems(1)] by blast
  have g: "glyph s1 = glyph s" using s1(2) by (simp add: fun_eq_iff glyph_def)
  obtain s2 where s2: "put_s (cs @ 0 # rest) s1 = Inr s2" "font s2 = font s1"
    "\<forall>q < length cs. \<forall>i < 8. \<forall>j < 8. framebuf s2 ! (64 * (Suc p + q) + 8 * j + i) = glyph s1 (cs ! q) i j"
    "\<forall>k. k div 64 < Suc p \<or> Suc p + length cs \<le> k div 64 \<longrightarrow> framebuf s2 ! k = framebuf s1 ! k"
  proof (cases cs)
    case Nil
    then show ?thesis using that [of s1] by simp
  next
    case (Cons d ds)
    then have "line_at (Suc p) s1" using s1(5) Cons.prems(3) \<open>cs = d # ds\<close> \<open>p + length (c # cs) \<le> 49\<close> by simp
    then show ?thesis using Cons.IH [of "Suc p" s1] \<open>p + length (c # cs) \<le> 49\<close> \<open>0 \<notin> set (c # cs)\<close> that by auto
  qed
  have "framebuf s2 ! (64 * (p + q) + 8 * j + i) = glyph s ((c # cs) ! q) i j"
    if "q < length (c # cs)" "i < 8" "j < 8" for q i j
  proof (cases q)
    case 0
    have "(64 * p + 8 * j + i) div 64 = p" by (rule cell_div [OF that(2,3)])
    then show ?thesis using s2(4) s1(3) that 0 by simp
  next
    case (Suc r)
    then show ?thesis using s2(3) that g by simp
  qed
  moreover have "framebuf s2 ! k = framebuf s ! k" if "k div 64 < p \<or> p + length (c # cs) \<le> k div 64" for k
    using s2(4) s1(4) that by auto
  ultimately show ?case using s1(1,2) s2(1,2) Cons.prems(2) by auto
qed auto


text \<open>The state of the driver at the start: only the first cell of \<^verbatim>\<open>framebuf\<close> is initialised with a space.\<close>

definition vesa_start :: "vm \<Rightarrow> vesa" where
  "vesa_start v = \<lparr>vesa_width = 0, vesa_height = 0, vesa_bpp = 0, font = replicate 256 (replicate 8 0),
     framebuf = 32 # replicate 3199 0, vx = 0, vy = 0, pixels = (\<lambda>_. 0), vvm = v\<rparr>"


section \<open>The frame buffer\<close>

lemma fb_limit_exact:
  assumes "unat (h_res vi) * unat (v_res vi) * unat (bpp vi) < 2 ^ 31"
  shows "unat (fb_limit vi) = unat (h_res vi) * unat (v_res vi) * unat (bpp vi) div 8"
proof -
  let ?p = "ucast (h_res vi) * ucast (v_res vi) * ucast (bpp vi) :: u32"
  let ?n = "unat (h_res vi) * unat (v_res vi) * unat (bpp vi)"
  have "unat ?p = ?n mod 2 ^ 32"
    by (simp add: unat_word_ariths(2) unsigned_ucast_eq take_bit_nat_def mod_mult_left_eq mod_mult_right_eq mult.assoc)
  then have p: "unat ?p = ?n" using assms by simp
  then have u: "uint ?p = int ?n" by (metis uint_nat)
  have k: "signed_take_bit 31 (int k) = int k" if "k < 2 ^ 31" for k :: nat
    by (rule signed_take_bit_int_eq_self) (use that in auto)
  have "sint ?p = int ?n" unfolding sint_uint u using k [OF assms] by (simp del: of_nat_mult)
  then have "sint (signed_drop_bit 3 ?p) = int (?n div 8)"
    by (simp add: sint_signed_drop_bit_eq drop_bit_eq_div zdiv_int)
  then have "fb_limit vi = of_int (int (?n div 8))"
    unfolding fb_limit_def int_u64_def by (metis scast_eq)
  then show ?thesis using assms by (simp add: unat_of_nat)
qed

text \<open>Mounting the pages of a range one after another, with the entry \<open>ent i\<close> at offset \<open>i\<close>.\<close>

lemma mount_page_do_present:
  assumes "vm_ok s" and "outside_window a" and "available (n + 3) (frames s)" and "bit ph 0"
  obtains s' where "mount_page_do a ph s = Inr s'" and "vm_ok s'" and "available n (frames s')"
    and "translate s' a = Some ph" and "\<And>b. lin_path b \<noteq> lin_path a \<Longrightarrow> translate s' b = translate s b"
proof -
  have "available 3 (frames s)" using available_mono [OF assms(3)] by simp
  then obtain m fr where r: "mount_page_do a ph s = Inr (pulse (s\<lparr>frames := fr, pmem := m\<rparr>))"
    and ins: "inserted 3 (root s) (lin_path a) ph (pmem s) (frames s) m fr"
    and mp: "map_path ph (root s) (lin_path a) (pmem s, frames s) = Inr (m, fr)"
    by (rule mount_page_do_inserts [OF assms(1,2)])
  have "m (kpt_slot s) = 0" using mount_page_do_closes [OF r] by simp
  note V = inserted_vm [OF assms(1) ins this]
  have "available n fr" using map_path_available [OF lin_path_ok _ mp, of n] assms(3) by (simp add: add.commute)
  then show thesis using that [OF r] V(1-3) assms(4) by simp
qed

lemma mount_pages:
  assumes "vm_ok s" and "available (3 * (n - k)) (frames s)" and "\<And>i. bit (ent i) 0" and "page_aligned addr"
    and "\<And>j. j < n \<Longrightarrow> outside_window (addr + of_nat (4096 * j))"
    and "n \<le> 2 ^ 36" and "k \<le> n" and "4096 * n < unat sz + 4096" and "unat sz \<le> 4096 * n"
  shows "\<exists>s'. page_loop (\<lambda>i. mount_page_do (addr + i) (ent i)) sz (of_nat (4096 * k)) s = Some (Inr s') \<and> vm_ok s'
     \<and> (\<forall>j. k \<le> j \<and> j < n \<longrightarrow> translate s' (addr + of_nat (4096 * j)) = Some (ent (of_nat (4096 * j))))
     \<and> (\<forall>b. (\<forall>j. k \<le> j \<and> j < n \<longrightarrow> lin_path b \<noteq> lin_path (addr + of_nat (4096 * j))) \<longrightarrow> translate s' b = translate s b)"
  using assms(1,2,7)
proof (induction "n - k" arbitrary: k s)
  case 0
  then have k: "k = n" by simp
  have "4096 * n < 2 ^ 64" using assms(6) by simp
  then have "unat (of_nat (4096 * n) :: u64) = 4096 * n" by (simp only: unat_of_nat) simp
  then have "\<not> of_nat (4096 * k) < sz" using assms(9) k by (simp add: word_less_nat_alt del: of_nat_mult)
  then have "page_loop (\<lambda>i. mount_page_do (addr + i) (ent i)) sz (of_nat (4096 * k)) s = Some (Inr s)"
    by (subst page_loop.simps) (simp del: of_nat_mult)
  then show ?case using "0.prems" k by (auto simp del: of_nat_mult)
next
  case (Suc d)
  have kn: "k < n" using Suc.hyps(2) by simp
  let ?a = "\<lambda>j. addr + of_nat (4096 * j)"
  have "4096 * k < 2 ^ 64" using assms(6) kn by simp
  then have "unat (of_nat (4096 * k) :: u64) = 4096 * k" by (simp only: unat_of_nat) simp
  then have lt: "of_nat (4096 * k) < sz" using assms(8) kn by (simp add: word_less_nat_alt del: of_nat_mult)
  have d: "d = n - Suc k" using Suc.hyps(2) by simp
  have "3 * (n - k) = 3 * (n - Suc k) + 3" using kn by simp
  then have av: "available (3 * (n - Suc k) + 3) (frames s)" using Suc.prems(2) by simp
  obtain s1 where b: "mount_page_do (?a k) (ent (of_nat (4096 * k))) s = Inr s1"
    and s1: "vm_ok s1" "available (3 * (n - Suc k)) (frames s1)" "translate s1 (?a k) = Some (ent (of_nat (4096 * k)))"
      "\<And>b. lin_path b \<noteq> lin_path (?a k) \<Longrightarrow> translate s1 b = translate s b"
    by (rule mount_page_do_present [OF Suc.prems(1) assms(5) [OF kn] av assms(3)]) blast
  obtain s' where L: "page_loop (\<lambda>i. mount_page_do (addr + i) (ent i)) sz (of_nat (4096 * Suc k)) s1 = Some (Inr s')"
    and s': "vm_ok s'" "\<forall>j. Suc k \<le> j \<and> j < n \<longrightarrow> translate s' (?a j) = Some (ent (of_nat (4096 * j)))"
      "\<forall>b. (\<forall>j. Suc k \<le> j \<and> j < n \<longrightarrow> lin_path b \<noteq> lin_path (?a j)) \<longrightarrow> translate s' b = translate s1 b"
    using Suc.hyps(1) [OF d s1(1,2)] kn by (auto simp del: of_nat_mult)
  have "(of_nat (4096 * k) :: u64) + 0x1000 = of_nat (4096 * Suc k)" by simp
  then have "page_loop (\<lambda>i. mount_page_do (addr + i) (ent i)) sz (of_nat (4096 * k)) s = Some (Inr s')"
    using lt b L by (subst page_loop.simps) (simp add: add.commute del: of_nat_mult)
  moreover have "lin_path (?a k) \<noteq> lin_path (?a i)" if "Suc k \<le> i" "i < n" for i
    using lin_path_inj [OF assms(4), of k i] that assms(6) by fastforce
  then have "translate s' (?a k) = Some (ent (of_nat (4096 * k)))" using s'(3) s1(3) by auto
  then have "translate s' (?a j) = Some (ent (of_nat (4096 * j)))" if "k \<le> j" "j < n" for j
    using s'(2) that by (cases "j = k") (auto simp del: of_nat_mult)
  moreover have "translate s' b = translate s b" if "\<forall>j. k \<le> j \<and> j < n \<longrightarrow> lin_path b \<noteq> lin_path (?a j)" for b
    using that s'(3) s1(4) kn by (metis Suc_leD le_refl)
  ultimately show ?case using s'(1) by blast
qed

lemma calc_page_hw_present: "bit (calc_page_hw p) 0"
  by (simp add: calc_page_hw_def set_flag_def bit_simps)

text \<open>The number of pages of the frame buffer.\<close>

definition fb_pages :: "vesa_mode_info \<Rightarrow> nat" where
  "fb_pages vi = (unat (h_res vi) * unat (v_res vi) * unat (bpp vi) div 8 + 4095) div 4096"

text \<open>
  C32. \<^verbatim>\<open>vesa_init\<close> mounts the whole frame buffer: while the number of its bits is below \<open>2 ^ 31\<close> and three frames
  per page are available for tables, every page of it is translated to the page of the video card, not
  cached, every other page as before, and the invariant of the tables holds.
\<close>

theorem fb_mount_maps:
  assumes "vm_ok s" and "available (3 * fb_pages vi) (frames s)"
    and "unat (h_res vi) * unat (v_res vi) * unat (bpp vi) < 2 ^ 31"
  shows "\<exists>s'. fb_mount vi s = Inr s' \<and> vm_ok s'
     \<and> (\<forall>j < fb_pages vi. translate s' (VESA_FB_ADDR + of_nat (4096 * j)) = Some (calc_page_hw (lfb_ptr vi + of_nat (4096 * j))))
     \<and> (\<forall>b. (\<forall>j < fb_pages vi. lin_path b \<noteq> lin_path (VESA_FB_ADDR + of_nat (4096 * j))) \<longrightarrow> translate s' b = translate s b)"
proof -
  let ?n = "fb_pages vi"
  have l: "4096 * ?n < unat (fb_limit vi) + 4096" "unat (fb_limit vi) \<le> 4096 * ?n" and n: "?n \<le> 65536"
    using fb_limit_exact [OF assms(3)] assms(3) unfolding fb_pages_def by simp_all
  have al: "page_aligned VESA_FB_ADDR" by (simp add: page_aligned_def VESA_FB_ADDR_def)
  have "TMP_MOUNT_ADDR = VESA_FB_ADDR + of_nat (4096 * 65536)" by (simp add: VESA_FB_ADDR_def TMP_MOUNT_ADDR_def)
  then have w: "outside_window (VESA_FB_ADDR + of_nat (4096 * j))" if "j < ?n" for j
    using lin_path_inj [OF al, of j 65536] that n by (auto simp: outside_window_def simp del: of_nat_mult)
  have "\<exists>s'. page_loop (\<lambda>i. mount_page_do (VESA_FB_ADDR + i) (calc_page_hw (lfb_ptr vi + i))) (fb_limit vi) (of_nat (4096 * 0)) s
       = Some (Inr s') \<and> vm_ok s'
     \<and> (\<forall>j. 0 \<le> j \<and> j < ?n \<longrightarrow> translate s' (VESA_FB_ADDR + of_nat (4096 * j)) = Some (calc_page_hw (lfb_ptr vi + of_nat (4096 * j))))
     \<and> (\<forall>b. (\<forall>j. 0 \<le> j \<and> j < ?n \<longrightarrow> lin_path b \<noteq> lin_path (VESA_FB_ADDR + of_nat (4096 * j))) \<longrightarrow> translate s' b = translate s b)"
    by (rule mount_pages) (use assms(1,2) calc_page_hw_present al w n l in auto)
  then show ?thesis unfolding fb_mount_def mount_page_hw_def by (auto simp del: of_nat_mult)
qed

theorem fb_mount_maps_witness:
  "\<exists>s'. fb_mount (vesa_mode_info_of (\<lambda>a. if a = 0x9012 \<or> a = 0x9014 then 64 else if a = 0x9019 then 16 else if a = 0x902B then 0xE0 else 0) 0x9000) demo_vm
      = Inr s' \<and> translate s' (VESA_FB_ADDR + 0x1000) = Some (calc_page_hw 0xE0001000)"
proof -
  let ?m = "\<lambda>a :: u64. if a = 0x9012 \<or> a = 0x9014 then 64 else if a = 0x9019 then 16 else if a = 0x902B then 0xE0 else (0 :: u8)"
  let ?v = "vesa_mode_info_of ?m 0x9000"
  have v: "h_res ?v = 64" "v_res ?v = 64" "bpp ?v = 16" "lfb_ptr ?v = 0xE0000000"
    by (simp_all add: vesa_mode_info_of_def get64_def get32_def get16_def)
  have n: "fb_pages ?v = 2" by (simp add: fb_pages_def v)
  have "available (3 * 2) (frames demo_vm)" using available_mono [OF demo_available] by simp
  then obtain s' where "fb_mount ?v demo_vm = Inr s'"
    "\<forall>j < 2. translate s' (VESA_FB_ADDR + of_nat (4096 * j)) = Some (calc_page_hw (lfb_ptr ?v + of_nat (4096 * j)))"
    using fb_mount_maps [OF demo_vm_ok, of ?v] n by (auto simp: v)
  moreover from this(2) [rule_format, of 1] have "translate s' (VESA_FB_ADDR + 0x1000) = Some (calc_page_hw 0xE0001000)" by (simp add: v)
  ultimately show ?thesis by blast
qed

end
