(* ===== verification/Gdt.thy ===== *)
theory Gdt
  imports Prelude
begin

text \<open>
  The global descriptor table (\<^verbatim>\<open>x86_64/gdt.c\<close>, \<^verbatim>\<open>x86_64/gdt.h\<close>): an array of 16 entries, the packing
  of base, limit and flags into a descriptor, and the search for a free entry, which the
  code bounds by 8192 and not by the size of the array.
\<close>

definition SEG_DPL0 :: u64 where "SEG_DPL0 = 0x00000000"
definition SEG_DPL3 :: u64 where "SEG_DPL3 = 0x00006000"
definition SEG_NOTSYS :: u64 where "SEG_NOTSYS = 0x00001000"
definition SEG_PRESENT :: u64 where "SEG_PRESENT = 0x00008000"
definition SEG_CODE_EO :: u64 where "SEG_CODE_EO = 0x00000800"
definition SEG_64BIT_CODE :: u64 where "SEG_64BIT_CODE = 0x00200000"
definition SEG_TSS64 :: u64 where "SEG_TSS64 = 0x00000900"
definition SEG_DATA_RW :: u64 where "SEG_DATA_RW = 0x00000200"
definition SEG_BIG :: u64 where "SEG_BIG = 0x00800000"

definition CALC_SELECTOR :: "u64 \<Rightarrow> u64 \<Rightarrow> u64" where
  "CALC_SELECTOR x y = push_bit 3 x OR y"

text \<open>\<^verbatim>\<open>GDT_addr\<close> and the register image \<^verbatim>\<open>g_gdtr\<close>, as the processor has loaded it.\<close>

record gdt =
  GDT_addr :: "u64 list"
  g_gdtr :: "u64 \<times> u64"

definition GDT_put :: "u64 \<Rightarrow> u64 \<Rightarrow> gdt \<Rightarrow> gdt res" where
  "GDT_put seg data g =
     (if unat seg < length (GDT_addr g) then Inr (g\<lparr>GDT_addr := (GDT_addr g)[unat seg := data]\<rparr>)
      else Inl (Oob (int (unat seg))))"

text \<open>The loop \<^verbatim>\<open>for(seg = 1; (seg < 8192)&&(GDT_addr[seg] != 0); seg++);\<close>\<close>

function gdt_free :: "gdt \<Rightarrow> nat \<Rightarrow> nat res" where
  "gdt_free g seg =
     (if seg < 8192 then
        (if seg < length (GDT_addr g) then
           (if GDT_addr g ! seg \<noteq> 0 then gdt_free g (Suc seg) else Inr seg)
         else Inl (Oob (int seg)))
      else Inr seg)"
  by pat_completeness auto
termination
  by (relation "measure (\<lambda>(g, seg). 8192 - seg)") auto

declare gdt_free.simps [simp del]

definition GDT_autoput :: "u64 \<Rightarrow> gdt \<Rightarrow> (u64 \<times> gdt) res" where
  "GDT_autoput data g =
     rbind (gdt_free g 1) (\<lambda>seg. rbind (GDT_put (of_nat seg) data g) (\<lambda>g'. Inr (of_nat seg, g')))"

text \<open>\<^verbatim>\<open>GDT_load\<close>, for the table at address \<open>at\<close>.\<close>

definition GDT_load :: "u64 \<Rightarrow> gdt \<Rightarrow> gdt" where
  "GDT_load at g = g\<lparr>g_gdtr := (push_bit 16 at OR 0xFFFF, drop_bit 48 at AND 0xFFFF)\<rparr>"

definition descriptor :: "u64 \<Rightarrow> u64 \<Rightarrow> u64 \<Rightarrow> u64" where
  "descriptor base limit flags =
     (limit AND 0x0000FFFF) OR (push_bit 16 base AND 0xFFFF0000)
     OR push_bit 32 (((drop_bit 16 base AND 0x000000FF) OR (base AND 0xFF000000))
          OR (limit AND 0x000F0000) OR flags)"

definition GDT_smartput :: "u64 \<Rightarrow> u64 \<Rightarrow> u64 \<Rightarrow> u64 \<Rightarrow> gdt \<Rightarrow> (u64 \<times> gdt) res" where
  "GDT_smartput seg base limit flags g =
     (let (limit, flags) = (if limit > 0x000FFFFF then (drop_bit 12 limit, flags OR SEG_BIG)
                            else (limit, flags))
      in rbind (GDT_put seg (descriptor base limit flags) g) (\<lambda>g.
           if flags AND SEG_TSS64 = SEG_TSS64
           then rbind (GDT_put (seg + 1) (drop_bit 32 base) g) (\<lambda>g. Inr (seg, g))
           else Inr (seg, g)))"

definition GDT_smartaput :: "u64 \<Rightarrow> u64 \<Rightarrow> u64 \<Rightarrow> gdt \<Rightarrow> (u64 \<times> gdt) res" where
  "GDT_smartaput base limit flags g =
     rbind (gdt_free g 1) (\<lambda>seg. GDT_smartput (of_nat seg) base limit flags g)"

definition GDT_init :: "u64 \<Rightarrow> gdt \<Rightarrow> gdt res" where
  "GDT_init at g =
     rbind (GDT_put 0 0 g) (\<lambda>g.
     rbind (GDT_smartput 1 0 0xFFFFFFFF (SEG_64BIT_CODE OR SEG_NOTSYS OR SEG_PRESENT OR SEG_CODE_EO OR SEG_DPL0) g) (\<lambda>(_, g).
     rbind (GDT_smartput 2 0 0xFFFFFFFF (SEG_NOTSYS OR SEG_PRESENT OR SEG_DATA_RW OR SEG_DPL0) g) (\<lambda>(_, g).
     rbind (GDT_smartput 3 0 0xFFFFFFFF (SEG_64BIT_CODE OR SEG_NOTSYS OR SEG_PRESENT OR SEG_CODE_EO OR SEG_DPL3) g) (\<lambda>(_, g).
     rbind (GDT_smartput 4 0 0xFFFFFFFF (SEG_NOTSYS OR SEG_PRESENT OR SEG_DATA_RW OR SEG_DPL3) g) (\<lambda>(_, g).
     Inr (GDT_load at g))))))"

definition GDT_init_ap :: "u64 \<Rightarrow> gdt \<Rightarrow> gdt" where
  "GDT_init_ap at g = GDT_load at g"

section \<open>Packing\<close>

text \<open>How the processor reads base, limit and attributes from a descriptor.\<close>

definition desc_base :: "u64 \<Rightarrow> u64" where
  "desc_base d = take_bit 24 (drop_bit 16 d) OR push_bit 24 (take_bit 8 (drop_bit 56 d))"

definition desc_limit :: "u64 \<Rightarrow> u64" where
  "desc_limit d = take_bit 16 d OR push_bit 16 (take_bit 4 (drop_bit 48 d))"

definition desc_flags :: "u64 \<Rightarrow> u64" where
  "desc_flags d = drop_bit 32 d AND 0x00F0FF00"

text \<open>The masks of the code, as runs of bits.\<close>

lemma gdt_masks:
  "(0x0000FFFF :: u64) = mask 16" "(0xFFFF0000 :: u64) = push_bit 16 (mask 16)"
  "(0x000000FF :: u64) = mask 8" "(0xFF000000 :: u64) = push_bit 24 (mask 8)"
  "(0x000F0000 :: u64) = push_bit 16 (mask 4)"
  "(0x00F0FF00 :: u64) = push_bit 8 (mask 8) OR push_bit 20 (mask 4)"
  by (simp_all add: mask_eq_exp_minus_1)

lemma bit_and_mask_at:
  fixes w :: u64
  shows "bit (w AND push_bit k (mask m)) n \<longleftrightarrow> k \<le> n \<and> n < k + m \<and> bit w n"
  by (auto simp: bit_simps simp del: mask_numeral dest: bit_imp_le_length)

lemma bit_and_mask:
  fixes w :: u64
  shows "bit (w AND mask m) n \<longleftrightarrow> n < m \<and> bit w n"
  using bit_and_mask_at [of w 0 m n] by simp

lemma bit_descriptor:
  assumes "n < 64"
  shows "bit (descriptor base limit flags) n \<longleftrightarrow>
     n < 16 \<and> bit limit n \<or> 16 \<le> n \<and> n < 40 \<and> bit base (n - 16) \<or> 56 \<le> n \<and> bit base (n - 32)
     \<or> 48 \<le> n \<and> n < 52 \<and> bit limit (n - 32) \<or> 32 \<le> n \<and> bit flags (n - 32)"
proof -
  have lo: "bit ((limit AND 0x0000FFFF) OR (push_bit 16 base AND 0xFFFF0000)) n \<longleftrightarrow>
      n < 16 \<and> bit limit n \<or> 16 \<le> n \<and> n < 32 \<and> bit base (n - 16)"
    unfolding gdt_masks(1,2) bit_or_iff bit_and_mask_at bit_and_mask
    using assms by (auto simp: bit_push_bit_iff)
  have hi: "bit ((drop_bit 16 base AND 0x000000FF) OR (base AND 0xFF000000)
        OR (limit AND 0x000F0000) OR flags) m \<longleftrightarrow>
      m < 8 \<and> bit base (16 + m) \<or> 24 \<le> m \<and> m < 32 \<and> bit base m \<or> 16 \<le> m \<and> m < 20 \<and> bit limit m
      \<or> bit flags m" for m
    unfolding gdt_masks(3-5) bit_or_iff bit_and_mask_at bit_and_mask bit_drop_bit_eq by auto
  have d: "bit (descriptor base limit flags) n \<longleftrightarrow>
      bit ((limit AND 0x0000FFFF) OR (push_bit 16 base AND 0xFFFF0000)) n
      \<or> 32 \<le> n \<and> bit ((drop_bit 16 base AND 0x000000FF) OR (base AND 0xFF000000)
          OR (limit AND 0x000F0000) OR flags) (n - 32)"
    using assms by (simp only: descriptor_def bit_or_iff bit_push_bit_iff) auto
  have "m + 32 < 64 \<Longrightarrow> m < 32" for m :: nat by simp
  then show ?thesis
    unfolding d lo hi using assms by (cases "n < 32") auto
qed

text \<open>Attributes that keep clear of the fields of base and limit.\<close>

definition seg_flags :: "u64 \<Rightarrow> bool" where
  "seg_flags flags \<longleftrightarrow> flags AND 0x00F0FF00 = flags"

lemma seg_flags_bits:
  assumes "seg_flags flags" and "bit flags k"
  shows "8 \<le> k \<and> k < 16 \<or> 20 \<le> k \<and> k < 24"
proof -
  have "bit (flags AND 0x00F0FF00) k" using assms by (simp add: seg_flags_def)
  then show ?thesis
    unfolding gdt_masks(6) by (auto simp: bit_simps simp del: mask_numeral)
qed

lemma descriptor_fields:
  assumes "seg_flags flags"
  shows "desc_base (descriptor base limit flags) = take_bit 32 base"
    and "desc_limit (descriptor base limit flags) = take_bit 20 limit"
    and "desc_flags (descriptor base limit flags) = flags"
proof -
  note z = seg_flags_bits [OF assms]
  show "desc_base (descriptor base limit flags) = take_bit 32 base"
  proof (rule bit_word_eqI)
    fix n assume n: "n < LENGTH(64)"
    have "\<not> bit flags (n - 16)" if "16 \<le> n" "n < 24"
    proof
      assume "bit flags (n - 16)"
      from z [OF this] show False using that by linarith
    qed
    then show "bit (desc_base (descriptor base limit flags)) n = bit (take_bit 32 base) n"
      unfolding desc_base_def bit_or_iff bit_take_bit_iff bit_push_bit_iff bit_drop_bit_eq
      using n z [of n] by (auto simp: bit_descriptor)
  qed
  show "desc_limit (descriptor base limit flags) = take_bit 20 limit"
  proof (rule bit_word_eqI)
    fix n assume n: "n < LENGTH(64)"
    show "bit (desc_limit (descriptor base limit flags)) n = bit (take_bit 20 limit) n"
      unfolding desc_limit_def bit_or_iff bit_take_bit_iff bit_push_bit_iff bit_drop_bit_eq
      using n z [of n] by (auto simp: bit_descriptor less_diff_conv2)
  qed
  show "desc_flags (descriptor base limit flags) = flags"
  proof (rule bit_word_eqI)
    fix n assume n: "n < LENGTH(64)"
    show "bit (desc_flags (descriptor base limit flags)) n = bit flags n"
    proof (cases "8 \<le> n \<and> n < 16 \<or> 20 \<le> n \<and> n < 24")
      case True
      then show ?thesis
        unfolding desc_flags_def gdt_masks(6)
        by (auto simp: bit_simps bit_descriptor simp del: mask_numeral)
    next
      case False
      then show ?thesis
        unfolding desc_flags_def gdt_masks(6) using z [of n]
        by (auto simp: bit_simps simp del: mask_numeral)
    qed
  qed
qed



section \<open>Searching a free entry\<close>

lemma gdt_free_spec:
  assumes "length (GDT_addr g) \<le> 8192" and "seg \<le> length (GDT_addr g)"
  shows "gdt_free g seg =
     (case find (\<lambda>i. GDT_addr g ! i = 0) [seg..<length (GDT_addr g)] of
        Some i \<Rightarrow> Inr i
      | None \<Rightarrow> if length (GDT_addr g) = 8192 then Inr 8192 else Inl (Oob (int (length (GDT_addr g)))))"
  using assms
proof (induction g seg rule: gdt_free.induct)
  case (1 g seg)
  show ?case
  proof (cases "seg < length (GDT_addr g)")
    case True
    then have "[seg..<length (GDT_addr g)] = seg # [Suc seg..<length (GDT_addr g)]"
      by (rule upt_conv_Cons)
    then show ?thesis
      using True "1.prems" "1.IH" by (subst gdt_free.simps) auto
  next
    case False
    then show ?thesis using "1.prems" by (subst gdt_free.simps) auto
  qed
qed

text \<open>
  \<^verbatim>\<open>GDT_smartaput\<close> and \<^verbatim>\<open>GDT_autoput\<close> on a table without a free entry read past the array of 16,
  because the search is bounded by 8192.
\<close>

theorem gdt_full_overrun:
  assumes "length (GDT_addr g) = 16" and "\<forall>i. 1 \<le> i \<and> i < 16 \<longrightarrow> GDT_addr g ! i \<noteq> 0"
  shows "GDT_smartaput base limit flags g = Inl (Oob 16) \<and> GDT_autoput data g = Inl (Oob 16)"
proof -
  have "find (\<lambda>i. GDT_addr g ! i = 0) [1..<16] = None"
    using assms(2) by (auto simp: find_None_iff)
  then have "gdt_free g 1 = Inl (Oob 16)"
    using gdt_free_spec [of g 1] assms(1) by simp
  then show ?thesis by (simp add: GDT_smartaput_def GDT_autoput_def)
qed

theorem gdt_full_overrun_witness:
  "GDT_smartaput 0 0 0 \<lparr>GDT_addr = replicate 16 1, g_gdtr = (0, 0)\<rparr> = Inl (Oob 16)"
  using gdt_full_overrun [of "\<lparr>GDT_addr = replicate 16 1, g_gdtr = (0, 0)\<rparr>"] by simp

end
