(* ===== verification/Task.thy ===== *)
theory Task
  imports Page Gdt
begin

text \<open>
  Tasks (\<^verbatim>\<open>kernel/task.c\<close>, \<^verbatim>\<open>kernel/task.h\<close>, \<^verbatim>\<open>kernel/tls.c\<close>, \<^verbatim>\<open>x86_64/regs.h\<close>): the saved registers, the
  task structures in the kernel heap linked to a ring, the current task of every processor,
  the task state segments. What a block from \<^verbatim>\<open>kmalloc\<close> holds before it is written is the
  argument \<open>junk\<close>; the registers of the processor when \<^verbatim>\<open>task_fork\<close> calls \<^verbatim>\<open>read_rip\<close> are the
  argument \<open>ctx\<close>, since the compiler chooses them; the addresses of the static stacks come from
  the linker.
\<close>

section \<open>Data\<close>

record intr_regs =
  i_rip :: u64
  i_cs :: u64
  i_rflags :: u64
  i_rsp :: u64
  i_ss :: u64

record comm_regs =
  c_r9 :: u64
  c_r8 :: u64
  c_rbp :: u64
  c_rdi :: u64
  c_rsi :: u64
  c_rdx :: u64
  c_rcx :: u64
  c_rbx :: u64
  c_rax :: u64

record all_regs =
  r_c :: comm_regs
  reg1 :: u64
  r_i :: intr_regs

definition zero_regs :: all_regs where
  "zero_regs = \<lparr>r_c = \<lparr>c_r9 = 0, c_r8 = 0, c_rbp = 0, c_rdi = 0, c_rsi = 0, c_rdx = 0, c_rcx = 0, c_rbx = 0, c_rax = 0\<rparr>,
     reg1 = 0, r_i = \<lparr>i_rip = 0, i_cs = 0, i_rflags = 0, i_rsp = 0, i_ss = 0\<rparr>\<rparr>"

record TSS64 =
  tss_r1 :: u32
  tss_rsp0 :: u64
  tss_rsp1 :: u64
  tss_rsp2 :: u64
  tss_r2 :: u64
  tss_ist1 :: u64
  tss_ist2 :: u64
  tss_ist3 :: u64
  tss_ist4 :: u64
  tss_ist5 :: u64
  tss_ist6 :: u64
  tss_ist7 :: u64
  tss_r3 :: u64
  tss_r4 :: u16
  IOMapAddr :: u16

text \<open>\<^verbatim>\<open>sizeof\<close> of the packed structures, and the offset of \<^verbatim>\<open>r\<close> in a task.\<close>

abbreviation SIZEOF_TSS64 :: u64 where "SIZEOF_TSS64 \<equiv> 104"
abbreviation SIZEOF_TASK :: u64 where "SIZEOF_TASK \<equiv> 285"
abbreviation OFF_R :: u64 where "OFF_R \<equiv> 8"

record task =
  pid :: u64
  regs :: all_regs
  t_cr3 :: u64
  next_task :: u64
  state :: u8
  status :: u32
  tls :: u64
  files :: "u64 list"

definition TASK_ACTIVE :: u8 where "TASK_ACTIVE = 0"
definition TASK_RUNNING :: u8 where "TASK_RUNNING = 1"
definition TASK_STARTING :: u8 where "TASK_STARTING = 2"

lemmas task_states = TASK_ACTIVE_def TASK_RUNNING_def TASK_STARTING_def

definition TLS_ADDR :: u64 where "TLS_ADDR = 0x00000000FFFFF000"
definition MAX_OPEN_FILES :: nat where "MAX_OPEN_FILES = 16"
definition STACK_SIZE :: u64 where "STACK_SIZE = 0x1000 * 4"

text \<open>
  The globals of \<^verbatim>\<open>task.c\<close>, the tasks by address, the task registers of the processors, the words
  of kernel memory that hold stacks, and the parts of the system that tasks use.
\<close>

record sched =
  tasks :: "u64 \<rightharpoonup> task"
  curr :: "u64 list"
  next_pid :: u64
  IntrTss :: "TSS64 list"
  task_reg :: "nat \<Rightarrow> u16 option"
  kmem :: "u64 \<Rightarrow> u64"
  sgdt :: gdt
  svm :: vm

definition task_at :: "u64 \<Rightarrow> sched \<Rightarrow> task res" where
  "task_at p s = of_opt (BadAddr p) (tasks s p)"

definition put_task :: "u64 \<Rightarrow> task \<Rightarrow> sched \<Rightarrow> sched" where
  "put_task p t s = s\<lparr>tasks := (tasks s)(p \<mapsto> t)\<rparr>"

definition get_curr :: "nat \<Rightarrow> sched \<Rightarrow> u64 res" where
  "get_curr id0 s = (if id0 < length (curr s) then Inr (curr s ! id0) else Inl (Oob (int id0)))"

definition set_curr :: "nat \<Rightarrow> u64 \<Rightarrow> sched \<Rightarrow> sched res" where
  "set_curr id0 p s =
     (if id0 < length (curr s) then Inr (s\<lparr>curr := (curr s)[id0 := p]\<rparr>) else Inl (Oob (int id0)))"

definition in_vm :: "(vm \<Rightarrow> vm res) \<Rightarrow> sched \<Rightarrow> sched res" where
  "in_vm f s = rbind (f (svm s)) (\<lambda>v. Inr (s\<lparr>svm := v\<rparr>))"

definition in_vm_val :: "(vm \<Rightarrow> ('a \<times> vm) res) \<Rightarrow> sched \<Rightarrow> ('a \<times> sched) res" where
  "in_vm_val f s = rbind (f (svm s)) (\<lambda>(x, v). Inr (x, s\<lparr>svm := v\<rparr>))"

section \<open>Task state segments\<close>

definition stack_top :: "u64 \<Rightarrow> nat \<Rightarrow> u64" where
  "stack_top base id0 = base + of_nat (8 * (1024 * id0 + 1022))"

definition tss_fill :: "u64 \<Rightarrow> u64 \<Rightarrow> u64 \<Rightarrow> nat \<Rightarrow> TSS64 \<Rightarrow> TSS64" where
  "tss_fill intr_s fault_s call_s id0 t =
     t\<lparr>tss_rsp0 := stack_top intr_s id0, tss_rsp1 := stack_top intr_s id0, tss_rsp2 := stack_top intr_s id0,
       tss_ist1 := stack_top intr_s id0, tss_ist2 := stack_top fault_s id0, tss_ist3 := stack_top call_s id0,
       tss_ist4 := stack_top intr_s id0, tss_ist5 := stack_top intr_s id0, tss_ist6 := stack_top intr_s id0,
       tss_ist7 := stack_top intr_s id0\<rparr>"

definition tss_init_common :: "u64 \<Rightarrow> u64 \<Rightarrow> u64 \<Rightarrow> sched \<Rightarrow> sched" where
  "tss_init_common intr_s fault_s call_s s =
     fold (\<lambda>id0 s. s\<lparr>IntrTss := (IntrTss s)[id0 := tss_fill intr_s fault_s call_s id0 (IntrTss s ! id0)],
                     curr := (curr s)[id0 := 0]\<rparr>) [0..<MAX_CPU_NR] s"

text \<open>\<open>tss\<close> is the address of \<^verbatim>\<open>IntrTss\<close>.\<close>

definition tss_init_cpu :: "u64 \<Rightarrow> nat \<Rightarrow> sched \<Rightarrow> sched res" where
  "tss_init_cpu tss id0 s =
     rbind (GDT_smartaput (tss + SIZEOF_TSS64 * of_nat id0) SIZEOF_TSS64 (SEG_PRESENT OR SEG_TSS64 OR SEG_DPL3) (sgdt s))
       (\<lambda>(seg, g). Inr (s\<lparr>sgdt := g, task_reg := (task_reg s)(id0 \<mapsto> ucast (CALC_SELECTOR (ucast (ucast seg :: u16)) 3))\<rparr>))"

definition tss_init :: "u64 \<Rightarrow> u64 \<Rightarrow> u64 \<Rightarrow> u64 \<Rightarrow> sched \<Rightarrow> sched res" where
  "tss_init tss intr_s fault_s call_s s = tss_init_cpu tss 0 (tss_init_common intr_s fault_s call_s s)"

section \<open>Creation of tasks\<close>

text \<open>The first task, of processor 0; it is linked to itself.\<close>

definition task_init :: "task \<Rightarrow> sched \<Rightarrow> sched res" where
  "task_init junk s =
     rbind (in_vm irq_off s) (\<lambda>s.
     rbind (in_vm_val (heap_alloc SIZEOF_TASK) s) (\<lambda>(p, s).
     rbind (set_curr 0 p s) (\<lambda>s.
     if p = 0 then Inl (BadAddr 0) else
     let t = junk\<lparr>pid := next_pid s, regs := zero_regs, next_task := p, state := TASK_RUNNING\<rparr>;
         s = put_task p t (s\<lparr>next_pid := next_pid s + 1\<rparr>)
     in rbind (in_vm (alloc_pages_user TLS_ADDR 4) s) (\<lambda>s.
        in_vm irq_on (put_task p (t\<lparr>tls := TLS_ADDR, files := replicate MAX_OPEN_FILES 0\<rparr>) s)))))"

text \<open>The idle task of another processor, linked behind the current task of processor 0.\<close>

definition task_init_cpu :: "nat \<Rightarrow> task \<Rightarrow> sched \<Rightarrow> sched res" where
  "task_init_cpu id0 junk s =
     rbind (in_vm irq_off s) (\<lambda>s.
     rbind (in_vm_val (heap_alloc SIZEOF_TASK) s) (\<lambda>(p, s).
     rbind (set_curr id0 p s) (\<lambda>s.
     if p = 0 then Inl (BadAddr 0) else
     let t = junk\<lparr>pid := next_pid s, regs := zero_regs, state := TASK_RUNNING\<rparr>;
         s = put_task p t (s\<lparr>next_pid := next_pid s + 1\<rparr>)
     in rbind (in_vm (alloc_pages_user TLS_ADDR 4) s) (\<lambda>s.
        let t = t\<lparr>tls := TLS_ADDR\<rparr>; s = put_task p t s in
        rbind (get_curr 0 s) (\<lambda>c.
        rbind (task_at c s) (\<lambda>ct.
        let tmp = next_task ct;
            s = put_task c (ct\<lparr>next_task := p\<rparr>) s in
        rbind (task_at p s) (\<lambda>t.
          in_vm irq_on (put_task p (t\<lparr>next_task := tmp, files := replicate MAX_OPEN_FILES 0\<rparr>) s))))))))"

text \<open>
  \<^verbatim>\<open>copy_stack\<close>: a copy of the kernel stack, with the words that point into the old stack moved
  by the distance. The loop runs over \<^verbatim>\<open>STACK_SIZE\<close> words, the block has \<^verbatim>\<open>STACK_SIZE\<close> bytes.
\<close>

definition copy_words :: "u64 \<Rightarrow> u64 \<Rightarrow> nat \<Rightarrow> (u64 \<Rightarrow> u64) \<Rightarrow> u64 \<Rightarrow> u64" where
  "copy_words dst src n m = fold (\<lambda>i m'. m'(slot dst i := m (slot src i))) [0..<n] m"

definition reloc :: "u64 \<Rightarrow> u64 \<Rightarrow> u64 \<Rightarrow> u64" where
  "reloc stack_old offset w = (if w \<le> stack_old + STACK_SIZE \<and> stack_old \<le> w then w + offset else w)"

definition reloc_words :: "u64 \<Rightarrow> u64 \<Rightarrow> u64 \<Rightarrow> nat \<Rightarrow> (u64 \<Rightarrow> u64) \<Rightarrow> u64 \<Rightarrow> u64" where
  "reloc_words new_stack stack_old offset n m =
     fold (\<lambda>i m. m(slot new_stack i := reloc stack_old offset (m (slot new_stack i)))) [0..<n] m"

definition copy_stack :: "u64 \<Rightarrow> sched \<Rightarrow> (u64 \<times> sched) res" where
  "copy_stack kernel_stack_new s =
     rbind (in_vm_val (heap_alloc STACK_SIZE) s) (\<lambda>(new_stack, s).
       let offset = new_stack - kernel_stack_new;
           m = copy_words new_stack kernel_stack_new (unat STACK_SIZE div 8) (kmem s)
       in Inr (offset, s\<lparr>kmem := reloc_words new_stack kernel_stack_new offset (unat STACK_SIZE) m\<rparr>))"

text \<open>\<^verbatim>\<open>change_stack\<close> adds the distance to the stack registers \<^verbatim>\<open>rsp\<close> and \<^verbatim>\<open>rbp\<close>.\<close>

definition change_stack :: "u64 \<Rightarrow> u64 \<times> u64 \<Rightarrow> sched \<Rightarrow> (u64 \<times> (u64 \<times> u64) \<times> sched) res" where
  "change_stack kernel_stack_new sp s =
     rbind (copy_stack kernel_stack_new s) (\<lambda>(offset, s). Inr (offset, (fst sp + offset, snd sp + offset), s))"

text \<open>
  \<^verbatim>\<open>read_rip\<close>, with the registers it pushes on the end of the new task's \<^verbatim>\<open>r\<close>. \<open>ctx\<close> holds the
  registers at the call: \<^verbatim>\<open>i_rip\<close> is the return address, \<^verbatim>\<open>i_rsp\<close> the stack pointer at entry.
\<close>

definition read_rip :: "all_regs \<Rightarrow> u64 \<Rightarrow> u64 \<Rightarrow> u64 \<times> all_regs" where
  "read_rip ctx cr rsp_off =
     (let c = r_c ctx; i = r_i ctx
      in (i_rip i,
          \<lparr>r_c = \<lparr>c_r9 = c_r9 c, c_r8 = c_r8 c, c_rbp = rsp_off + c_rbp c, c_rdi = cr, c_rsi = c_rbp c,
                   c_rdx = i_rsp i, c_rcx = c_rcx c, c_rbx = c_rbx c, c_rax = 0\<rparr>,
           reg1 = cr,
           r_i = \<lparr>i_rip = i_rip i, i_cs = 0x08, i_rflags = i_rflags i OR 0x200,
                   i_rsp = i_rsp i + rsp_off + 8, i_ss = 0x10\<rparr>\<rparr>))"

definition task_fork :: "task \<Rightarrow> all_regs \<Rightarrow> u64 \<Rightarrow> sched \<Rightarrow> (u32 \<times> sched) res" where
  "task_fork junk ctx kernel_stack_new s =
     rbind (in_vm irq_off s) (\<lambda>s.
     rbind (copy_stack kernel_stack_new s) (\<lambda>(off, s).
     rbind (in_vm_val copy_pages s) (\<lambda>(cr, s).
     rbind (in_vm_val (heap_alloc SIZEOF_TASK) s) (\<lambda>(new, s).
     if new = 0 then Inl (BadAddr 0) else
     let (rip, rr) = read_rip ctx cr off;
         t = junk\<lparr>pid := next_pid s, regs := rr\<rparr>;
         s = put_task new t (s\<lparr>next_pid := next_pid s + 1\<rparr>)
     in if rip = 0 then Inr (0, s)
        else rbind (get_curr 0 s) (\<lambda>c.
             rbind (task_at c s) (\<lambda>ct.
             let s = put_task new (t\<lparr>next_task := next_task ct\<rparr>) s in
             rbind (task_at c s) (\<lambda>ct.
             let s = put_task c (ct\<lparr>next_task := new\<rparr>) s in
             rbind (in_vm irq_on s) (\<lambda>s.
             rbind (task_at new s) (\<lambda>t. Inr (ucast (pid t), s))))))))))"

section \<open>The switch\<close>

text \<open>
  \<^verbatim>\<open>do curr = curr->next; while (curr->state != TASK_ACTIVE)\<close>; \<open>None\<close> if it is never left.
\<close>

partial_function (option) switch_find :: "(u64 \<rightharpoonup> task) \<Rightarrow> u64 \<Rightarrow> u64 res option" where
  "switch_find m p =
     (case m p of None \<Rightarrow> Some (Inl (BadAddr p)) | Some t \<Rightarrow>
        (case m (next_task t) of None \<Rightarrow> Some (Inl (BadAddr (next_task t))) | Some u \<Rightarrow>
           if state u \<noteq> TASK_ACTIVE then switch_find m (next_task t) else Some (Inr (next_task t))))"

definition task_switch :: "nat \<Rightarrow> u64 \<Rightarrow> all_regs \<Rightarrow> sched \<Rightarrow> (u64 \<times> sched) res" where
  "task_switch id0 r_addr r s =
     rbind (get_curr id0 s) (\<lambda>p.
     if p = 0 then Inr (r_addr, s) else
     rbind (task_at p s) (\<lambda>t.
     if state t = TASK_STARTING
     then Inr (p + OFF_R, put_task p (t\<lparr>state := TASK_RUNNING, regs := (regs t)\<lparr>reg1 := reg1 r\<rparr>\<rparr>) s)
     else let s = put_task p (t\<lparr>regs := r, state := TASK_ACTIVE\<rparr>) s
          in rbind (of_loop (switch_find (tasks s) p)) (\<lambda>q.
             rbind (set_curr id0 q s) (\<lambda>s. Inr (q + OFF_R, s)))))"

text \<open>\<^verbatim>\<open>curr_cpu_task\<close> and \<^verbatim>\<open>__errno_location\<close> of \<^verbatim>\<open>tls.c\<close>: the field \<^verbatim>\<open>errno_tls\<close> is the first.\<close>

definition errno_location :: "nat \<Rightarrow> sched \<Rightarrow> u64 res" where
  "errno_location id0 s = rbind (get_curr id0 s) (\<lambda>p. rbind (task_at p s) (\<lambda>t. Inr (tls t)))"

section \<open>The ring\<close>

text \<open>
  The tasks \<open>p # qs\<close> are linked to a ring: \<open>links m p qs e\<close> says that the chain of \<^verbatim>\<open>next\<close> pointers
  from \<open>p\<close> runs through \<open>qs\<close> and then to \<open>e\<close>.
\<close>

fun links :: "(u64 \<rightharpoonup> task) \<Rightarrow> u64 \<Rightarrow> u64 list \<Rightarrow> u64 \<Rightarrow> bool" where
  "links m p [] e = (case m p of None \<Rightarrow> False | Some t \<Rightarrow> next_task t = e)"
| "links m p (q # qs) e = (case m p of None \<Rightarrow> False | Some t \<Rightarrow> next_task t = q \<and> links m q qs e)"

fun ring :: "(u64 \<rightharpoonup> task) \<Rightarrow> u64 list \<Rightarrow> bool" where
  "ring m [] = False"
| "ring m (p # qs) = (distinct (p # qs) \<and> 0 \<notin> set (p # qs) \<and> links m p qs p)"

definition active :: "(u64 \<rightharpoonup> task) \<Rightarrow> u64 \<Rightarrow> bool" where
  "active m p = (case m p of None \<Rightarrow> False | Some t \<Rightarrow> state t = TASK_ACTIVE)"

lemma links_append:
  "links m p (qs @ a # rs) e \<longleftrightarrow> links m p qs a \<and> links m a rs e"
  by (induction qs arbitrary: p) (auto split: option.splits)

lemma links_cong:
  assumes "\<And>x. x \<in> set (p # qs) \<Longrightarrow> map_option next_task (m' x) = map_option next_task (m x)"
  shows "links m' p qs e = links m p qs e"
  using assms
proof (induction qs arbitrary: p)
  case Nil
  then show ?case by (cases "m p"; cases "m' p") force+
next
  case (Cons q qs)
  then have "links m' q qs e = links m q qs e" by simp
  moreover have "map_option next_task (m' p) = map_option next_task (m p)" using Cons.prems by simp
  ultimately show ?case by (cases "m p"; cases "m' p") auto
qed

lemma ring_cong:
  assumes "\<And>x. x \<in> set ps \<Longrightarrow> map_option next_task (m' x) = map_option next_task (m x)"
  shows "ring m' ps = ring m ps"
proof (cases ps)
  case (Cons p qs)
  then show ?thesis using links_cong [of p qs m' m p] assms by simp
qed simp

text \<open>A ring can be read from any of its tasks.\<close>

lemma ring_rotate:
  assumes "ring m (p # qs @ a # rs)"
  shows "ring m (a # rs @ p # qs)"
  using assms by (auto simp: links_append)

lemma links_dom: "links m p qs e \<Longrightarrow> x \<in> set (p # qs) \<Longrightarrow> \<exists>t. m x = Some t"
  by (induction qs arbitrary: p) (auto split: option.splits)

lemma switch_find_links:
  assumes "links m p qs e" and "active m e"
  shows "switch_find m p = Some (Inr (hd (filter (active m) (qs @ [e]))))"
  using assms
proof (induction qs arbitrary: p)
  case Nil
  then show ?case
    by (subst switch_find.simps) (auto simp: active_def split: option.splits)
next
  case (Cons q qs)
  obtain t u where "m p = Some t" "next_task t = q" "links m q qs e" "m q = Some u"
    using Cons.prems(1) links_dom [of m q qs e q] by (auto split: option.splits)
  moreover have "active m q = (state u = TASK_ACTIVE)" using \<open>m q = Some u\<close> by (simp add: active_def)
  ultimately show ?case
    using Cons.IH [of q] Cons.prems(2) by (subst switch_find.simps) simp
qed

lemma switch_step:
  assumes "ring (tasks s) (p # qs)" and "id0 < length (curr s)" and "curr s ! id0 = p"
    and "tasks s p = Some t" and "state t \<noteq> TASK_STARTING"
  shows "task_switch id0 r_addr r s =
    (let q = hd (filter (active (tasks s)) qs @ [p])
     in Inr (q + 8, s\<lparr>tasks := (tasks s)(p \<mapsto> t\<lparr>regs := r, state := TASK_ACTIVE\<rparr>), curr := (curr s)[id0 := q]\<rparr>))"
proof -
  define m where "m = (tasks s)(p \<mapsto> t\<lparr>regs := r, state := TASK_ACTIVE\<rparr>)"
  have nz: "p \<noteq> 0" and d: "p \<notin> set qs" and l: "links (tasks s) p qs p" using assms(1) by auto
  have "links m p qs p"
    using l assms(4) by (subst links_cong [of p qs m "tasks s"]) (auto simp: m_def)
  moreover have "active m p" by (simp add: active_def m_def)
  ultimately have "switch_find m p = Some (Inr (hd (filter (active m) (qs @ [p]))))"
    by (rule switch_find_links)
  also have "filter (active m) (qs @ [p]) = filter (active (tasks s)) qs @ [p]"
  proof -
    have "active m x = active (tasks s) x" if "x \<in> set qs" for x using d that by (auto simp: active_def m_def)
    then have "filter (active m) qs = filter (active (tasks s)) qs" by (rule filter_cong [OF refl])
    then show ?thesis by (simp add: active_def m_def)
  qed
  finally show ?thesis
    using assms(2-5) nz
    by (simp add: task_switch_def get_curr_def task_at_def put_task_def set_curr_def Let_def flip: m_def)
qed


text \<open>A ring of three tasks, the first of them running.\<close>

definition demo_task :: "u64 \<Rightarrow> u8 \<Rightarrow> task" where
  "demo_task nxt st = \<lparr>pid = 1, regs = zero_regs, t_cr3 = 0, next_task = nxt, state = st, status = 0,
     tls = TLS_ADDR, files = replicate 16 0\<rparr>"

definition demo_sched :: sched where
  "demo_sched = \<lparr>tasks = [0x1000 \<mapsto> demo_task 0x2000 1, 0x2000 \<mapsto> demo_task 0x3000 1, 0x3000 \<mapsto> demo_task 0x1000 0],
     curr = [0x1000, 0x2000, 0, 0, 0, 0, 0, 0, 0, 0, 0, 0, 0, 0, 0, 0], next_pid = 4,
     IntrTss = [], task_reg = Map.empty, kmem = (\<lambda>_. 0),
     sgdt = \<lparr>GDT_addr = replicate 16 0, g_gdtr = (0, 0)\<rparr>, svm = demo_vm_heap\<rparr>"

lemma demo_sched_ring: "ring (tasks demo_sched) [0x1000, 0x2000, 0x3000]"
  by (simp add: demo_sched_def demo_task_def)


text \<open>\<open>n\<close> timer interrupts on one processor, with the registers each of them finds.\<close>

fun switches :: "nat \<Rightarrow> all_regs list \<Rightarrow> sched \<Rightarrow> (u64 list \<times> sched) res" where
  "switches id0 [] s = Inr ([], s)"
| "switches id0 (r # rs) s =
     rbind (task_switch id0 0 r s) (\<lambda>(a, s). rbind (switches id0 rs s) (\<lambda>(as, s). Inr (a # as, s)))"

lemma switches_rotate:
  assumes "ring (tasks s) (p # qs @ us)" and "id0 < length (curr s)" and "curr s ! id0 = p"
    and "map_option state (tasks s p) \<noteq> Some TASK_STARTING"
    and "\<forall>q \<in> set (qs @ us). active (tasks s) q" and "length rs = length qs"
  shows "\<exists>s'. switches id0 rs s = Inr (map (\<lambda>q. q + 8) qs, s')
     \<and> ring (tasks s') (p # qs @ us) \<and> curr s' = (curr s)[id0 := hd (rev qs @ [p])]"
  using assms
proof (induction qs arbitrary: p us rs s)
  case Nil
  then show ?case by auto
next
  case (Cons q qs)
  let ?ps = "p # (q # qs) @ us"
  obtain r rs' where rs: "rs = r # rs'" "length rs' = length qs" using Cons.prems(6) by (cases rs) auto
  have l: "links (tasks s) p (q # qs @ us) p" and d: "distinct ?ps" using Cons.prems(1) by auto
  obtain t where t: "tasks s p = Some t" "state t \<noteq> TASK_STARTING"
    using links_dom [OF l, of p] Cons.prems(4) by auto
  define m where "m = (tasks s)(p \<mapsto> t\<lparr>regs := r, state := TASK_ACTIVE\<rparr>)"
  let ?s = "s\<lparr>tasks := m, curr := (curr s)[id0 := q]\<rparr>"
  have step: "task_switch id0 0 r s = Inr (q + 8, ?s)"
    using switch_step [of s p "(q # qs) @ us" id0 t 0 r] Cons.prems(1-3,5) t by (simp flip: m_def)
  have ring1: "ring m ?ps" using Cons.prems(1) t(1) by (subst ring_cong [of ?ps m "tasks s"]) (auto simp: m_def)
  have "ring m (q # qs @ us @ [p])" using ring_rotate [of m p "[]" q "qs @ us"] ring1 by simp
  moreover have act: "\<forall>x \<in> set (p # (q # qs) @ us). active m x"
    using Cons.prems(5) by (auto simp: active_def m_def)
  moreover have "map_option state (m q) \<noteq> Some TASK_STARTING"
    using act by (auto simp: active_def task_states split: option.splits)
  ultimately obtain s' where s': "switches id0 rs' ?s = Inr (map (\<lambda>q. q + 8) qs, s')"
    "ring (tasks s') (q # qs @ us @ [p])" "curr s' = (curr ?s)[id0 := hd (rev qs @ [q])]"
    using Cons.IH [of ?s q "us @ [p]" rs'] Cons.prems(2) rs by auto
  have "ring (tasks s') ?ps"
    using ring_rotate [of "tasks s'" q "qs @ us" p "[]"] s'(2) by simp
  moreover have "hd (rev (q # qs) @ [p]) = hd (rev qs @ [q])" by (cases "rev qs") auto
  ultimately show ?case using step s' rs by simp
qed



text \<open>
  The task that is switched to stays \<^verbatim>\<open>TASK_ACTIVE\<close>. So when two processors run the neighbours
  \<open>p\<close> and \<open>q\<close> and \<open>t\<close> behind them is active, a timer interrupt on each makes both processors run \<open>t\<close>
  from the same saved registers.
\<close>

theorem task_switch_same_task_twice:
  assumes "ring (tasks s) (p # q # t # us)" and "length (curr s) = 16" and "curr s ! 0 = p" and "curr s ! 1 = q"
    and "map_option state (tasks s p) = Some TASK_RUNNING" and "map_option state (tasks s q) = Some TASK_RUNNING"
    and "active (tasks s) t"
  shows "\<exists>s1 s2. task_switch 0 a0 r0 s = Inr (t + 8, s1) \<and> task_switch 1 a1 r1 s1 = Inr (t + 8, s2)
     \<and> curr s2 ! 0 = t \<and> curr s2 ! 1 = t"
proof -
  obtain tp where tp: "tasks s p = Some tp" "state tp = TASK_RUNNING" using assms(5) by auto
  obtain tq where tq: "tasks s q = Some tq" "state tq = TASK_RUNNING" using assms(6) by auto
  define m where "m = (tasks s)(p \<mapsto> tp\<lparr>regs := r0, state := TASK_ACTIVE\<rparr>)"
  let ?s = "s\<lparr>tasks := m, curr := (curr s)[0 := t]\<rparr>"
  have d: "p \<noteq> q" "p \<noteq> t" "q \<noteq> t" using assms(1) by auto
  have "\<not> active (tasks s) q" using tq by (simp add: active_def task_states)
  then have s1: "task_switch 0 a0 r0 s = Inr (t + 8, ?s)"
    using switch_step [OF assms(1) _ assms(3) tp(1), of a0 r0] assms(2,7) tp(2) by (simp add: task_states m_def)
  have "ring m (p # q # t # us)"
    using assms(1) tp(1) by (subst ring_cong [of _ m "tasks s"]) (auto simp: m_def)
  then have "ring m (q # (t # us) @ [p])" using ring_rotate [of m p "[]" q "t # us"] by simp
  moreover have mq: "m q = Some tq" using tq d by (simp add: m_def)
  moreover have "active m t" using assms(7) d by (simp add: active_def m_def)
  ultimately show ?thesis
    using switch_step [of ?s q "(t # us) @ [p]" 1 tq a1 r1] s1 assms(2,4) tq d mq by (simp add: task_states)
qed

theorem task_switch_same_task_twice_witness:
  "\<exists>s1 s2. task_switch 0 0x500 zero_regs demo_sched = Inr (0x3008, s1)
     \<and> task_switch 1 0x600 zero_regs s1 = Inr (0x3008, s2)"
  using task_switch_same_task_twice [OF demo_sched_ring, of "0x500" zero_regs "0x600" zero_regs]
  by (auto simp: demo_sched_def demo_task_def active_def task_states)

section \<open>The copied stack\<close>

lemma slot_eq_iff: "i < 2 ^ 61 \<Longrightarrow> j < 2 ^ 61 \<Longrightarrow> slot a i = slot a j \<longleftrightarrow> i = j"
  using add_of_nat_inj [of "8 * i" "8 * j" a] by (simp add: slot_def)

lemma fold_upd_at:
  assumes "n \<le> 2 ^ 61" and "i < n"
  shows "fold (\<lambda>i m. m(slot a i := f i (m (slot a i)))) [0..<n] m (slot a i) = f i (m (slot a i))"
proof -
  have "k \<le> n \<Longrightarrow> fold (\<lambda>i m. m(slot a i := f i (m (slot a i)))) [0..<k] m (slot a i)
      = (if i < k then f i (m (slot a i)) else m (slot a i))" for k
    using assms by (induction k) (auto simp: slot_eq_iff less_Suc_eq)
  from this [of n] show ?thesis using assms(2) by simp
qed

lemma fold_upd_out:
  assumes "\<And>i. i < n \<Longrightarrow> x \<noteq> slot a i"
  shows "fold (\<lambda>i m. m(slot a i := f i (m (slot a i)))) [0..<n] m x = m x"
  using assms by (induction n) auto


lemma demo_stack_block:
  obtains H where "kmalloc STACK_SIZE boot_heap = Inr (0xFFFFFFFFC0200010, H)"
  using kmalloc_found [OF boot_heap_rep(1), of "0x4000" 0 "[(0x4000, False), (0x3FDFBFE0, True)]"]
  by (auto simp: boot_heap_rep split_chunk_def chunk_at_def STACK_SIZE_def)


section \<open>Task state segments of many processors\<close>

text \<open>
  A task state segment takes two of the 16 entries of the table. Behind the five segments of
  \<^verbatim>\<open>GDT_init\<close> there is room for five; the sixth processor finds only the last entry free and writes
  behind the table.
\<close>

lemma tss_last_entry_overruns:
  assumes "length (GDT_addr (sgdt s)) = 16" and "\<forall>i. 1 \<le> i \<and> i < 15 \<longrightarrow> GDT_addr (sgdt s) ! i \<noteq> 0"
    and "GDT_addr (sgdt s) ! 15 = 0"
  shows "tss_init_cpu tss id0 s = Inl (Oob 16)"
proof -
  have "find (\<lambda>i. GDT_addr (sgdt s) ! i = 0) [1..<16] = Some 15"
    using assms(2,3) by (auto simp: upt_rec eval_nat_numeral)
  then have "gdt_free (sgdt s) 1 = Inr 15"
    using gdt_free_spec [of "sgdt s" 1] assms(1) by (simp del: upt_rec_numeral)
  then show ?thesis
    using assms(1)
    by (simp add: tss_init_cpu_def GDT_smartaput_def GDT_smartput_def GDT_put_def SEG_PRESENT_def SEG_TSS64_def SEG_DPL3_def)
qed

end
