(* ===== verification/Drivers.thy ===== *)
theory Drivers
  imports Fs_Core
begin

text \<open>
  The drivers at the bottom of the file system: the RAM disk (\<^verbatim>\<open>fs/initrd/initrd.c\<close>), the disk
  (\<^verbatim>\<open>fs/ata/ata.c\<close>), the terminal (\<^verbatim>\<open>fs/tty/tty.c\<close>) and the stub of FAT32 (\<^verbatim>\<open>fs/fat32/fat32.c\<close>). The
  assembly routine \<^verbatim>\<open>ata_pio_read\<close> transfers whole sectors of \<open>disk\<close>; asked for 0 sectors it waits for a
  device that has nothing to send.
\<close>

text \<open>A block of assignments \<^verbatim>\<open>v->field = ...\<close> through a pointer that was not tested.\<close>

definition fill_node :: "u64 \<Rightarrow> (vfs_node \<Rightarrow> vfs_node) \<Rightarrow> fs \<Rightarrow> fs res" where
  "fill_node p f s = rbind (node_at p s) (\<lambda>n. Inr (put_node p (f n) s))"

text \<open>
  \<^verbatim>\<open>int len = offset+size > node->length ? node->length - offset : size\<close>, with its conversion back.
\<close>

definition clip_len :: "vfs_node \<Rightarrow> u64 \<Rightarrow> u64 \<Rightarrow> u64" where
  "clip_len n offset sz =
     int_u64 (ucast (if length_of n < offset + sz then length_of n - offset else sz))"

section \<open>RAM disk\<close>

definition initrd_init :: "u64 \<Rightarrow> u64 \<Rightarrow> fs \<Rightarrow> (u64 \<times> fs) res" where
  "initrd_init p sz s =
     rbind (vfs_alloc_node s) (\<lambda>(v, s).
     rbind (fill_node v (\<lambda>n. n\<lparr>name := (strncpy (name n) [105, 110, 105, 116, 114, 100] 6)[6 := 0],
         rights := 660, gid := 0, uid := 0, flags := VFS_CHARDEV OR VFS_STORAGE, inode := 0,
         reserved := p, length_of := sz, drv := InitrdDrv, ptr := 0\<rparr>) s) (\<lambda>s. Inr (v, s)))"

definition initrd_read :: "env \<Rightarrow> u64 \<Rightarrow> u64 \<Rightarrow> u64 \<Rightarrow> u64 \<Rightarrow> fs \<Rightarrow> (u64 \<times> fs) res" where
  "initrd_read E node offset sz buffer s =
     (if node = 0 then Inr (int_u64 (EBADF E), s)
      else rbind (node_at node s) (\<lambda>n.
        if reserved n = 0 then Inr (int_u64 (EBADF E), s)
        else if length_of n < offset \<or> buffer = 0 then Inr (int_u64 (EINVAL E), s)
        else let len = clip_len n offset sz
             in rbind (memcpy buffer (reserved n + offset) len (ram s)) (\<lambda>m. Inr (len, s\<lparr>ram := m\<rparr>))))"

definition initrd_write :: "env \<Rightarrow> u64 \<Rightarrow> u64 \<Rightarrow> u64 \<Rightarrow> u64 \<Rightarrow> fs \<Rightarrow> (u64 \<times> fs) res" where
  "initrd_write E node offset sz buffer s =
     (if node = 0 then Inr (int_u64 (EBADF E), s)
      else rbind (node_at node s) (\<lambda>n.
        if reserved n = 0 then Inr (int_u64 (EBADF E), s)
        else if length_of n < offset \<or> buffer = 0 then Inr (int_u64 (EINVAL E), s)
        else let len = clip_len n offset sz
             in rbind (memcpy (reserved n + offset) buffer len (ram s)) (\<lambda>m. Inr (len, s\<lparr>ram := m\<rparr>))))"

definition initrd_open :: "env \<Rightarrow> u64 \<Rightarrow> u32 \<Rightarrow> u64" where
  "initrd_open E node fl = (if node \<noteq> 0 then 0 else int_u64 (EBADF E))"

definition initrd_close :: "u64 \<Rightarrow> u64" where
  "initrd_close node = 0"

section \<open>Disk\<close>

definition ata_init :: "fs \<Rightarrow> (u64 \<times> fs) res" where
  "ata_init s =
     rbind (vfs_alloc_node s) (\<lambda>(v, s).
     rbind (fill_node v (\<lambda>n. n\<lparr>name := (strncpy (name n) [97, 116, 97] 3)[6 := 0],
         rights := 660, gid := 0, uid := 0, flags := VFS_CHARDEV OR VFS_STORAGE, inode := 0,
         reserved := -1, length_of := 0xFFFFFFFF, drv := AtaDrv, ptr := 0\<rparr>) s) (\<lambda>s. Inr (v, s)))"

definition ata_pio_read :: "(nat \<Rightarrow> u8) \<Rightarrow> u64 \<Rightarrow> u64 \<Rightarrow> u8 \<Rightarrow> fs \<Rightarrow> fs res" where
  "ata_pio_read d p lba secnum s =
     (if secnum = 0 then Inl Diverge
      else if p = 0 then Inl (BadAddr 0)
      else Inr (s\<lparr>ram := store p (map d [512 * unat (lba AND 0x0FFFFFFF)..<512 * (unat (lba AND 0x0FFFFFFF) + unat secnum)])
                     (ram s)\<rparr>))"

text \<open>\<^verbatim>\<open>len\<close> and \<^verbatim>\<open>sectors\<close> are of type \<^verbatim>\<open>int\<close>; the sector count is passed as \<^verbatim>\<open>unsigned char\<close>.\<close>

definition ata_sectors :: "u64 \<Rightarrow> u32" where
  "ata_sectors len =
     (let l = ucast len :: u32
      in signed_drop_bit 9 l + (if l AND 0x1FF \<noteq> 0 then 1 else 0))"

definition ata_read :: "env \<Rightarrow> u64 \<Rightarrow> u64 \<Rightarrow> u64 \<Rightarrow> u64 \<Rightarrow> fs \<Rightarrow> (u64 \<times> fs) res" where
  "ata_read E node offset sz buffer s =
     (if node = 0 then Inr (int_u64 (EBADF E), s)
      else rbind (node_at node s) (\<lambda>n.
        if reserved n = 0 then Inr (int_u64 (EBADF E), s)
        else if length_of n < offset \<or> buffer = 0 then Inr (int_u64 (EINVAL E), s)
        else let len = clip_len n offset sz; sectors = ata_sectors len in
             rbind (fs_kmalloc (int_u64 (push_bit 9 sectors)) s) (\<lambda>(read_buf, s).
             rbind (ata_pio_read (disk E) read_buf (drop_bit 9 offset) (ucast sectors) s) (\<lambda>s.
             rbind (memcpy buffer (read_buf + (offset AND 0x1FF)) len (ram s)) (\<lambda>m.
             rbind (fs_kfree read_buf (s\<lparr>ram := m\<rparr>)) (\<lambda>s. Inr (len, s)))))))"

definition ata_write :: "env \<Rightarrow> u64 \<Rightarrow> u64 \<Rightarrow> u64 \<Rightarrow> u64 \<Rightarrow> fs \<Rightarrow> (u64 \<times> fs) res" where
  "ata_write E node offset sz buffer s = Inr (int_u64 (EINVAL E), s)"

definition ata_open :: "env \<Rightarrow> u64 \<Rightarrow> u32 \<Rightarrow> u64" where
  "ata_open E node fl = (if node \<noteq> 0 then 0 else int_u64 (EBADF E))"

definition ata_close :: "u64 \<Rightarrow> u64" where
  "ata_close node = 0"

section \<open>Terminal\<close>

definition tty_init :: "u64 \<Rightarrow> fs \<Rightarrow> (u64 \<times> fs) res" where
  "tty_init node s =
     rbind (vfs_alloc_node s) (\<lambda>(r, s).
     rbind (fill_node r (\<lambda>n. n\<lparr>name := (strncpy (name n) [116, 116, 121] 3)[3 := 0],
         rights := 660, gid := 0, uid := 0, drv := TtyDrv, flags := VFS_CHARDEV OR VFS_TTY, inode := 0,
         reserved := 0, ptr := 0\<rparr>) s) (\<lambda>s. Inr (r, s)))"

definition tty_fini :: "env \<Rightarrow> u64 \<Rightarrow> fs \<Rightarrow> (u64 \<times> fs) res" where
  "tty_fini E node s =
     (if node = 0 then Inr (int_u64 (EINVAL E), s) else rbind (fs_kfree node s) (\<lambda>s. Inr (0, s)))"

definition tty_open :: "u64 \<Rightarrow> u32 \<Rightarrow> u64" where
  "tty_open node fl = 0"

definition tty_read :: "env \<Rightarrow> u64 \<Rightarrow> u64 \<Rightarrow> u64 \<Rightarrow> u64 \<Rightarrow> fs \<Rightarrow> (u64 \<times> fs) res" where
  "tty_read E node offset sz buffer s = Inr (int_u64 (EINVAL E), s)"

fun putc_loop :: "u8 list \<Rightarrow> ktty \<Rightarrow> ktty res" where
  "putc_loop [] t = Inr t"
| "putc_loop (c # cs) t = rbind (ktty_putc c t) (putc_loop cs)"

definition tty_write :: "env \<Rightarrow> u64 \<Rightarrow> u64 \<Rightarrow> u64 \<Rightarrow> u64 \<Rightarrow> fs \<Rightarrow> (u64 \<times> fs) res" where
  "tty_write E node offset sz buffer s =
     (if node = 0 then Inr (int_u64 (EINVAL E), s)
      else if offset \<noteq> 0 then Inr (int_u64 (EINVAL E), s)
      else if sz = 0 then Inr (0, s)
      else rbind (putc_loop (load buffer (unat sz) (ram s)) (console s)) (\<lambda>t. Inr (sz, s\<lparr>console := t\<rparr>)))"

definition tty_close :: "u64 \<Rightarrow> u64" where
  "tty_close node = 0"

section \<open>FAT32\<close>

definition fat32_init :: "u64 \<Rightarrow> u64" where
  "fat32_init node = 0"

definition fat32_fini :: "env \<Rightarrow> u64 \<Rightarrow> u32" where
  "fat32_fini E node = EINVAL E"

section \<open>Lemmas\<close>

text \<open>Lengths below 2 GB survive the conversion to \<^verbatim>\<open>int\<close> and back.\<close>

lemma int_u64_small:
  fixes n :: u64
  assumes "unat n < 2 ^ 31"
  shows "int_u64 (ucast n) = n"
proof -
  have "n = take_bit 31 n"
    using assms by (simp add: word_unat_eq_iff unsigned_take_bit_eq take_bit_nat_eq_self)
  then have hi: "\<not> bit n k" if "31 \<le> k" for k
    using that by (metis bit_take_bit_iff not_less)
  show ?thesis
  proof (rule bit_word_eqI)
    fix k assume "k < LENGTH(64)"
    then show "bit (int_u64 (ucast n)) k = bit n k"
      using hi [of k] hi [of 31] by (cases "k < 31") (auto simp: int_u64_def bit_simps min_def)
  qed
qed

lemma clip_len_in:
  assumes "unat offset + unat sz \<le> unat (length_of n)" and "unat sz < 2 ^ 31"
  shows "clip_len n offset sz = sz"
proof -
  have "unat (offset + sz) = unat offset + unat sz"
    using assms(1) unat_add_of_nat [of offset "unat sz"] unsigned_less [of "length_of n", where ?'a = nat] by simp
  then have "\<not> length_of n < offset + sz" using assms(1) by (simp add: word_less_nat_alt)
  then show ?thesis using assms(2) by (simp add: clip_len_def int_u64_small)
qed

lemma initrd_read_in:
  assumes "node \<noteq> 0" and "fnodes s node = Some n" and "reserved n \<noteq> 0" and "buffer \<noteq> 0"
    and "unat offset + unat sz \<le> unat (length_of n)" and "unat sz < 2 ^ 31"
  shows "initrd_read E node offset sz buffer s =
    Inr (sz, s\<lparr>ram := store buffer (load (reserved n + offset) (unat sz) (ram s)) (ram s)\<rparr>)"
proof -
  have "\<not> length_of n < offset" using assms(5) by (simp add: word_less_nat_alt)
  then show ?thesis
    using assms clip_len_in [OF assms(5,6)]
    by (simp add: initrd_read_def node_at_def memcpy_def Let_def)
qed

lemma cut_load:
  assumes "i + n \<le> len"
  shows "cut i n (load a len m) = load (a + of_nat i) n m"
  using assms
  by (intro nth_equalityI) (auto simp: cut_def add.assoc)

lemma putc_loop_prints:
  assumes "ktty_ok t"
  shows "\<exists>t'. putc_loop cs t = Inr t' \<and> ktty_ok t' \<and> ktty_attribute t' = ktty_attribute t
    \<and> view t' = fold (print_char (ktty_attribute t)) cs (view t)"
  using assms
proof (induction cs arbitrary: t)
  case (Cons c cs)
  obtain t1 where t1: "ktty_putc c t = Inr t1" "ktty_ok t1" "ktty_attribute t1 = ktty_attribute t"
    "view t1 = print_char (ktty_attribute t) c (view t)"
    using putc_step [OF Cons.prems, of c] by blast
  then show ?case using Cons.IH [OF t1(2)] by auto
qed simp

end
