(* ===== verification/Ext2.thy ===== *)
theory Ext2
  imports Drivers
begin

text \<open>
  The second extended file system (\<^verbatim>\<open>fs/ext2/ext2.c\<close>, \<^verbatim>\<open>fs/ext2/ext2.h\<close>), read only: super block, group
  descriptors, inodes, chains of blocks, directories. The structures are decoded from the bytes in
  memory that the device was read into. \<open>rd\<close> is \<^verbatim>\<open>vfs_read\<close> on the device below.
\<close>

section \<open>Structures on disk\<close>

definition EXT2_MAGIC :: u16 where "EXT2_MAGIC = 0xEF53"
definition EXT2_ROOT_INODE :: u64 where "EXT2_ROOT_INODE = 2"

record ext2_superblock =
  inodes_num :: u32
  blocks_num :: u32
  resrvd_blk :: u32
  free_blocks :: u32
  free_inodes :: u32
  sblock_num :: u32
  block_size :: u32
  frag_size :: u32
  blk_in_grp :: u32
  frg_in_grp :: u32
  ind_in_grp :: u32
  mount_time :: u32
  write_time :: u32
  mount_num :: u16
  mount_max :: u16
  magic :: u16
  fs_state :: u16
  error_hndl :: u16
  ver_minor :: u16
  check_time :: u32
  check_frcd :: u32
  os_id :: u32
  ver_major :: u32
  root_uid :: u16
  root_gid :: u16
  free_inode :: u32
  inode_size :: u16
  sblock_grp :: u16
  feature_opt :: u32
  feature_req :: u32
  feature_ro :: u32
  fs_uuid :: "u8 list"
  fs_name :: "u8 list"
  fs_mpnt :: "u8 list"
  compression :: u32
  prea_file :: u8
  prea_dir :: u8
  sb_unused :: u16
  jour_id :: "u8 list"
  j_inode :: u32
  j_device :: u32
  orph_inodes :: u32

definition superblock_of :: "(u64 \<Rightarrow> u8) \<Rightarrow> u64 \<Rightarrow> ext2_superblock" where
  "superblock_of m a =
     \<lparr>inodes_num = get32 m a, blocks_num = get32 m (a + 4), resrvd_blk = get32 m (a + 8),
      free_blocks = get32 m (a + 12), free_inodes = get32 m (a + 16), sblock_num = get32 m (a + 20),
      block_size = get32 m (a + 24), frag_size = get32 m (a + 28), blk_in_grp = get32 m (a + 32),
      frg_in_grp = get32 m (a + 36), ind_in_grp = get32 m (a + 40), mount_time = get32 m (a + 44),
      write_time = get32 m (a + 48), mount_num = get16 m (a + 52), mount_max = get16 m (a + 54),
      magic = get16 m (a + 56), fs_state = get16 m (a + 58), error_hndl = get16 m (a + 60),
      ver_minor = get16 m (a + 62), check_time = get32 m (a + 64), check_frcd = get32 m (a + 68),
      os_id = get32 m (a + 72), ver_major = get32 m (a + 76), root_uid = get16 m (a + 80),
      root_gid = get16 m (a + 82), free_inode = get32 m (a + 84), inode_size = get16 m (a + 88),
      sblock_grp = get16 m (a + 90), feature_opt = get32 m (a + 92), feature_req = get32 m (a + 96),
      feature_ro = get32 m (a + 100), fs_uuid = load (a + 104) 16 m, fs_name = load (a + 120) 16 m,
      fs_mpnt = load (a + 136) 64 m, compression = get32 m (a + 200), prea_file = m (a + 204),
      prea_dir = m (a + 205), sb_unused = get16 m (a + 206), jour_id = load (a + 208) 16 m,
      j_inode = get32 m (a + 224), j_device = get32 m (a + 228), orph_inodes = get32 m (a + 232)\<rparr>"

record ext2_group_desc =
  block_bmp :: u32
  inode_bmp :: u32
  inode_st :: u32
  free_blk :: u16
  free_ino :: u16
  dir_num :: u16

definition group_desc_of :: "(u64 \<Rightarrow> u8) \<Rightarrow> u64 \<Rightarrow> ext2_group_desc" where
  "group_desc_of m a =
     \<lparr>block_bmp = get32 m a, inode_bmp = get32 m (a + 4), inode_st = get32 m (a + 8),
      free_blk = get16 m (a + 12), free_ino = get16 m (a + 14), dir_num = get16 m (a + 16)\<rparr>"

record ext2_inode =
  type_perm :: u16
  in_uid :: u16
  size_low :: u32
  acc_time :: u32
  cre_time :: u32
  mod_time :: u32
  del_time :: u32
  in_gid :: u16
  in_links :: u16
  sectors :: u32
  in_flags :: u32
  oss_value1 :: u32
  direct :: "u32 list"
  s_indirect :: u32
  d_indirect :: u32
  t_indirect :: u32
  generation :: u32
  file_acl :: u32
  size_hi :: u32
  frag_addr :: u32
  frag_num :: u8
  in_frag_size :: u8
  uid_hi :: u16
  gid_hi :: u16

definition inode_of :: "(u64 \<Rightarrow> u8) \<Rightarrow> u64 \<Rightarrow> ext2_inode" where
  "inode_of m a =
     \<lparr>type_perm = get16 m a, in_uid = get16 m (a + 2), size_low = get32 m (a + 4), acc_time = get32 m (a + 8),
      cre_time = get32 m (a + 12), mod_time = get32 m (a + 16), del_time = get32 m (a + 20),
      in_gid = get16 m (a + 24), in_links = get16 m (a + 26), sectors = get32 m (a + 28),
      in_flags = get32 m (a + 32), oss_value1 = get32 m (a + 36),
      direct = map (\<lambda>i. get32 m (a + 40 + 4 * of_nat i)) [0..<12],
      s_indirect = get32 m (a + 88), d_indirect = get32 m (a + 92), t_indirect = get32 m (a + 96),
      generation = get32 m (a + 100), file_acl = get32 m (a + 104), size_hi = get32 m (a + 108),
      frag_addr = get32 m (a + 112), frag_num = m (a + 116), in_frag_size = m (a + 117),
      uid_hi = get16 m (a + 120), gid_hi = get16 m (a + 122)\<rparr>"

record ext2_direntry =
  e_inode :: u32
  e_size :: u16
  e_length :: u8
  e_type :: u8

definition direntry_of :: "(u64 \<Rightarrow> u8) \<Rightarrow> u64 \<Rightarrow> ext2_direntry" where
  "direntry_of m a = \<lparr>e_inode = get32 m a, e_size = get16 m (a + 4), e_length = m (a + 6), e_type = m (a + 7)\<rparr>"

text \<open>The macro \<^verbatim>\<open>SIZE\<close>, and \<^verbatim>\<open>BLKSZ\<close>, a value of type \<^verbatim>\<open>int\<close>.\<close>

definition SIZE :: "ext2_inode \<Rightarrow> u64" where
  "SIZE i = ucast (size_low i) OR push_bit 32 (ucast (size_hi i))"

definition BLKSZ :: "ext2_superblock \<Rightarrow> u32 res" where
  "BLKSZ sb = (if unat (block_size sb) < 32 then Inr (push_bit (unat (block_size sb)) 1024)
               else Inl (ShiftUB (unat (block_size sb))))"

section \<open>Operations\<close>

definition ext2_init :: "reader \<Rightarrow> u64 \<Rightarrow> fs \<Rightarrow> (u64 \<times> fs) res" where
  "ext2_init rd node s =
     (if node = 0 then Inr (0, s)
      else rbind (fs_kmalloc 1024 s) (\<lambda>(super, s).
           rbind (rd node 0x400 1024 super s) (\<lambda>(_, s).
           rbind (deref superblock_of super s) (\<lambda>sb.
           if magic sb = EXT2_MAGIC
           then rbind (vfs_alloc_node s) (\<lambda>(root, s).
                rbind (fill_node root (\<lambda>n. n\<lparr>drv := Ext2Drv, flags := VFS_DIRECTORY, inode := EXT2_ROOT_INODE,
                    reserved := super, ptr := node\<rparr>) s) (\<lambda>s. Inr (root, s)))
           else rbind (fs_kfree super s) (\<lambda>s. Inr (0, s))))))"

definition ext2_fini :: "env \<Rightarrow> u64 \<Rightarrow> fs \<Rightarrow> (u64 \<times> fs) res" where
  "ext2_fini E node s =
     (if node = 0 then Inr (int_u64 (EINVAL E), s)
      else rbind (node_at node s) (\<lambda>n.
           rbind (fs_kfree (reserved n) s) (\<lambda>s.
           rbind (fs_kfree node s) (\<lambda>s. Inr (0, s)))))"

text \<open>The places \<^verbatim>\<open>ext2_read_inode\<close> reads from: products of 32 bits.\<close>

definition desc_offset :: "u32 \<Rightarrow> u32 \<Rightarrow> u32 \<Rightarrow> u64" where
  "desc_offset blk sbn bg = ucast (blk * (sbn + 1)) + ucast bg * 32"

definition inode_offset :: "u32 \<Rightarrow> u32 \<Rightarrow> u32 \<Rightarrow> u16 \<Rightarrow> u64" where
  "inode_offset blk st ix isz = ucast (st * blk + ix * ucast isz)"

definition ext2_read_inode :: "reader \<Rightarrow> u64 \<Rightarrow> fs \<Rightarrow> (u64 \<times> fs) res" where
  "ext2_read_inode rd node s =
     rbind (node_at node s) (\<lambda>n.
     rbind (deref superblock_of (reserved n) s) (\<lambda>sb.
     if ind_in_grp sb = 0 then Inl DivZero else
     let bg = ucast ((inode n - 1) div ucast (ind_in_grp sb)) :: u32;
         ix = ucast ((inode n - 1) mod ucast (ind_in_grp sb)) :: u32 in
     rbind (fs_kmalloc 32 s) (\<lambda>(desc, s).
     rbind (BLKSZ sb) (\<lambda>blk.
     rbind (rd (ptr n) (desc_offset blk (sblock_num sb) bg) 32 desc s) (\<lambda>(_, s).
     rbind (deref group_desc_of desc s) (\<lambda>d.
     rbind (fs_kfree desc s) (\<lambda>s.
     rbind (fs_kmalloc (ucast (inode_size sb)) s) (\<lambda>(i, s).
     rbind (rd (ptr n) (inode_offset blk (inode_st d) ix (inode_size sb)) (ucast (inode_size sb)) i s) (\<lambda>(_, s).
     Inr (i, s))))))))))"

text \<open>The loop of \<^verbatim>\<open>ext2_read_inode_data\<close> over the direct blocks that are left.\<close>

fun direct_loop :: "reader \<Rightarrow> u64 \<Rightarrow> u32 \<Rightarrow> u64 \<Rightarrow> u64 \<Rightarrow> nat list \<Rightarrow> fs \<Rightarrow> fs res" where
  "direct_loop rd dev blk i data [] s = Inr s"
| "direct_loop rd dev blk i data (k # ks) s =
     rbind (deref inode_of i s) (\<lambda>ino.
       if direct ino ! k = 0 then Inr s
       else rbind (rd dev (ucast (direct ino ! k * blk)) (int_u64 blk) (data + int_u64 (of_nat k * blk)) s)
              (\<lambda>(_, s). direct_loop rd dev blk i data ks s))"

definition ext2_read_inode_data :: "reader \<Rightarrow> u64 \<Rightarrow> u64 \<Rightarrow> fs \<Rightarrow> (u64 \<times> fs) res" where
  "ext2_read_inode_data rd node i s =
     rbind (node_at node s) (\<lambda>n.
     rbind (deref superblock_of (reserved n) s) (\<lambda>sb.
     rbind (BLKSZ sb) (\<lambda>blk.
     rbind (fs_kmalloc (int_u64 (12 * blk)) s) (\<lambda>(data, s).
     rbind (direct_loop rd (ptr n) blk i data [0..<12] s) (\<lambda>s. Inr (data, s))))))"

definition ext2_read_block_data :: "reader \<Rightarrow> u64 \<Rightarrow> u32 \<Rightarrow> u64 \<Rightarrow> u64 \<Rightarrow> u64 \<Rightarrow> fs \<Rightarrow> fs res" where
  "ext2_read_block_data rd node block offset sz data s =
     rbind (node_at node s) (\<lambda>n.
     rbind (deref superblock_of (reserved n) s) (\<lambda>sb.
     rbind (BLKSZ sb) (\<lambda>blk.
     rbind (rd (ptr n) (ucast (block * blk) + offset) sz data s) (\<lambda>(_, s). Inr s))))"

text \<open>The loop of \<^verbatim>\<open>ext2_read_block_chain\<close>, with the block size it computes each time; \<open>None\<close> if never left.\<close>

partial_function (option) chain_loop ::
  "reader \<Rightarrow> u64 \<Rightarrow> u64 \<Rightarrow> u32 \<Rightarrow> u32 \<Rightarrow> u64 \<Rightarrow> u64 \<Rightarrow> u64 \<Rightarrow> fs \<Rightarrow> fs res option" where
  "chain_loop rd node blocks blk i offset sz p s =
     (if sz = 0 then Some (Inr s)
      else case deref get32 (blocks + 4 * int_u64 i) s of
        Inl e \<Rightarrow> Some (Inl e)
      | Inr b \<Rightarrow>
          if b = 0 then Some (Inr s)
          else let n = int_u64 (if int_u64 blk < sz then blk else ucast sz)
               in case ext2_read_block_data rd node b offset n p s of
                    Inl e \<Rightarrow> Some (Inl e)
                  | Inr s' \<Rightarrow> chain_loop rd node blocks blk (i + 1) 0 (sz - n) (p + n) s')"

definition ext2_read_block_chain :: "reader \<Rightarrow> u64 \<Rightarrow> u64 \<Rightarrow> u64 \<Rightarrow> u64 \<Rightarrow> u64 \<Rightarrow> fs \<Rightarrow> fs res" where
  "ext2_read_block_chain rd node blocks offset sz data s =
     rbind (node_at node s) (\<lambda>n.
     rbind (deref superblock_of (reserved n) s) (\<lambda>sb.
     rbind (BLKSZ sb) (\<lambda>blk.
     if blk = 0 then Inl DivZero else
     of_loop (chain_loop rd node blocks blk (ucast (offset div int_u64 blk)) (offset mod int_u64 blk) sz data s))))"

text \<open>
  \<^verbatim>\<open>ext2_read_inode_data_ex\<close>. Its state between the parts: the bytes that are left, the place in the
  buffer, the offset. The part for the direct blocks; the address of \<^verbatim>\<open>in->direct\<close> is that of the inode plus 40.
\<close>

definition read_direct :: "reader \<Rightarrow> u64 \<Rightarrow> u64 \<Rightarrow> u32 \<Rightarrow> u64 \<times> u64 \<times> u64 \<Rightarrow> fs \<Rightarrow> ((u64 \<times> u64 \<times> u64) \<times> fs) res" where
  "read_direct rd node i bytes_in_dbp x s = (case x of (offset, sz, p) \<Rightarrow>
     if offset < int_u64 bytes_in_dbp
     then let n = int_u64 (if int_u64 bytes_in_dbp < offset + sz then ucast (int_u64 bytes_in_dbp - offset) else ucast sz)
          in rbind (ext2_read_block_chain rd node (i + 40) offset n p s) (\<lambda>s. Inr ((0, sz - n, p + n), s))
     else Inr ((offset - int_u64 bytes_in_dbp, sz, p), s))"

text \<open>The part for the block of block numbers.\<close>

definition read_single :: "reader \<Rightarrow> u64 \<Rightarrow> u64 \<Rightarrow> u32 \<Rightarrow> u32 \<Rightarrow> u64 \<times> u64 \<times> u64 \<Rightarrow> fs
    \<Rightarrow> ((u64 \<times> u64 \<times> u64) \<times> fs) res" where
  "read_single rd node i blk bytes_in_sibp x s = (case x of (offset, sz, p) \<Rightarrow>
     if 0 < sz \<and> offset < int_u64 bytes_in_sibp
     then rbind (fs_kmalloc (int_u64 blk) s) (\<lambda>(sibp, s).
          rbind (deref inode_of i s) (\<lambda>ino.
          rbind (ext2_read_block_data rd node (s_indirect ino) 0 (int_u64 blk) sibp s) (\<lambda>s.
          let n = int_u64 (if int_u64 bytes_in_sibp < offset + sz then ucast (int_u64 bytes_in_sibp - offset) else ucast sz)
          in rbind (ext2_read_block_chain rd node sibp offset n p s) (\<lambda>s.
             rbind (fs_kfree sibp s) (\<lambda>s. Inr ((0, sz - n, p + n), s))))))
     else Inr ((offset - int_u64 bytes_in_sibp, sz, p), s))"

text \<open>The search for the first block of block numbers: \<^verbatim>\<open>offset > bytes_in_sibp\<close>, not \<^verbatim>\<open>>=\<close>.\<close>

fun skip_single :: "u64 \<Rightarrow> nat \<Rightarrow> nat \<Rightarrow> u64 \<Rightarrow> nat \<times> u64" where
  "skip_single bytes_in_sibp 0 k offset = (k, offset)"
| "skip_single bytes_in_sibp (Suc l) k offset =
     (if bytes_in_sibp < offset then skip_single bytes_in_sibp l (Suc k) (offset - bytes_in_sibp) else (k, offset))"

text \<open>The loop \<^verbatim>\<open>while (sz > 0)\<close> over the blocks of block numbers; \<open>None\<close> if never left.\<close>

partial_function (option) double_loop ::
  "reader \<Rightarrow> u64 \<Rightarrow> u32 \<Rightarrow> u32 \<Rightarrow> u64 \<Rightarrow> u64 \<Rightarrow> u32 \<Rightarrow> u32 \<Rightarrow> u64 \<Rightarrow> u64 \<Rightarrow> u64 \<Rightarrow> fs
     \<Rightarrow> ((u64 \<times> u64 \<times> u64) \<times> fs) res option" where
  "double_loop rd node blk bytes_in_sibp dibp sibp k n offset sz p s =
    (if \<not> 0 <s n then Some (Inr ((offset, sz, p), s))
     else let n2 = (if int_u64 bytes_in_sibp < offset + int_u64 n then ucast (int_u64 bytes_in_sibp - offset) else n)
          in case rbind (deref get32 (dibp + 4 * int_u64 k) s) (\<lambda>b.
                  rbind (ext2_read_block_data rd node b 0 (int_u64 blk) sibp s)
                    (ext2_read_block_chain rd node sibp offset (int_u64 n2) p)) of
               Inl e \<Rightarrow> Some (Inl e)
             | Inr s' \<Rightarrow> double_loop rd node blk bytes_in_sibp dibp sibp
                           (k + 1) (n - n2) 0 (sz - int_u64 n2) (p + int_u64 n2) s')"

definition read_double :: "reader \<Rightarrow> u64 \<Rightarrow> u64 \<Rightarrow> u32 \<Rightarrow> u32 \<Rightarrow> u64 \<times> u64 \<times> u64 \<Rightarrow> fs
    \<Rightarrow> ((u64 \<times> u64 \<times> u64) \<times> fs) res" where
  "read_double rd node i blk ptrs_in_block x s = (case x of (offset, sz, p) \<Rightarrow>
     let bytes_in_sibp = blk * ptrs_in_block; bytes_in_dibp = bytes_in_sibp * ptrs_in_block in
     if 0 < sz \<and> offset < int_u64 bytes_in_dibp
     then rbind (fs_kmalloc (int_u64 blk) s) (\<lambda>(sibp, s).
          rbind (fs_kmalloc (int_u64 blk) s) (\<lambda>(dibp, s).
          rbind (deref inode_of i s) (\<lambda>ino.
          rbind (ext2_read_block_data rd node (d_indirect ino) 0 (int_u64 blk) dibp s) (\<lambda>s.
          let (k, offset) = skip_single (int_u64 bytes_in_sibp) (unat ptrs_in_block) 0 offset;
              rest = bytes_in_dibp - of_nat k * bytes_in_sibp;
              n = (if int_u64 rest < offset + sz then ucast (int_u64 rest - offset) else ucast sz)
          in rbind (of_loop (double_loop rd node blk bytes_in_sibp dibp sibp (of_nat k) n offset sz p s)) (\<lambda>(x, s).
             rbind (fs_kfree dibp s) (\<lambda>s.
             rbind (fs_kfree sibp s) (\<lambda>s. Inr (x, s))))))))
     else Inr ((offset - int_u64 bytes_in_dibp, sz, p), s))"

definition ext2_read_inode_data_ex :: "reader \<Rightarrow> u64 \<Rightarrow> u64 \<Rightarrow> u64 \<Rightarrow> u64 \<Rightarrow> fs \<Rightarrow> (u64 \<times> fs) res" where
  "ext2_read_inode_data_ex rd node i offset sz s =
     rbind (node_at node s) (\<lambda>n.
     rbind (fs_kmalloc sz s) (\<lambda>(data, s).
     rbind (deref superblock_of (reserved n) s) (\<lambda>sb.
     rbind (BLKSZ sb) (\<lambda>blk.
     let ptrs_in_block = ucast (int_u64 blk div 4) :: u32 in
     rbind (read_direct rd node i (12 * blk) (offset, sz, data) s) (\<lambda>(x, s).
     rbind (read_single rd node i blk (blk * ptrs_in_block) x s) (\<lambda>(x, s).
     rbind (read_double rd node i blk ptrs_in_block x s) (\<lambda>(x, s).
     Inr (data, s))))))))"

definition ext2_read :: "env \<Rightarrow> reader \<Rightarrow> u64 \<Rightarrow> u64 \<Rightarrow> u64 \<Rightarrow> u64 \<Rightarrow> fs \<Rightarrow> (u64 \<times> fs) res" where
  "ext2_read E rd node offset sz buffer s =
     (if node = 0 then Inr (int_u64 (EINVAL E), s)
      else rbind (ext2_read_inode rd node s) (\<lambda>(i, s).
           rbind (deref inode_of i s) (\<lambda>ino.
           if SIZE ino < offset then Inr (int_u64 (EINVAL E), s)
           else let sz = (if SIZE ino < offset + sz then SIZE ino - offset else sz) in
                rbind (ext2_read_inode_data_ex rd node i offset sz s) (\<lambda>(data, s).
                rbind (memcpy buffer data sz (ram s)) (\<lambda>m.
                rbind (fs_kfree data (s\<lparr>ram := m\<rparr>)) (\<lambda>s. Inr (sz, s)))))))"

definition ext2_open :: "u64 \<Rightarrow> u32 \<Rightarrow> u64" where
  "ext2_open node fl = 0"

definition ext2_write :: "env \<Rightarrow> u64 \<Rightarrow> u64 \<Rightarrow> u64 \<Rightarrow> u64 \<Rightarrow> fs \<Rightarrow> (u64 \<times> fs) res" where
  "ext2_write E node offset sz buffer s = Inr (int_u64 (EINVAL E), s)"

definition ext2_close :: "u64 \<Rightarrow> u64" where
  "ext2_close node = 0"

text \<open>
  The walk of \<^verbatim>\<open>ext2_readdir\<close> over the entries: the number of steps made and the place of the entry.
  \<open>l\<close> is the number of steps left until \<^verbatim>\<open>index\<close>.
\<close>

fun readdir_loop :: "u64 \<Rightarrow> u64 \<Rightarrow> nat \<Rightarrow> nat \<Rightarrow> u64 \<Rightarrow> fs \<Rightarrow> (nat \<times> u64) res" where
  "readdir_loop data dsize 0 k ed s = Inr (k, ed)"
| "readdir_loop data dsize (Suc l) k ed s =
     (if ed - data < dsize
      then rbind (deref direntry_of ed s) (\<lambda>e.
             if e_length e \<noteq> 0 then readdir_loop data dsize l (Suc k) (ed + ucast (e_size e)) s else Inr (k, ed))
      else Inr (k, ed))"

definition ext2_readdir :: "env \<Rightarrow> reader \<Rightarrow> u64 \<Rightarrow> u64 \<Rightarrow> fs \<Rightarrow> (u64 \<times> fs) res" where
  "ext2_readdir E rd node index s =
     (if node = 0 then Inr (int_u64 (EINVAL E), s)
      else rbind (ext2_read_inode rd node s) (\<lambda>(i, s).
           rbind (ext2_read_inode_data rd node i s) (\<lambda>(data, s).
           rbind (fs_kmalloc SIZEOF_DIRENT s) (\<lambda>(d, s).
           rbind (deref inode_of i s) (\<lambda>ino.
           rbind (readdir_loop data (SIZE ino) (unat index) 0 data s) (\<lambda>(k, ed).
           rbind (if k = unat index \<and> ed - data < SIZE ino
                  then rbind (deref direntry_of ed s) (\<lambda>e. Inr (if e_length e \<noteq> 0 then Some e else None))
                  else Inr None) (\<lambda>found.
           rbind (case found of
                    Some e \<Rightarrow>
                      if d = 0 then Inl (BadAddr 0)
                      else Inr (d, s\<lparr>dents := (dents s)(d \<mapsto>
                             \<lparr>d_name = (strncpy (load d 256 (ram s)) (load (ed + 8) (unat (e_length e)) (ram s))
                                          (unat (e_length e)))[unat (e_length e) := 0],
                              d_inode = ucast (e_inode e)\<rparr>)\<rparr>)
                  | None \<Rightarrow> rbind (fs_kfree d s) (\<lambda>s. Inr (int_u64 (EINVAL E), s))) (\<lambda>(d, s).
           rbind (fs_kfree i s) (\<lambda>s.
           rbind (fs_kfree data s) (\<lambda>s. Inr (d, s))))))))))) "

text \<open>The search of \<^verbatim>\<open>ext2_finddir\<close>; \<open>None\<close> if it is never left.\<close>

partial_function (option) finddir_loop :: "u8 list \<Rightarrow> u64 \<Rightarrow> u64 \<Rightarrow> u64 \<Rightarrow> fs \<Rightarrow> u64 option res option" where
  "finddir_loop nm data dsize ed s =
     (if ed - data < dsize
      then (case deref direntry_of ed s of
              Inl e \<Rightarrow> Some (Inl e)
            | Inr e \<Rightarrow>
                if e_length e = 0 then Some (Inr None)
                else if strncmp_eq nm (load (ed + 8) (unat (e_length e)) (ram s)) (unat (e_length e))
                then Some (Inr (Some ed))
                else finddir_loop nm data dsize (ed + ucast (e_size e)) s)
      else Some (Inr None))"

definition ext2_finddir :: "env \<Rightarrow> reader \<Rightarrow> u64 \<Rightarrow> u8 list \<Rightarrow> fs \<Rightarrow> (u64 \<times> fs) res" where
  "ext2_finddir E rd node nm s =
     (if node = 0 then Inr (int_u64 (EINVAL E), s)
      else rbind (ext2_read_inode rd node s) (\<lambda>(i, s).
           rbind (ext2_read_inode_data rd node i s) (\<lambda>(data, s).
           rbind (vfs_alloc_node s) (\<lambda>(v, s).
           rbind (deref inode_of i s) (\<lambda>ino.
           rbind (of_loop (finddir_loop nm data (SIZE ino) data s)) (\<lambda>found.
           rbind (case found of
                    Some ed \<Rightarrow>
                      rbind (deref direntry_of ed s) (\<lambda>e.
                      rbind (node_at node s) (\<lambda>n.
                      rbind (fill_node v (\<lambda>x. x\<lparr>name := strncpy (name x) (load (ed + 8) (unat (e_length e)) (ram s))
                                 (unat (e_length e)), inode := ucast (e_inode e), drv := drv n,
                                 reserved := reserved n, ptr := ptr n\<rparr>) s) (\<lambda>s.
                      rbind (ext2_read_inode rd v s) (\<lambda>(fi, s).
                      rbind (deref inode_of fi s) (\<lambda>f.
                      rbind (fill_node v (\<lambda>x. x\<lparr>rights := ucast (type_perm f), uid := ucast (in_uid f),
                                 gid := ucast (in_gid f), length_of := ucast (size_low f)\<rparr>) s) (\<lambda>s.
                      rbind (fs_kfree fi s) (\<lambda>s. Inr (v, s))))))))
                  | None \<Rightarrow> rbind (fs_kfree v s) (\<lambda>s. Inr (0, s))) (\<lambda>(v, s).
           rbind (fs_kfree i s) (\<lambda>s.
           rbind (fs_kfree data s) (\<lambda>s. Inr (v, s))))))))))"

section \<open>Reading chains of blocks\<close>

text \<open>\<open>node\<close> is a node of a file system with blocks of \<open>blk\<close> bytes on the device \<open>dev\<close>, its super block at \<open>sba\<close>.\<close>

definition ext2_node :: "fs \<Rightarrow> u64 \<Rightarrow> u64 \<Rightarrow> u64 \<Rightarrow> u32 \<Rightarrow> bool" where
  "ext2_node s node dev sba blk \<longleftrightarrow>
     (case fnodes s node of None \<Rightarrow> False | Some n \<Rightarrow> ptr n = dev \<and> reserved n = sba)
     \<and> 4096 \<le> sba \<and> BLKSZ (superblock_of (ram s) sba) = Inr blk \<and> 0 < unat blk \<and> unat blk < 2 ^ 31"

definition super_bytes :: "u64 \<Rightarrow> u64 set" where
  "super_bytes sba = {sba + 24, sba + 25, sba + 26, sba + 27}"

text \<open>The table of block numbers from entry \<open>i\<close> on.\<close>

definition tab_entry :: "u64 \<Rightarrow> u32 \<Rightarrow> u64" where
  "tab_entry blocks i = blocks + 4 * int_u64 i"

definition table_is :: "(u64 \<Rightarrow> u8) \<Rightarrow> u64 \<Rightarrow> u32 \<Rightarrow> u32 list \<Rightarrow> bool" where
  "table_is m blocks i bs \<longleftrightarrow>
     (\<forall>k < length bs. 4096 \<le> tab_entry blocks (i + of_nat k) \<and> get32 m (tab_entry blocks (i + of_nat k)) = bs ! k)"

definition tab_bytes :: "u64 \<Rightarrow> u32 \<Rightarrow> nat \<Rightarrow> u64 set" where
  "tab_bytes blocks i n = (\<Union>k < n. {tab_entry blocks (i + of_nat k), tab_entry blocks (i + of_nat k) + 1,
     tab_entry blocks (i + of_nat k) + 2, tab_entry blocks (i + of_nat k) + 3})"

definition apart :: "u64 \<Rightarrow> nat \<Rightarrow> u64 set \<Rightarrow> bool" where
  "apart p n R \<longleftrightarrow> (\<forall>i < n. p + of_nat i \<notin> R)"

definition block :: "u32 \<Rightarrow> u8 list \<Rightarrow> u32 \<Rightarrow> u8 list" where
  "block blk cont b = cut (unat b * unat blk) (unat blk) cont"

text \<open>The block numbers of a chain are not zero and lie on the device, below 4 GB.\<close>

definition blocks_ok :: "u32 \<Rightarrow> u8 list \<Rightarrow> u32 list \<Rightarrow> bool" where
  "blocks_ok blk cont bs \<longleftrightarrow> (\<forall>b \<in> set bs. b \<noteq> 0 \<and> unat b * unat blk + unat blk \<le> length cont
     \<and> unat b * unat blk < 2 ^ 32)"

lemma get32_cong:
  "m' a = m a \<Longrightarrow> m' (a + 1) = m (a + 1) \<Longrightarrow> m' (a + 2) = m (a + 2) \<Longrightarrow> m' (a + 3) = m (a + 3)
    \<Longrightarrow> get32 m' a = get32 m a"
  by (simp add: get32_def)

lemma apart_store:
  assumes "apart p n R" and "length bs \<le> n" and "x \<in> R"
  shows "store p bs m x = m x"
  by (rule store_same) (use assms in \<open>auto simp: apart_def\<close>)

lemma ext2_node_ram:
  assumes "ext2_node s node dev sba blk" and "\<And>x. x \<in> super_bytes sba \<Longrightarrow> m x = ram s x"
  shows "ext2_node (s\<lparr>ram := m\<rparr>) node dev sba blk"
proof -
  have "get32 m (sba + 24) = get32 (ram s) (sba + 24)"
    by (rule get32_cong) (use assms(2) in \<open>auto simp: super_bytes_def add.assoc\<close>)
  then have "BLKSZ (superblock_of m sba) = BLKSZ (superblock_of (ram s) sba)"
    by (simp add: BLKSZ_def superblock_of_def)
  then show ?thesis using assms(1) by (simp add: ext2_node_def)
qed

lemma table_is_Cons:
  assumes "table_is m blocks i (b # bs)"
  shows "4096 \<le> tab_entry blocks i" and "get32 m (tab_entry blocks i) = b" and "table_is m blocks (i + 1) bs"
proof -
  have *: "4096 \<le> tab_entry blocks (i + of_nat k) \<and> get32 m (tab_entry blocks (i + of_nat k)) = (b # bs) ! k"
    if "k < Suc (length bs)" for k
    using assms that by (simp add: table_is_def)
  show "4096 \<le> tab_entry blocks i" and "get32 m (tab_entry blocks i) = b" using * [of 0] by auto
  show "table_is m blocks (i + 1) bs"
    unfolding table_is_def using * [of "Suc _"] by (auto simp: add.assoc)
qed

lemma tab_bytes_Suc: "tab_bytes blocks (i + 1) n \<subseteq> tab_bytes blocks i (Suc n)"
proof -
  have "tab_entry blocks (i + 1 + of_nat k) = tab_entry blocks (i + of_nat (Suc k))" for k
    by (simp add: add.assoc)
  then show ?thesis unfolding tab_bytes_def by (fastforce simp del: of_nat_Suc)
qed

lemma table_is_ram:
  assumes "table_is m blocks i bs" and "\<And>x. x \<in> tab_bytes blocks i (length bs) \<Longrightarrow> m' x = m x"
  shows "table_is m' blocks i bs"
proof -
  have "get32 m' (tab_entry blocks (i + of_nat k)) = get32 m (tab_entry blocks (i + of_nat k))" if "k < length bs" for k
    by (rule get32_cong) (use assms(2) that in \<open>auto simp: tab_bytes_def\<close>)
  then show ?thesis using assms(1) by (simp add: table_is_def)
qed

lemma unat_ucast_u32: "unat (ucast x :: u64) = unat (x :: u32)"
proof -
  have "unat x < 2 ^ 64" using unsigned_less [of x, where ?'a = nat] by simp
  then show ?thesis by (simp add: unsigned_ucast_eq take_bit_nat_eq_self)
qed

lemma int_u64_blk:
  fixes blk :: u32
  assumes "unat blk < 2 ^ 31"
  shows "int_u64 blk = ucast blk" and "unat (int_u64 blk) = unat blk"
proof -
  have u: "unat (ucast blk :: u64) = unat blk"
    by (rule unat_ucast_u32)
  have "int_u64 (ucast (ucast blk :: u64)) = (ucast blk :: u64)"
    by (rule int_u64_small) (use assms u in simp)
  moreover have "ucast (ucast blk :: u64) = blk" by (rule bit_word_eqI) (auto simp: bit_simps)
  ultimately show "int_u64 blk = ucast blk" by simp
  then show "unat (int_u64 blk) = unat blk" using u by simp
qed

lemma table_is_drop:
  assumes "table_is m blocks 0 bs"
  shows "table_is m blocks (of_nat j) (drop j bs)"
proof -
  have "4096 \<le> tab_entry blocks (of_nat (j + k)) \<and> get32 m (tab_entry blocks (of_nat (j + k))) = bs ! (j + k)"
    if "k < length (drop j bs)" for k
    using assms that unfolding table_is_def by (metis add.commute add_0 length_drop less_diff_conv)
  then show ?thesis by (simp add: table_is_def)
qed

lemma tab_bytes_drop: "j \<le> n \<Longrightarrow> tab_bytes blocks (of_nat j) (n - j) \<subseteq> tab_bytes blocks 0 n"
proof
  fix x assume j: "j \<le> n" and "x \<in> tab_bytes blocks (of_nat j) (n - j)"
  then obtain k where k: "k < n - j" "x \<in> {tab_entry blocks (of_nat j + of_nat k), tab_entry blocks (of_nat j + of_nat k) + 1,
     tab_entry blocks (of_nat j + of_nat k) + 2, tab_entry blocks (of_nat j + of_nat k) + 3}"
    by (auto simp: tab_bytes_def)
  have "0 + of_nat (j + k) = (of_nat j + of_nat k :: u32)" by simp
  then show "x \<in> tab_bytes blocks 0 n"
    using k j unfolding tab_bytes_def by (intro UN_I [of "j + k"]) auto
qed

lemma drop_concat_blocks:
  assumes "\<forall>x \<in> set xs. length x = B"
  shows "drop (B * j) (concat xs) = concat (drop j xs)"
  using assms
proof (induction xs arbitrary: j)
  case (Cons x xs)
  then show ?case by (cases j) auto
qed simp

lemma cut_concat:
  assumes "\<forall>x \<in> set xs. length x = B"
  shows "cut off n (concat xs) = cut (off mod B) n (concat (drop (off div B) xs))"
proof -
  have "drop off (concat xs) = drop (off mod B) (drop (B * (off div B)) (concat xs))"
    by (simp add: add.commute)
  then show ?thesis unfolding cut_def drop_concat_blocks [OF assms] by simp
qed

lemma blocks_length:
  "blocks_ok blk cont bs \<Longrightarrow> \<forall>x \<in> set (map (block blk cont) bs). length x = unat blk"
  by (auto simp: block_def blocks_ok_def intro!: cut_length)

context storage
begin

lemma read_block:
  assumes "ok s" and "ext2_node s node dev sba blk" and "p \<noteq> 0"
    and "unat b * unat blk < 2 ^ 32" and "unat b * unat blk + unat off + unat k \<le> length (contents s)"
    and "unat k < 2 ^ 31" and "0 < unat k"
  shows "ext2_read_block_data rd node b off k p s =
    Inr (s\<lparr>ram := store p (cut (unat b * unat blk + unat off) (unat k) (contents s)) (ram s)\<rparr>)"
proof -
  obtain n where n: "fnodes s node = Some n" "ptr n = dev" "reserved n = sba" "4096 \<le> sba"
    "BLKSZ (superblock_of (ram s) sba) = Inr blk"
    using assms(2) by (auto simp: ext2_node_def split: option.splits)
  have bb: "unat (b * blk) = unat b * unat blk"
    using assms(4) by (subst unat_mult_lem [symmetric]) simp
  have u: "unat (ucast (b * blk) :: u64) = unat b * unat blk"
    using bb by (simp add: unat_ucast_u32)
  have "unat (ucast (b * blk) + off) = unat b * unat blk + unat off"
    using unat_add_of_nat [of "ucast (b * blk)" "unat off"] u assms(5) size_law [OF assms(1)] by simp
  then have "rd dev (ucast (b * blk) + off) k p s =
      Inr (k, s\<lparr>ram := store p (cut (unat b * unat blk + unat off) (unat k) (contents s)) (ram s)\<rparr>)"
    using read_law [OF assms(1,3), of "ucast (b * blk) + off" k] assms(5-7) by simp
  then show ?thesis
    using n by (simp add: ext2_read_block_data_def node_at_def deref_def)
qed

text \<open>The whole chain, from the start of a block.\<close>

lemma chain_reads:
  assumes "ok s" and "ext2_node s node dev sba blk" and "table_is (ram s) blocks i bs"
    and "blocks_ok blk (contents s) bs" and "unat sz \<le> unat blk * length bs" and "unat sz < 2 ^ 31"
    and "0 < unat p" and "unat p + unat sz < 2 ^ 64"
    and "apart p (unat sz) (own \<union> super_bytes sba \<union> tab_bytes blocks i (length bs))"
  shows "chain_loop rd node blocks blk i 0 sz p s =
    Some (Inr (s\<lparr>ram := store p (take (unat sz) (concat (map (block blk (contents s)) bs))) (ram s)\<rparr>))"
  using assms
proof (induction bs arbitrary: i sz p s)
  case Nil
  then have "sz = 0" by (simp add: unat_eq_zero)
  then show ?case by (subst chain_loop.simps) (simp add: store_def)
next
  case (Cons b bs)
  let ?R = "own \<union> super_bytes sba \<union> tab_bytes blocks i (length (b # bs))"
  note t = table_is_Cons [OF Cons.prems(3)]
  have B: "0 < unat blk" "unat blk < 2 ^ 31" using Cons.prems(2) by (auto simp: ext2_node_def)
  have b: "b \<noteq> 0" "unat b * unat blk + unat blk \<le> length (contents s)" "unat b * unat blk < 2 ^ 32"
    using Cons.prems(4) by (auto simp: blocks_ok_def)
  show ?case
  proof (cases "sz = 0")
    case True
    then show ?thesis by (subst chain_loop.simps) (simp add: store_def)
  next
    case False
    define k where "k = int_u64 (if int_u64 blk < sz then blk else ucast sz)"
    have k: "unat k = min (unat blk) (unat sz)"
      using int_u64_blk [OF B(2)] int_u64_small [OF Cons.prems(6)]
      by (auto simp: k_def word_less_nat_alt unat_ucast_u32)
    then have kpos: "0 < unat k" "unat k \<le> unat sz" "unat k < 2 ^ 31"
      using False B Cons.prems(6) by (auto simp: unat_gt_0)
    define d where "d = cut (unat b * unat blk) (unat k) (contents s)"
    let ?s = "s\<lparr>ram := store p d (ram s)\<rparr>"
    have ld: "length d = unat k" unfolding d_def using b(2) k by (intro cut_length) simp
    have rb: "ext2_read_block_data rd node b 0 k p s = Inr ?s"
    proof -
      have "p \<noteq> 0" using Cons.prems(7) by auto
      moreover have "unat b * unat blk + unat (0 :: u64) + unat k \<le> length (contents s)" using b(2) k by simp
      ultimately show ?thesis
        using read_block [OF Cons.prems(1,2) _ b(3) _ kpos(3,1)] unfolding d_def by (metis add.right_neutral unat_0)
    qed
    have same: "store p d (ram s) x = ram s x" if "x \<in> ?R" for x
      by (rule apart_store [OF Cons.prems(9)]) (use that ld kpos in auto)
    have ok1: "ok ?s" and c1: "contents ?s = contents s"
      using keep_law [OF Cons.prems(1), of "store p d (ram s)"] same by auto
    have pk: "unat (p + k) = unat p + unat k" "unat (sz - k) = unat sz - unat k"
      using unat_add_of_nat [of p "unat k"] Cons.prems(8) kpos(2)
      by (auto simp: unat_sub word_le_nat_alt)
    have ap: "apart (p + k) (unat (sz - k)) (own \<union> super_bytes sba \<union> tab_bytes blocks (i + 1) (length bs))"
      unfolding apart_def
    proof (intro allI impI)
      fix j assume "j < unat (sz - k)"
      then have "unat k + j < unat sz" using pk(2) by simp
      then have "p + of_nat (unat k + j) \<notin> ?R" using Cons.prems(9) unfolding apart_def by blast
      moreover have "p + of_nat (unat k + j) = p + k + of_nat j" by simp
      ultimately show "p + k + of_nat j \<notin> own \<union> super_bytes sba \<union> tab_bytes blocks (i + 1) (length bs)"
        using tab_bytes_Suc [of blocks i "length bs"] by (auto simp: add.assoc)
    qed
    have rest: "chain_loop rd node blocks blk (i + 1) 0 (sz - k) (p + k) ?s =
        Some (Inr (?s\<lparr>ram := store (p + k) (take (unat (sz - k)) (concat (map (block blk (contents ?s)) bs))) (ram ?s)\<rparr>))"
    proof (rule Cons.IH [OF ok1])
      show "ext2_node ?s node dev sba blk" by (rule ext2_node_ram [OF Cons.prems(2)]) (use same in auto)
      show "table_is (ram ?s) blocks (i + 1) bs"
        using table_is_ram [OF t(3), of "store p d (ram s)"] same tab_bytes_Suc [of blocks i "length bs"] by auto
      show "blocks_ok blk (contents ?s) bs" using Cons.prems(4) c1 by (simp add: blocks_ok_def)
      show "unat (sz - k) \<le> unat blk * length bs" using pk(2) k Cons.prems(5) by (simp add: min_def split: if_splits)
    qed (use pk Cons.prems(6-8) ap kpos in auto)
    let ?xs = "concat (map (block blk (contents s)) bs)"
    have "take (unat sz) (block blk (contents s) b @ ?xs) = d @ take (unat (sz - k)) ?xs"
    proof -
      have lb: "length (block blk (contents s) b) = unat blk"
        unfolding block_def using b(2) by (rule cut_length)
      have "d = take (unat sz) (block blk (contents s) b)"
        unfolding d_def block_def cut_def using k by (simp add: min.commute)
      moreover have "take (unat sz - unat blk) ?xs = take (unat (sz - k)) ?xs" using pk(2) k by (simp add: min_def)
      ultimately show ?thesis using lb by simp
    qed
    moreover have "store (p + k) ys (store p d (ram s)) = store p (d @ ys) (ram s)" if "length ys \<le> unat (sz - k)" for ys
      using store_append [of d ys p "ram s"] ld that pk(2) kpos(2) Cons.prems(6) by simp
    ultimately have "chain_loop rd node blocks blk (i + 1) 0 (sz - k) (p + k) ?s =
        Some (Inr (s\<lparr>ram := store p (take (unat sz) (concat (map (block blk (contents s)) (b # bs)))) (ram s)\<rparr>))"
      using rest c1 by simp
    then show ?thesis
      using False t(1,2) b(1) rb
      by (subst chain_loop.simps) (simp add: deref_def tab_entry_def not_less flip: k_def)
  qed
qed

text \<open>A read of at most one block's length from the middle of a block: what follows on the device.\<close>

lemma chain_reads_one:
  assumes "ok s" and "ext2_node s node dev sba blk" and "table_is (ram s) blocks i (b # bs)"
    and "b \<noteq> 0" and "unat b * unat blk < 2 ^ 32" and "unat b * unat blk + unat off + unat sz \<le> length (contents s)"
    and "unat sz \<le> unat blk" and "0 < unat sz" and "p \<noteq> 0"
  shows "chain_loop rd node blocks blk i off sz p s =
    Some (Inr (s\<lparr>ram := store p (cut (unat b * unat blk + unat off) (unat sz) (contents s)) (ram s)\<rparr>))"
proof -
  note t = table_is_Cons [OF assms(3)]
  have B: "unat blk < 2 ^ 31" using assms(2) by (auto simp: ext2_node_def)
  have sz: "unat sz < 2 ^ 31" using B assms(7) by simp
  have nl: "\<not> int_u64 blk < sz" using int_u64_blk [OF B] assms(7) by (simp add: word_less_nat_alt unat_ucast_u32)
  have nz: "sz \<noteq> 0" using assms(8) by auto
  have "chain_loop rd node blocks blk (i + 1) 0 0 (p + sz) s' = Some (Inr s')" for s'
    by (subst chain_loop.simps) simp
  then show ?thesis
    using nz t(1,2) assms(4) int_u64_small [OF sz] read_block [OF assms(1,2,9,5,6) sz assms(8)]
    by (subst chain_loop.simps) (simp add: deref_def tab_entry_def not_less Let_def nl)
qed

lemma chain_start:
  assumes "ext2_node s node dev sba blk" and "unat off div unat blk < 2 ^ 32"
  shows "ext2_read_block_chain rd node blocks off sz p s =
    of_loop (chain_loop rd node blocks blk (of_nat (unat off div unat blk)) (of_nat (unat off mod unat blk)) sz p s)"
proof -
  obtain n where n: "fnodes s node = Some n" "reserved n = sba" "4096 \<le> sba"
    "BLKSZ (superblock_of (ram s) sba) = Inr blk" "0 < unat blk" "unat blk < 2 ^ 31"
    using assms(1) by (auto simp: ext2_node_def split: option.splits)
  have b: "unat (int_u64 blk) = unat blk" using int_u64_blk [OF n(6)] by simp
  have d: "unat (off div int_u64 blk) = unat off div unat blk" and m: "unat (off mod int_u64 blk) = unat off mod unat blk"
    using b by (simp_all add: unat_div unat_mod)
  have "ucast (off div int_u64 blk) = (of_nat (unat off div unat blk) :: u32)"
    unfolding d [symmetric] by (simp add: of_nat_unat)
  moreover have "off mod int_u64 blk = of_nat (unat off mod unat blk)"
    using m by (metis of_nat_unat ucast_id)
  moreover have "blk \<noteq> 0" using n(5) by auto
  moreover have "deref superblock_of sba s = Inr (superblock_of (ram s) sba)"
    using n(3) by (auto simp: deref_def)
  ultimately show ?thesis
    using n(1,2,4) by (simp add: ext2_read_block_chain_def node_at_def)
qed

lemma chain_file:
  assumes "ok s" and "ext2_node s node dev sba blk" and "table_is (ram s) blocks 0 bs"
    and "blocks_ok blk (contents s) bs" and "length bs < 2 ^ 31"
    and "unat off + unat sz \<le> unat blk * length bs" and "unat sz < 2 ^ 31"
    and "unat off mod unat blk = 0 \<or> unat off mod unat blk + unat sz \<le> unat blk"
    and "0 < unat p" and "unat p + unat sz < 2 ^ 64" and "0 < unat sz"
    and "apart p (unat sz) (own \<union> super_bytes sba \<union> tab_bytes blocks 0 (length bs))"
  shows "ext2_read_block_chain rd node blocks off sz p s =
    Inr (s\<lparr>ram := store p (cut (unat off) (unat sz) (concat (map (block blk (contents s)) bs))) (ram s)\<rparr>)"
proof -
  define j where "j = unat off div unat blk"
  define o' where "o' = unat off mod unat blk"
  let ?bs = "drop j bs" and ?file = "concat (map (block blk (contents s)) bs)"
  have B: "0 < unat blk" "unat blk < 2 ^ 31" using assms(2) by (auto simp: ext2_node_def)
  have off: "unat off = unat blk * j + o'" by (simp add: j_def o'_def)
  have jl: "j < length bs"
  proof (rule ccontr)
    assume "\<not> j < length bs"
    then have "unat blk * length bs \<le> unat blk * j" by (intro mult_le_mono2) simp
    then show False using assms(6,11) off by linarith
  qed
  then have st: "ext2_read_block_chain rd node blocks off sz p s =
      of_loop (chain_loop rd node blocks blk (of_nat j) (of_nat o') sz p s)"
    using chain_start [OF assms(2), of off] assms(5) by (simp add: j_def o'_def)
  have fl: "cut (unat off) (unat sz) ?file = cut o' (unat sz) (concat (map (block blk (contents s)) ?bs))"
    using cut_concat [OF blocks_length [OF assms(4)]] by (simp add: j_def o'_def drop_map)
  have t: "table_is (ram s) blocks (of_nat j) ?bs" by (rule table_is_drop [OF assms(3)])
  have bok: "blocks_ok blk (contents s) ?bs"
    using assms(4) by (auto simp: blocks_ok_def dest: in_set_dropD)
  show ?thesis
  proof (cases "o' = 0")
    case True
    have "unat sz \<le> unat blk * length ?bs"
      using assms(6) off True jl by (simp add: diff_mult_distrib2)
    moreover have "apart p (unat sz) (own \<union> super_bytes sba \<union> tab_bytes blocks (of_nat j) (length ?bs))"
      using assms(12) tab_bytes_drop [of j "length bs" blocks] jl unfolding apart_def by auto
    ultimately have "chain_loop rd node blocks blk (of_nat j) 0 sz p s =
        Some (Inr (s\<lparr>ram := store p (take (unat sz) (concat (map (block blk (contents s)) ?bs))) (ram s)\<rparr>))"
      using chain_reads [OF assms(1,2) t bok _ assms(7,9,10)] by blast
    then show ?thesis using st fl True by (simp add: cut_def)
  next
    case False
    then have fit: "o' + unat sz \<le> unat blk" using assms(8) by (simp add: o'_def)
    obtain b bs' where bs: "?bs = b # bs'" using jl by (cases ?bs) auto
    have b: "b \<noteq> 0" "unat b * unat blk + unat blk \<le> length (contents s)" "unat b * unat blk < 2 ^ 32"
      using bok bs by (auto simp: blocks_ok_def)
    have "o' < unat blk" using B(1) by (simp add: o'_def)
    then have uo: "unat (of_nat o' :: u64) = o'" using B(2) by (simp add: unat_of_nat)
    have "cut o' (unat sz) (concat (map (block blk (contents s)) ?bs)) = cut (unat b * unat blk + o') (unat sz) (contents s)"
    proof -
      have lb: "length (block blk (contents s) b) = unat blk" unfolding block_def using b(2) by (rule cut_length)
      have "cut o' (unat sz) (block blk (contents s) b @ xs) = cut o' (unat sz) (block blk (contents s) b)" for xs
        using fit lb by (simp add: cut_def)
      then show ?thesis using bs fit by (simp add: block_def cut_cut)
    qed
    moreover have "p \<noteq> 0" using assms(9) by auto
    ultimately show ?thesis
      using chain_reads_one [OF assms(1,2), of blocks "of_nat j" b bs' "of_nat o'" sz p] t bs b fit uo st fl assms(11)
      by simp
  qed
qed

lemma chain_next_block:
  assumes "ok s" and "ext2_node s node dev sba blk" and "table_is (ram s) blocks 0 bs"
    and "blocks_ok blk (contents s) bs" and "length bs < 2 ^ 31" and "unat off div unat blk < length bs"
    and "unat (bs ! (unat off div unat blk)) * unat blk + unat off mod unat blk + unat sz \<le> length (contents s)"
    and "0 < unat sz" and "unat sz \<le> unat blk" and "0 < unat p"
  shows "ext2_read_block_chain rd node blocks off sz p s =
    Inr (s\<lparr>ram := store p (cut (unat (bs ! (unat off div unat blk)) * unat blk + unat off mod unat blk) (unat sz) (contents s))
            (ram s)\<rparr>)"
proof -
  define j where "j = unat off div unat blk"
  have B: "0 < unat blk" "unat blk < 2 ^ 31" using assms(2) by (auto simp: ext2_node_def)
  have "unat off mod unat blk < unat blk" using B(1) by simp
  then have uo: "unat (of_nat (unat off mod unat blk) :: u64) = unat off mod unat blk" using B(2) by (simp add: unat_of_nat)
  have bs: "drop j bs = bs ! j # drop (Suc j) bs" using assms(6) by (simp add: Cons_nth_drop_Suc j_def)
  have "bs ! j \<in> set bs" using assms(6) by (simp add: j_def)
  then have b: "bs ! j \<noteq> 0" "unat (bs ! j) * unat blk < 2 ^ 32" using assms(4) by (auto simp: blocks_ok_def)
  have t: "table_is (ram s) blocks (of_nat j) (bs ! j # drop (Suc j) bs)"
    using table_is_drop [OF assms(3), of j] bs by simp
  have "p \<noteq> 0" using assms(10) by auto
  moreover have "ext2_read_block_chain rd node blocks off sz p s =
      of_loop (chain_loop rd node blocks blk (of_nat j) (of_nat (unat off mod unat blk)) sz p s)"
    using chain_start [OF assms(2), of off] assms(5,6) by (simp add: j_def)
  ultimately show ?thesis
    using chain_reads_one [OF assms(1,2) t b, of "of_nat (unat off mod unat blk)" sz p] uo assms(7-9)
    by (simp add: j_def)
qed

end

section \<open>Looking up names\<close>

text \<open>
  \<^verbatim>\<open>ext2_finddir\<close> compares as many characters as the entry's name has: an entry whose name is a
  proper prefix of the name that is looked up is taken for it.
\<close>

theorem finddir_matches_prefix:
  assumes "0 < dsize" and "4096 \<le> data" and "n = unat (e_length (direntry_of (ram s) data))" and "0 < n"
    and "load (data + 8) n (ram s) = take n nm" and "n < length nm" and "0 \<notin> set nm"
  shows "finddir_loop nm data dsize data s = Some (Inr (Some data))"
proof -
  have nz: "e_length (direntry_of (ram s) data) \<noteq> 0" using assms(3,4) by auto
  have "cstr nm = nm" using assms(7) by (auto simp: cstr_def takeWhile_eq_all_conv)
  moreover have "cstr (take n nm) = take n nm"
    using assms(7) by (auto simp: cstr_def takeWhile_eq_all_conv dest: in_set_takeD)
  ultimately have "strncmp_eq nm (load (data + 8) n (ram s)) n"
    using assms(5) by (simp add: strncmp_eq_take)
  moreover have "deref direntry_of data s = Inr (direntry_of (ram s) data)"
    using assms(2) by (auto simp: deref_def)
  ultimately show ?thesis
    using assms(1,3) nz by (subst finddir_loop.simps) simp
qed

lemma load_two: "load a 2 m = [m a, m (a + 1)]"
  by (simp add: load_def numeral_2_eq_2)

text \<open>A directory with the single entry \<^verbatim>\<open>ab\<close>, in memory at 0x10000.\<close>

definition dir_ram :: "u64 \<Rightarrow> u8" where
  "dir_ram = store 0x10000 [11, 0, 0, 0, 12, 0, 2, 1, 97, 98, 0, 0] (\<lambda>_. 0)"

definition dir_fs :: "(u64 \<Rightarrow> u8) \<Rightarrow> fs" where
  "dir_fs m = \<lparr>fnodes = Map.empty, dents = Map.empty, ram = m, fheap = boot_heap, dev_nodes = [], nod_cnt = 0,
     console = demo_ktty\<rparr>"

lemma ram_dir_fs [simp]: "ram (dir_fs m) = m"
  by (simp add: dir_fs_def)

theorem finddir_matches_prefix_witness:
  "finddir_loop [97, 98, 99] 0x10000 1024 0x10000 (dir_fs dir_ram) = Some (Inr (Some 0x10000))"
proof -
  have "e_length (direntry_of dir_ram 0x10000) = 2" by (simp add: direntry_of_def dir_ram_def store_def)
  moreover have "load 0x10008 2 dir_ram = [97, 98]"
    by (simp add: load_two dir_ram_def store_def)
  ultimately show ?thesis
    by (intro finddir_matches_prefix [where n = 2]) simp_all
qed

text \<open>
  An entry of size 0 whose name does not match, as a damaged directory may hold, makes the
  search run forever.
\<close>

theorem finddir_size_zero_diverges:
  assumes "0 < dsize" and "4096 \<le> data" and "e_size (direntry_of (ram s) data) = 0"
    and "n = unat (e_length (direntry_of (ram s) data))" and "0 < n"
    and "take n (cstr nm) \<noteq> take n (cstr (load (data + 8) n (ram s)))"
  shows "finddir_loop nm data dsize data s = None"
proof -
  have nz: "e_length (direntry_of (ram s) data) \<noteq> 0" using assms(4,5) by auto
  have d: "deref direntry_of data s = Inr (direntry_of (ram s) data)" using assms(2) by (auto simp: deref_def)
  have ns: "\<not> strncmp_eq nm (load (data + 8) n (ram s)) n" using assms(6) by (simp add: strncmp_eq_take)
  have False if y: "finddir_loop nm data dsize data s = Some y" for y
  proof -
    have "\<not> (nm = nm \<and> data = data \<and> dsize = dsize \<and> data = data \<and> s = s)"
      by (rule finddir_loop.raw_induct
          [where P = "\<lambda>nm' data' dsize' ed' s' _. \<not> (nm' = nm \<and> data' = data \<and> dsize' = dsize \<and> ed' = data \<and> s' = s)", OF _ y])
        (use assms(1,3,4) nz d ns in \<open>fastforce split: if_splits sum.splits\<close>)
    then show False by simp
  qed
  then show ?thesis by (cases "finddir_loop nm data dsize data s") auto
qed

theorem finddir_size_zero_diverges_witness:
  "finddir_loop [122] 0x10000 1024 0x10000
     (dir_fs (store 0x10000 [11, 0, 0, 0, 0, 0, 2, 1, 97, 98, 0, 0] (\<lambda>_. 0))) = None"
proof -
  let ?m = "store 0x10000 [11, 0, 0, 0, 0, 0, 2, 1, 97, 98, 0, 0] (\<lambda>_. 0)"
  have "e_length (direntry_of ?m 0x10000) = 2" "e_size (direntry_of ?m 0x10000) = 0"
    by (simp_all add: direntry_of_def store_def get16_def)
  moreover have "load 0x10008 2 ?m = [97, 98]"
    by (simp add: load_two store_def)
  ultimately show ?thesis
    by (intro finddir_size_zero_diverges [where n = 2]) (simp_all add: cstr_def)
qed

end
