(* ===== verification/Vfs.thy ===== *)
theory Vfs
  imports Ext2
begin

text \<open>
  The virtual file system (\<^verbatim>\<open>fs/vfs/vfs.c\<close>), partitions (\<^verbatim>\<open>fs/mdpart/mdpart.c\<close>), the directory of devices
  (\<^verbatim>\<open>fs/devfs/devfs.c\<close>) and the start of the file system (\<^verbatim>\<open>fs/fs.c\<close>). The calls through the driver
  table are a case distinction on the driver of the node. \<^verbatim>\<open>vfs_read\<close> on a partition calls \<^verbatim>\<open>vfs_read\<close> on the
  device below it, \<^verbatim>\<open>devfs_add\<close> of a disk calls itself for its partitions: the first argument
  bounds the depth of these calls.
\<close>

section \<open>Partitions\<close>

definition MDPART_MAGIC :: u16 where "MDPART_MAGIC = 0xAA55"
definition MDPART_BLKSZ :: u32 where "MDPART_BLKSZ = 512"
definition MDPART_ACTIVE :: u32 where "MDPART_ACTIVE = 0x80"

record partition =
  p_active :: u8
  s_head :: u8
  s_sector :: u16
  s_track :: u16
  p_type :: u8
  e_head :: u8
  e_sector :: u16
  e_track :: u16
  first_sector :: u32
  num_sectors :: u32

definition partition_of :: "(u64 \<Rightarrow> u8) \<Rightarrow> u64 \<Rightarrow> partition" where
  "partition_of m a =
     \<lparr>p_active = m a, s_head = m (a + 1), s_sector = take_bit 6 (get16 m (a + 2)), s_track = drop_bit 6 (get16 m (a + 2)),
      p_type = m (a + 4), e_head = m (a + 5), e_sector = take_bit 6 (get16 m (a + 6)), e_track = drop_bit 6 (get16 m (a + 6)),
      first_sector = get32 m (a + 8), num_sectors = get32 m (a + 12)\<rparr>"

record part =
  parts :: "partition list"
  part_magic :: u16

definition part_of :: "(u64 \<Rightarrow> u8) \<Rightarrow> u64 \<Rightarrow> part" where
  "part_of m a = \<lparr>parts = map (\<lambda>i. partition_of m (a + 446 + 16 * of_nat i)) [0..<4], part_magic = get16 m (a + 510)\<rparr>"

definition mdpart_open :: "u64 \<Rightarrow> u32 \<Rightarrow> u64" where
  "mdpart_open node fl = 0"

definition mdpart_close :: "u64 \<Rightarrow> u64" where
  "mdpart_close node = 0"

definition mdpart_read :: "env \<Rightarrow> reader \<Rightarrow> reader" where
  "mdpart_read E rd node offset sz buffer s =
     (if node = 0 then Inr (int_u64 (EBADF E), s)
      else rbind (node_at node s) (\<lambda>n.
        if ptr n = 0 then Inr (int_u64 (EBADF E), s)
        else if length_of n < offset then Inr (int_u64 (EINVAL E), s)
        else rd (ptr n) (offset + reserved n) (clip_len n offset sz) buffer s))"

definition mdpart_write :: "env \<Rightarrow> reader \<Rightarrow> reader" where
  "mdpart_write E wr node offset sz buffer s =
     (if node = 0 then Inr (int_u64 (EBADF E), s)
      else rbind (node_at node s) (\<lambda>n.
        if ptr n = 0 then Inr (int_u64 (EBADF E), s)
        else if length_of n < offset then Inr (int_u64 (EINVAL E), s)
        else wr (ptr n) (offset + reserved n) (clip_len n offset sz) buffer s))"

section \<open>Dispatch\<close>

primrec vfs_read :: "nat \<Rightarrow> env \<Rightarrow> reader" where
  "vfs_read 0 E = (\<lambda>node offset sz buffer s. Inl Deep)"
| "vfs_read (Suc k) E = (\<lambda>node offset sz buffer s.
     if node = 0 then Inr (int_u64 (EBADF E), s)
     else rbind (node_at node s) (\<lambda>n.
       case drv n of
         InitrdDrv \<Rightarrow> initrd_read E node offset sz buffer s
       | AtaDrv \<Rightarrow> ata_read E node offset sz buffer s
       | MdpartDrv \<Rightarrow> mdpart_read E (vfs_read k E) node offset sz buffer s
       | TtyDrv \<Rightarrow> tty_read E node offset sz buffer s
       | Ext2Drv \<Rightarrow> ext2_read E (vfs_read k E) node offset sz buffer s
       | DevfsDrv \<Rightarrow> Inr (int_u64 (EBADF E), s)
       | NoDrv \<Rightarrow> Inr (int_u64 (EBADF E), s)))"

primrec vfs_write :: "nat \<Rightarrow> env \<Rightarrow> reader" where
  "vfs_write 0 E = (\<lambda>node offset sz buffer s. Inl Deep)"
| "vfs_write (Suc k) E = (\<lambda>node offset sz buffer s.
     if node = 0 then Inr (int_u64 (EBADF E), s)
     else rbind (node_at node s) (\<lambda>n.
       case drv n of
         InitrdDrv \<Rightarrow> initrd_write E node offset sz buffer s
       | AtaDrv \<Rightarrow> ata_write E node offset sz buffer s
       | MdpartDrv \<Rightarrow> mdpart_write E (vfs_write k E) node offset sz buffer s
       | TtyDrv \<Rightarrow> tty_write E node offset sz buffer s
       | Ext2Drv \<Rightarrow> ext2_write E node offset sz buffer s
       | DevfsDrv \<Rightarrow> Inr (int_u64 (EBADF E), s)
       | NoDrv \<Rightarrow> Inr (int_u64 (EBADF E), s)))"

definition vfs_open :: "env \<Rightarrow> u64 \<Rightarrow> u32 \<Rightarrow> fs \<Rightarrow> u64 res" where
  "vfs_open E node fl s =
     (if node = 0 then Inr (int_u64 (EBADF E))
      else rbind (node_at node s) (\<lambda>n. Inr (case drv n of
         InitrdDrv \<Rightarrow> initrd_open E node fl
       | AtaDrv \<Rightarrow> ata_open E node fl
       | MdpartDrv \<Rightarrow> mdpart_open node fl
       | TtyDrv \<Rightarrow> tty_open node fl
       | Ext2Drv \<Rightarrow> ext2_open node fl
       | DevfsDrv \<Rightarrow> int_u64 (EBADF E)
       | NoDrv \<Rightarrow> int_u64 (EBADF E))))"

definition vfs_close :: "env \<Rightarrow> u64 \<Rightarrow> fs \<Rightarrow> u64 res" where
  "vfs_close E node s =
     (if node = 0 then Inr (int_u64 (EBADF E))
      else rbind (node_at node s) (\<lambda>n. Inr (case drv n of
         InitrdDrv \<Rightarrow> initrd_close node
       | AtaDrv \<Rightarrow> ata_close node
       | MdpartDrv \<Rightarrow> mdpart_close node
       | TtyDrv \<Rightarrow> tty_close node
       | Ext2Drv \<Rightarrow> ext2_close node
       | DevfsDrv \<Rightarrow> int_u64 (EBADF E)
       | NoDrv \<Rightarrow> int_u64 (EBADF E))))"

section \<open>Directory of devices\<close>

definition MAXNODES :: nat where "MAXNODES = 100"

definition devfs_init :: "fs \<Rightarrow> (u64 \<times> fs) res" where
  "devfs_init s =
     rbind (vfs_alloc_node (s\<lparr>nod_cnt := 0\<rparr>)) (\<lambda>(v, s).
     rbind (fill_node v (\<lambda>n. n\<lparr>name := (strncpy (name n) [100, 101, 118, 102, 115] 5)[5 := 0],
         rights := 770, gid := 0, uid := 0, flags := VFS_DIRECTORY, inode := 0,
         reserved := 0, length_of := 0, drv := DevfsDrv, ptr := 0\<rparr>) s) (\<lambda>s. Inr (v, s)))"

definition devfs_readdir :: "env \<Rightarrow> u64 \<Rightarrow> u64 \<Rightarrow> fs \<Rightarrow> (u64 \<times> fs) res" where
  "devfs_readdir E node index s =
     (if node \<noteq> 0 \<and> unat index < nod_cnt s
      then rbind (vfs_alloc_dirent s) (\<lambda>(d, s).
           rbind (node_at (dev_nodes s ! unat index) s) (\<lambda>n.
           case dents s d of
             None \<Rightarrow> Inl (BadAddr d)
           | Some e \<Rightarrow> Inr (d, s\<lparr>dents := (dents s)(d \<mapsto>
                 e\<lparr>d_name := strncpy (d_name e) (name n) MAXNAMLEN, d_inode := inode n\<rparr>)\<rparr>)))
      else Inr (int_u64 (EINVAL E), s))"

text \<open>The loop of \<^verbatim>\<open>devfs_finddir\<close> over the nodes that are left.\<close>

fun devfs_search :: "u8 list \<Rightarrow> u64 list \<Rightarrow> fs \<Rightarrow> u64 option res" where
  "devfs_search nm [] s = Inr None"
| "devfs_search nm (p # ps) s =
     rbind (node_at p s) (\<lambda>n. if strncmp_eq nm (name n) MAXNAMLEN then Inr (Some p) else devfs_search nm ps s)"

definition devfs_finddir :: "env \<Rightarrow> u64 \<Rightarrow> u8 list \<Rightarrow> fs \<Rightarrow> u64 res" where
  "devfs_finddir E node nm s =
     rbind (devfs_search nm (take (nod_cnt s) (dev_nodes s)) s) (\<lambda>r.
       case r of Some p \<Rightarrow> Inr p | None \<Rightarrow> Inr (int_u64 (ENOENT E)))"

text \<open>
  \<^verbatim>\<open>mdpart_init\<close>. \<open>stk\<close> is the address of its local buffer. The test of the \<^verbatim>\<open>active\<close> bytes reads
  \<^verbatim>\<open>active&(~MDPART_ACTIVE) != 0\<close>, which C takes as \<^verbatim>\<open>active & ((~MDPART_ACTIVE) != 0)\<close>. \<open>add\<close> is \<^verbatim>\<open>devfs_add\<close>.
\<close>

definition bad_active :: "u8 \<Rightarrow> bool" where
  "bad_active a \<longleftrightarrow> ucast a AND (if NOT MDPART_ACTIVE \<noteq> 0 then 1 else 0 :: u32) \<noteq> 0"

fun mdpart_parts :: "(u64 \<Rightarrow> fs \<Rightarrow> fs res) \<Rightarrow> u64 \<Rightarrow> nat \<Rightarrow> partition list \<Rightarrow> fs \<Rightarrow> fs res" where
  "mdpart_parts add node i [] s = Inr s"
| "mdpart_parts add node i (p # ps) s =
     (if p_type p = 0 then Inr s
      else rbind (node_at node s) (\<lambda>n.
        let l = strlen (name n) in
        if l < MAXNAMLEN
        then rbind (vfs_alloc_node s) (\<lambda>(v, s).
             rbind (fill_node v (\<lambda>x. x\<lparr>name := (strncpy (name x) (name n) l)[l := of_nat i + 48, l + 1 := 0],
                 rights := 660, gid := 0, uid := 0, flags := VFS_CHARDEV OR VFS_STORAGE, inode := 0,
                 reserved := ucast (first_sector p * MDPART_BLKSZ), length_of := ucast (num_sectors p * MDPART_BLKSZ),
                 drv := MdpartDrv, ptr := node\<rparr>) s) (\<lambda>s.
             rbind (add v s) (mdpart_parts add node (Suc i) ps)))
        else mdpart_parts add node (Suc i) ps s))"

definition mdpart_init :: "reader \<Rightarrow> (u64 \<Rightarrow> fs \<Rightarrow> fs res) \<Rightarrow> u64 \<Rightarrow> u64 \<Rightarrow> fs \<Rightarrow> (u32 \<times> fs) res" where
  "mdpart_init rd add stk node s =
     rbind (rd node 0 512 stk s) (\<lambda>(l, s).
       let buf = part_of (ram s) stk in
       if ucast l <s (512 :: u32) \<or> part_magic buf \<noteq> MDPART_MAGIC then Inr (-1, s)
       else if list_ex (\<lambda>p. bad_active (p_active p)) (parts buf) then Inr (-2, s)
       else rbind (mdpart_parts add node 0 (parts buf) s) (\<lambda>s. Inr (0, s)))"

text \<open>
  \<^verbatim>\<open>devfs_add\<close>; for a node that is no storage it ends without a \<^verbatim>\<open>return\<close>, and the value, which no
  caller uses, is left out.
\<close>

primrec devfs_add :: "nat \<Rightarrow> reader \<Rightarrow> u64 \<Rightarrow> u64 \<Rightarrow> fs \<Rightarrow> fs res" where
  "devfs_add 0 rd stk node s = Inl Deep"
| "devfs_add (Suc k) rd stk node s =
     (if nod_cnt s < MAXNODES
      then let s = s\<lparr>dev_nodes := (dev_nodes s)[nod_cnt s := node], nod_cnt := Suc (nod_cnt s)\<rparr> in
           rbind (node_at node s) (\<lambda>n.
             if flags n AND VFS_STORAGE \<noteq> 0
             then rbind (mdpart_init rd (devfs_add k rd stk) stk node s) (\<lambda>(_, s). Inr s)
             else Inr s)
      else Inr s)"

section \<open>Directories and mounting\<close>

primrec vfs_readdir :: "nat \<Rightarrow> env \<Rightarrow> reader \<Rightarrow> u64 \<Rightarrow> u64 \<Rightarrow> fs \<Rightarrow> (u64 \<times> fs) res" where
  "vfs_readdir 0 E rd node index s = Inl Deep"
| "vfs_readdir (Suc k) E rd node index s =
     (if node = 0 then Inr (int_u64 (EBADF E), s)
      else rbind (node_at node s) (\<lambda>n.
        if flags n AND VFS_DIRECTORY = 0 then Inr (int_u64 (EBADF E), s)
        else if flags n AND VFS_MOUNTPOINT \<noteq> 0 then vfs_readdir k E rd (ptr n) index s
        else case drv n of
               DevfsDrv \<Rightarrow> devfs_readdir E node index s
             | Ext2Drv \<Rightarrow> ext2_readdir E rd node index s
             | _ \<Rightarrow> Inr (int_u64 (EBADF E), s)))"

primrec vfs_finddir :: "nat \<Rightarrow> env \<Rightarrow> reader \<Rightarrow> u64 \<Rightarrow> u8 list \<Rightarrow> fs \<Rightarrow> (u64 \<times> fs) res" where
  "vfs_finddir 0 E rd node nm s = Inl Deep"
| "vfs_finddir (Suc k) E rd node nm s =
     (if node = 0 then Inr (int_u64 (EBADF E), s)
      else rbind (node_at node s) (\<lambda>n.
        if flags n AND VFS_DIRECTORY = 0 then Inr (int_u64 (EBADF E), s)
        else if flags n AND VFS_MOUNTPOINT \<noteq> 0 then vfs_finddir k E rd (ptr n) nm s
        else case drv n of
               DevfsDrv \<Rightarrow> rbind (devfs_finddir E node nm s) (\<lambda>p. Inr (p, s))
             | Ext2Drv \<Rightarrow> ext2_finddir E rd node nm s
             | _ \<Rightarrow> Inr (int_u64 (EBADF E), s)))"

definition vfs_init_fs :: "reader \<Rightarrow> u64 \<Rightarrow> fs \<Rightarrow> (u64 \<times> fs) res" where
  "vfs_init_fs rd node s =
     rbind (ext2_init rd node s) (\<lambda>(v, s).
       if v \<noteq> 0 then Inr (v, s)
       else if fat32_init node \<noteq> 0 then Inr (fat32_init node, s)
       else Inr (0, s))"

definition vfs_fini_fs :: "env \<Rightarrow> u64 \<Rightarrow> fs \<Rightarrow> (u64 \<times> fs) res" where
  "vfs_fini_fs E node s =
     (if node = 0 then Inr (int_u64 (EINVAL E), s)
      else rbind (node_at node s) (\<lambda>n. case drv n of
             Ext2Drv \<Rightarrow> ext2_fini E node s
           | TtyDrv \<Rightarrow> tty_fini E node s
           | _ \<Rightarrow> Inr (int_u64 (EINVAL E), s)))"

definition vfs_mount :: "env \<Rightarrow> reader \<Rightarrow> u64 \<Rightarrow> u64 \<Rightarrow> fs \<Rightarrow> (u64 \<times> fs) res" where
  "vfs_mount E rd what target s =
     (if what = 0 \<or> target = 0 then Inr (int_u64 (EINVAL E), s)
      else rbind (node_at target s) (\<lambda>w.
        if flags w AND VFS_DIRECTORY = 0 then Inr (int_u64 (ENOTDIR E), s)
        else if flags w AND VFS_MOUNTPOINT \<noteq> 0 then Inr (int_u64 (EBUSY E), s)
        else rbind (vfs_init_fs rd what s) (\<lambda>(v, s).
               if v = 0 then Inr (int_u64 (EXDEV E), s)
               else rbind (fill_node target (\<lambda>w. w\<lparr>flags := flags w OR VFS_MOUNTPOINT, ptr := v\<rparr>) s)
                      (\<lambda>s. Inr (0, s)))))"

definition vfs_umount :: "env \<Rightarrow> u64 \<Rightarrow> fs \<Rightarrow> (u64 \<times> fs) res" where
  "vfs_umount E node s =
     (if node = 0 then Inr (int_u64 (EINVAL E), s)
      else rbind (node_at node s) (\<lambda>n.
        if flags n AND VFS_DIRECTORY = 0 then Inr (int_u64 (ENOTDIR E), s)
        else if flags n AND VFS_MOUNTPOINT = 0 then Inr (int_u64 (ENOENT E), s)
        else rbind (vfs_fini_fs E (ptr n) s) (\<lambda>(r, s).
             rbind (fill_node node (\<lambda>n. n\<lparr>ptr := 0\<rparr>) s) (\<lambda>s. Inr (r, s)))))"

text \<open>
  The depth of the calls. A chain of partitions has at most as many links as \<^verbatim>\<open>devfs\<close> has nodes, with a
  file system above and a device below it.
\<close>

definition DEPTH :: nat where "DEPTH = MAXNODES + 2"

section \<open>Start\<close>

record fs_globals =
  root :: u64
  dfs :: u64
  tty_node :: u64

text \<open>\<^verbatim>\<open>fs_init\<close> of the kernel (not \<^verbatim>\<open>__HOSTED__\<close>); the messages and \<^verbatim>\<open>fs_print_dir\<close> only print.\<close>

definition fs_init :: "env \<Rightarrow> u64 \<Rightarrow> fs \<Rightarrow> (fs_globals \<times> fs) res" where
  "fs_init E stk s =
     (let rd = vfs_read DEPTH E; add = devfs_add (Suc MAXNODES) rd stk in
      rbind (ata_init s) (\<lambda>(main, s).
      rbind (devfs_init s) (\<lambda>(dfs, s).
      rbind (add main s) (\<lambda>s.
      rbind (vfs_alloc_node s) (\<lambda>(root, s).
      rbind (fill_node root (\<lambda>n. n\<lparr>name := (name n)[0 := 47, 1 := 0], flags := VFS_DIRECTORY\<rparr>) s) (\<lambda>s.
      rbind (vfs_finddir DEPTH E rd dfs [97, 116, 97, 48] s) (\<lambda>(t, s).
      rbind (vfs_mount E rd t root s) (\<lambda>(_, s).
      rbind (tty_init 0 s) (\<lambda>(tty, s).
      rbind (add tty s) (\<lambda>s. Inr (\<lparr>root = root, dfs = dfs, tty_node = tty\<rparr>, s)))))))))))"

section \<open>The device below a partition\<close>

text \<open>A partition on a device: the part of the contents from \<^verbatim>\<open>reserved\<close> on. It is storage again.\<close>

locale partition_on = storage +
  fixes E :: env and node :: u64 and nd :: vfs_node
begin

definition part_ok :: "fs \<Rightarrow> bool" where
  "part_ok s \<longleftrightarrow> ok s \<and> node \<noteq> 0 \<and> dev \<noteq> 0 \<and> ptr nd = dev \<and> fnodes s node = Some nd \<and> unat (reserved nd) + unat (length_of nd) \<le> length (contents s)"

definition part_contents :: "fs \<Rightarrow> u8 list" where
  "part_contents s = cut (unat (reserved nd)) (unat (length_of nd)) (contents s)"

lemma part_contents_length: "part_ok s \<Longrightarrow> length (part_contents s) = unat (length_of nd)"
  unfolding part_ok_def part_contents_def by (intro cut_length) simp

lemma part_read:
  assumes "part_ok s" and "buf \<noteq> 0" and "unat off + unat n \<le> length (part_contents s)" and "unat n < 2 ^ 31" and "0 < unat n"
  shows "mdpart_read E rd node off n buf s =
    Inr (n, s\<lparr>ram := store buf (cut (unat off) (unat n) (part_contents s)) (ram s)\<rparr>)"
proof -
  have p: "ok s" "fnodes s node = Some nd" "unat (reserved nd) + unat (length_of nd) \<le> length (contents s)"
    "node \<noteq> 0" "dev \<noteq> 0" "ptr nd = dev"
    using assms(1) by (auto simp: part_ok_def)
  have le: "unat off + unat n \<le> unat (length_of nd)" using assms(3) part_contents_length [OF assms(1)] by simp
  have off: "unat (off + reserved nd) = unat off + unat (reserved nd)"
    using unat_add_of_nat [of off "unat (reserved nd)"] le p(3) size_law [OF p(1)] by simp
  have "rd dev (off + reserved nd) n buf s =
      Inr (n, s\<lparr>ram := store buf (cut (unat off + unat (reserved nd)) (unat n) (contents s)) (ram s)\<rparr>)"
    using read_law [OF p(1) assms(2), of "off + reserved nd" n] off le p(3) assms(4,5) by simp
  moreover have "cut (unat off) (unat n) (part_contents s) = cut (unat (reserved nd) + unat off) (unat n) (contents s)"
    unfolding part_contents_def by (rule cut_cut [OF le])
  moreover have "\<not> length_of nd < off" using le by (simp add: word_less_nat_alt)
  ultimately show ?thesis
    using p(2,4-6) clip_len_in [OF le assms(4)]
    by (simp add: mdpart_read_def node_at_def add.commute)
qed

end

sublocale partition_on \<subseteq> part: storage "mdpart_read E rd" node part_ok part_contents own
proof
  show "mdpart_read E rd node off n buf s = Inr (n, s\<lparr>ram := store buf (cut (unat off) (unat n) (part_contents s)) (ram s)\<rparr>)"
    if "part_ok s" "buf \<noteq> 0" "unat off + unat n \<le> length (part_contents s)" "unat n < 2 ^ 31" "0 < unat n" for s buf off n
    using part_read that .
  show "length (part_contents s) < 2 ^ 64" if "part_ok s" for s
    using part_contents_length [OF that] unsigned_less [of "length_of nd", where ?'a = nat] by simp
  show "part_ok (s\<lparr>ram := m\<rparr>) \<and> part_contents (s\<lparr>ram := m\<rparr>) = part_contents s"
    if "part_ok s" "\<And>x. x \<in> own \<Longrightarrow> m x = ram s x" for s m
    using keep_law [of s m] that by (auto simp: part_ok_def part_contents_def)
qed

text \<open>The RAM disk is storage: its contents are the bytes at \<^verbatim>\<open>reserved\<close>.\<close>

definition disk_ok :: "u64 \<Rightarrow> vfs_node \<Rightarrow> fs \<Rightarrow> bool" where
  "disk_ok dev nd s \<longleftrightarrow> dev \<noteq> 0 \<and> fnodes s dev = Some nd \<and> drv nd = InitrdDrv \<and> reserved nd \<noteq> 0"

definition disk_contents :: "vfs_node \<Rightarrow> fs \<Rightarrow> u8 list" where
  "disk_contents nd s = load (reserved nd) (unat (length_of nd)) (ram s)"

definition disk_bytes :: "vfs_node \<Rightarrow> u64 set" where
  "disk_bytes nd = {reserved nd + of_nat i | i. i < unat (length_of nd)}"

lemma vfs_read_disk:
  assumes "disk_ok dev nd s" and "buf \<noteq> 0" and "unat off + unat n \<le> unat (length_of nd)" and "unat n < 2 ^ 31"
  shows "vfs_read (Suc k) E dev off n buf s =
    Inr (n, s\<lparr>ram := store buf (cut (unat off) (unat n) (disk_contents nd s)) (ram s)\<rparr>)"
  using assms initrd_read_in [of dev s nd buf off n E] cut_load [OF assms(3)]
  by (simp add: disk_ok_def disk_contents_def node_at_def)

interpretation vfs_disk: storage "vfs_read (Suc k) E" dev "disk_ok dev nd" "disk_contents nd" "disk_bytes nd" for k E dev nd
proof
  show "vfs_read (Suc k) E dev off n buf s = Inr (n, s\<lparr>ram := store buf (cut (unat off) (unat n) (disk_contents nd s)) (ram s)\<rparr>)"
    if "disk_ok dev nd s" "buf \<noteq> 0" "unat off + unat n \<le> length (disk_contents nd s)" "unat n < 2 ^ 31" "0 < unat n" for s buf off n
    using vfs_read_disk that by (simp add: disk_contents_def)
  show "length (disk_contents nd s) < 2 ^ 64" if "disk_ok dev nd s" for s
    using unsigned_less [of "length_of nd", where ?'a = nat] by (simp add: disk_contents_def)
  show "disk_ok dev nd (s\<lparr>ram := m\<rparr>) \<and> disk_contents nd (s\<lparr>ram := m\<rparr>) = disk_contents nd s"
    if "disk_ok dev nd s" "\<And>x. x \<in> disk_bytes nd \<Longrightarrow> m x = ram s x" for s m
  proof -
    have "m (reserved nd + of_nat i) = ram s (reserved nd + of_nat i)" if "i < unat (length_of nd)" for i
      using \<open>\<And>x. x \<in> disk_bytes nd \<Longrightarrow> m x = ram s x\<close> that by (auto simp: disk_bytes_def)
    then show ?thesis using \<open>disk_ok dev nd s\<close> by (simp add: disk_ok_def disk_contents_def load_def)
  qed
qed

interpretation disk_part: partition_on "vfs_read (Suc k) E" dev "disk_ok dev nd" "disk_contents nd" "disk_bytes nd" E node pn
  for k E dev nd node pn ..

section \<open>Termination of devfs_add\<close>

text \<open>Reading leaves the number of devices alone.\<close>

definition keeps_count :: "(fs \<Rightarrow> ('a \<times> fs) res) \<Rightarrow> bool" where
  "keeps_count f \<longleftrightarrow> (\<forall>s x s'. f s = Inr (x, s') \<longrightarrow> nod_cnt s' = nod_cnt s)"

lemma fs_kmalloc_count: "fs_kmalloc n s = Inr (p, s') \<Longrightarrow> nod_cnt s' = nod_cnt s"
  by (auto simp: fs_kmalloc_def rbind_eq_Inr)

lemma fs_kfree_count: "fs_kfree p s = Inr s' \<Longrightarrow> nod_cnt s' = nod_cnt s"
  by (auto simp: fs_kfree_def rbind_eq_Inr)

lemma vfs_alloc_node_count: "vfs_alloc_node s = Inr (p, s') \<Longrightarrow> nod_cnt s' = nod_cnt s"
  by (auto simp: vfs_alloc_node_def rbind_eq_Inr put_node_def dest!: fs_kmalloc_count split: if_splits)

lemma fill_node_count: "fill_node p f s = Inr s' \<Longrightarrow> nod_cnt s' = nod_cnt s"
  by (auto simp: fill_node_def rbind_eq_Inr put_node_def)

lemmas count_dests = fs_kmalloc_count fs_kfree_count vfs_alloc_node_count fill_node_count

lemma ata_read_count: "ata_read E node off n buf s = Inr (x, s') \<Longrightarrow> nod_cnt s' = nod_cnt s"
  by (auto simp: ata_read_def ata_pio_read_def rbind_eq_Inr Let_def dest!: count_dests split: if_splits)

lemma initrd_read_count: "initrd_read E node off n buf s = Inr (x, s') \<Longrightarrow> nod_cnt s' = nod_cnt s"
  by (auto simp: initrd_read_def rbind_eq_Inr Let_def split: if_splits)

locale counting_reader =
  fixes rd :: reader
  assumes rd_count: "rd a b c d s = Inr (x, s') \<Longrightarrow> nod_cnt s' = nod_cnt s"
begin

lemma block_data_count: "ext2_read_block_data rd node b off n p s = Inr s' \<Longrightarrow> nod_cnt s' = nod_cnt s"
  by (auto simp: ext2_read_block_data_def rbind_eq_Inr dest!: rd_count)

lemma chain_loop_count: "chain_loop rd node bl blk i off n p s = Some (Inr s') \<Longrightarrow> nod_cnt s' = nod_cnt s"
proof -
  have "y = Inr s' \<longrightarrow> nod_cnt s' = nod_cnt s" if "chain_loop rd node bl blk i off n p s = Some y" for y
    by (rule chain_loop.raw_induct
        [where P = "\<lambda>rd' node bl blk i off n p s y. rd' = rd \<longrightarrow> y = Inr s' \<longrightarrow> nod_cnt s' = nod_cnt s", OF _ that, THEN mp])
      (fastforce simp: Let_def split: if_splits sum.splits dest: block_data_count)+
  then show "chain_loop rd node bl blk i off n p s = Some (Inr s') \<Longrightarrow> nod_cnt s' = nod_cnt s" by blast
qed

lemma block_chain_count: "ext2_read_block_chain rd node bl off n p s = Inr s' \<Longrightarrow> nod_cnt s' = nod_cnt s"
  by (auto simp: ext2_read_block_chain_def rbind_eq_Inr of_loop_def split: if_splits option.splits dest!: chain_loop_count)

lemma read_inode_count: "ext2_read_inode rd node s = Inr (i, s') \<Longrightarrow> nod_cnt s' = nod_cnt s"
  by (auto simp: ext2_read_inode_def rbind_eq_Inr Let_def split: if_splits dest!: count_dests rd_count)

lemma read_direct_count: "read_direct rd node i b x s = Inr (y, s') \<Longrightarrow> nod_cnt s' = nod_cnt s"
  by (auto simp: read_direct_def rbind_eq_Inr Let_def split: if_splits prod.splits dest!: block_chain_count)

lemma read_single_count: "read_single rd node i blk b x s = Inr (y, s') \<Longrightarrow> nod_cnt s' = nod_cnt s"
  by (auto simp: read_single_def rbind_eq_Inr Let_def split: if_splits prod.splits
      dest!: count_dests block_chain_count block_data_count)

lemma double_loop_count:
  "double_loop rd node blk b dibp sibp k n off sz p s = Some (Inr (y, s')) \<Longrightarrow> nod_cnt s' = nod_cnt s"
proof -
  have "z = Inr (y, s') \<longrightarrow> nod_cnt s' = nod_cnt s" if "double_loop rd node blk b dibp sibp k n off sz p s = Some z" for z
    by (rule double_loop.raw_induct
        [where P = "\<lambda>rd' node blk b dibp sibp k n off sz p s z. rd' = rd \<longrightarrow> z = Inr (y, s') \<longrightarrow> nod_cnt s' = nod_cnt s", OF _ that, THEN mp])
      (fastforce simp: Let_def rbind_eq_Inr split: if_splits sum.splits prod.splits dest: block_data_count block_chain_count)+
  then show "double_loop rd node blk b dibp sibp k n off sz p s = Some (Inr (y, s')) \<Longrightarrow> nod_cnt s' = nod_cnt s" by blast
qed

lemma read_double_count: "read_double rd node i blk b x s = Inr (y, s') \<Longrightarrow> nod_cnt s' = nod_cnt s"
  by (auto simp: read_double_def rbind_eq_Inr Let_def of_loop_eq_Inr split_def split: if_splits
      dest!: count_dests double_loop_count block_data_count)

lemma data_ex_count: "ext2_read_inode_data_ex rd node i off n s = Inr (d, s') \<Longrightarrow> nod_cnt s' = nod_cnt s"
  by (auto simp: ext2_read_inode_data_ex_def rbind_eq_Inr Let_def
      dest!: count_dests read_direct_count read_single_count read_double_count)

lemma ext2_read_count: "ext2_read E rd node off n buf s = Inr (x, s') \<Longrightarrow> nod_cnt s' = nod_cnt s"
  by (auto simp: ext2_read_def rbind_eq_Inr Let_def split: if_splits
      dest!: count_dests read_inode_count data_ex_count)

lemma mdpart_read_count: "mdpart_read E rd node off n buf s = Inr (x, s') \<Longrightarrow> nod_cnt s' = nod_cnt s"
  by (auto simp: mdpart_read_def rbind_eq_Inr split: if_splits dest!: rd_count)

end

lemma vfs_read_count: "vfs_read k E node off n buf s = Inr (x, s') \<Longrightarrow> nod_cnt s' = nod_cnt s"
proof (induction k arbitrary: node off n buf s x s')
  case (Suc k)
  then have c: "counting_reader (vfs_read k E)" by unfold_locales blast
  note dests = initrd_read_count ata_read_count counting_reader.mdpart_read_count [OF c]
    counting_reader.ext2_read_count [OF c]
  show ?case
  proof (cases "node_at node s")
    case (Inr nd)
    then show ?thesis using Suc.prems by (cases "drv nd") (auto simp: tty_read_def split: if_splits dest!: dests)
  qed (use Suc.prems in \<open>auto split: if_splits\<close>)
qed simp

interpretation vfs_reader: counting_reader "vfs_read k E" for k E
  by unfold_locales (rule vfs_read_count)

context counting_reader
begin

lemma mdpart_parts_count:
  assumes "\<And>v s s'. add v s = Inr s' \<Longrightarrow> nod_cnt s \<le> nod_cnt s'" and "mdpart_parts add node i ps s = Inr s'"
  shows "nod_cnt s \<le> nod_cnt s'"
  using assms(2)
proof (induction ps arbitrary: i s)
  case (Cons p ps)
  then show ?case
    using assms(1)
    by (auto simp: rbind_eq_Inr Let_def split: if_splits dest!: count_dests) (metis le_trans)+
qed simp

lemma devfs_add_count: "devfs_add k rd stk node s = Inr s' \<Longrightarrow> nod_cnt s \<le> nod_cnt s'"
proof (induction k arbitrary: node s s')
  case (Suc k)
  have "nod_cnt t \<le> nod_cnt t'" if "mdpart_parts (devfs_add k rd stk) node 0 ps t = Inr t'" for ps t t' node
    by (rule mdpart_parts_count [OF _ that]) (rule Suc.IH)
  then show ?case
    using Suc.prems
    by (auto simp: rbind_eq_Inr Let_def mdpart_init_def split: if_splits dest!: rd_count) fastforce
qed simp

lemma mdpart_parts_cong:
  assumes "\<And>v s. c \<le> nod_cnt s \<Longrightarrow> add v s = add' v s" and "\<And>v s s'. add v s = Inr s' \<Longrightarrow> nod_cnt s \<le> nod_cnt s'"
    and "c \<le> nod_cnt s"
  shows "mdpart_parts add node i ps s = mdpart_parts add' node i ps s"
  using assms(3)
proof (induction ps arbitrary: i s)
  case (Cons p ps)
  have step: "rbind (add v s1) (mdpart_parts add node (Suc i) ps) = rbind (add' v s1) (mdpart_parts add' node (Suc i) ps)"
    if "c \<le> nod_cnt s1" for v s1
  proof (cases "add v s1")
    case (Inr s2)
    then have "c \<le> nod_cnt s2" using assms(2) [of v s1 s2] that by simp
    moreover have "add' v s1 = Inr s2" using assms(1) [OF that, of v] Inr by simp
    ultimately show ?thesis using Cons.IH [of s2] Inr by simp
  qed (use assms(1) [OF that] in simp)
  have node: "rbind (vfs_alloc_node s) (\<lambda>(v, s). rbind (fill_node v f s) (\<lambda>s. rbind (add v s) (mdpart_parts add node (Suc i) ps)))
      = rbind (vfs_alloc_node s) (\<lambda>(v, s). rbind (fill_node v f s) (\<lambda>s. rbind (add' v s) (mdpart_parts add' node (Suc i) ps)))" for f
  proof (cases "vfs_alloc_node s")
    case (Inr r)
    obtain v s1 where r: "r = (v, s1)" by (cases r)
    show ?thesis
    proof (cases "fill_node v f s1")
      case f: (Inr s2)
      have "c \<le> nod_cnt s2" using vfs_alloc_node_count [of s v s1] fill_node_count [OF f] Inr r Cons.prems by simp
      then show ?thesis using Inr r f step by simp
    qed (use Inr r in simp)
  qed simp
  show ?case
    using node Cons.IH [OF Cons.prems] by (cases "node_at node s") (simp_all add: Let_def)
qed simp

lemma devfs_add_stable:
  "0 < k \<Longrightarrow> MAXNODES < k + nod_cnt s \<Longrightarrow> devfs_add (Suc k) rd stk node s = devfs_add k rd stk node s"
proof (induction k arbitrary: node s)
  case (Suc k)
  show ?case
  proof (cases "nod_cnt s < MAXNODES")
    case True
    let ?s = "s\<lparr>dev_nodes := (dev_nodes s)[nod_cnt s := node], nod_cnt := Suc (nod_cnt s)\<rparr>"
    have k: "0 < k" using True Suc.prems(2) by simp
    have "mdpart_init rd (devfs_add (Suc k) rd stk) stk node ?s = mdpart_init rd (devfs_add k rd stk) stk node ?s"
    proof (cases "rd node 0 512 stk ?s")
      case (Inr r)
      obtain l s1 where r: "r = (l, s1)" by (cases r)
      have "nod_cnt s1 = Suc (nod_cnt s)" using rd_count [of node 0 512 stk ?s l s1] Inr r by simp
      then have "mdpart_parts (devfs_add (Suc k) rd stk) node 0 ps s1 = mdpart_parts (devfs_add k rd stk) node 0 ps s1" for ps
      proof (intro mdpart_parts_cong [where c = "Suc (nod_cnt s)"])
        show "devfs_add (Suc k) rd stk v t = devfs_add k rd stk v t" if "Suc (nod_cnt s) \<le> nod_cnt t" for v t
          by (rule Suc.IH) (use that k Suc.prems(2) in auto)
        show "nod_cnt t \<le> nod_cnt t'" if "devfs_add (Suc k) rd stk v t = Inr t'" for v t t'
          by (rule devfs_add_count [OF that])
      qed simp
      then show ?thesis using Inr r by (simp add: mdpart_init_def Let_def)
    qed (simp add: mdpart_init_def)
    then show ?thesis using True by (simp add: Let_def cong: if_cong)
  qed simp
qed simp

lemma devfs_add_enough:
  assumes "0 < k" and "MAXNODES < k + nod_cnt s"
  shows "devfs_add (k + j) rd stk node s = devfs_add k rd stk node s"
  using assms by (induction j) (use devfs_add_stable in auto)

end

lemma of_opt_not_deep [simp]: "of_opt e x = Inl Deep \<longleftrightarrow> x = None \<and> e = Deep"
  by (cases x) auto

lemma hread_not_deep: "hread H a \<noteq> Inl Deep"
  by (auto simp: hread_def split: option.splits if_splits)

lemma kmalloc_find_not_deep: "of_loop (kmalloc_find H n a) \<noteq> Inl Deep"
proof -
  have "y \<noteq> Inl Deep" if "kmalloc_find H n a = Some y" for y
    by (rule kmalloc_find.raw_induct [where P = "\<lambda>_ _ _ y. y \<noteq> Inl Deep", OF _ that])
      (auto simp: hread_not_deep split: if_splits sum.splits)
  then show ?thesis by (cases "kmalloc_find H n a") (auto simp: of_loop_def)
qed

lemma kmalloc_not_deep: "kmalloc n H \<noteq> Inl Deep"
  by (auto simp: kmalloc_def kmalloc_split_def Let_def rbind_eq_Inl hread_not_deep kmalloc_find_not_deep split: if_splits)

lemma vfs_alloc_node_not_deep: "vfs_alloc_node s \<noteq> Inl Deep"
  by (auto simp: vfs_alloc_node_def fs_kmalloc_def rbind_eq_Inl kmalloc_not_deep split: if_splits)

lemma node_at_not_deep: "node_at p s \<noteq> Inl Deep"
  by (auto simp: node_at_def split: option.splits)

lemma fill_node_not_deep: "fill_node p f s \<noteq> Inl Deep"
  by (auto simp: fill_node_def rbind_eq_Inl node_at_not_deep)

lemmas not_deep = vfs_alloc_node_not_deep node_at_not_deep fill_node_not_deep

text \<open>A device whose driver reads without calling another one.\<close>

locale leaf_reader = counting_reader +
  assumes rd_not_deep: "rd a b c d s \<noteq> Inl Deep"
begin

lemma mdpart_parts_not_deep:
  assumes "\<And>v s. c \<le> nod_cnt s \<Longrightarrow> add v s \<noteq> Inl Deep" and "\<And>v s s'. add v s = Inr s' \<Longrightarrow> nod_cnt s \<le> nod_cnt s'"
    and "c \<le> nod_cnt s"
  shows "mdpart_parts add node i ps s \<noteq> Inl Deep"
  using assms(3)
proof (induction ps arbitrary: i s)
  case (Cons p ps)
  then show ?case
    using assms(1,2)
    by (auto simp: rbind_eq_Inl Let_def not_deep dest!: count_dests) (metis le_trans)
qed simp

lemma devfs_add_not_deep:
  "0 < k \<Longrightarrow> MAXNODES < k + nod_cnt s \<Longrightarrow> devfs_add k rd stk node s \<noteq> Inl Deep"
proof (induction k arbitrary: node s)
  case (Suc k)
  show ?case
  proof (cases "nod_cnt s < MAXNODES")
    case True
    let ?s = "s\<lparr>dev_nodes := (dev_nodes s)[nod_cnt s := node], nod_cnt := Suc (nod_cnt s)\<rparr>"
    have k: "0 < k" using True Suc.prems(2) by simp
    have "mdpart_parts (devfs_add k rd stk) node 0 ps s1 \<noteq> Inl Deep" if "nod_cnt s1 = Suc (nod_cnt s)" for ps s1
      by (rule mdpart_parts_not_deep [where c = "Suc (nod_cnt s)"])
        (use that k Suc devfs_add_count in auto)
    then have "mdpart_init rd (devfs_add k rd stk) stk node ?s \<noteq> Inl Deep"
      by (auto simp: mdpart_init_def rbind_eq_Inl Let_def rd_not_deep split: if_splits dest!: rd_count)
    then show ?thesis using True by (auto simp: Let_def rbind_eq_Inl not_deep)
  qed simp
qed simp

end

interpretation initrd_reader: leaf_reader "initrd_read E" for E
  by unfold_locales (rule initrd_read_count, auto simp: initrd_read_def memcpy_def rbind_eq_Inl Let_def not_deep split: if_splits)


section \<open>Reading\<close>

lemma clip_len_min:
  assumes "offset \<le> length_of n" and "unat offset + unat sz < 2 ^ 64" and "unat (length_of n) < 2 ^ 31"
  shows "clip_len n offset sz = of_nat (min (unat sz) (unat (length_of n) - unat offset))"
proof -
  have sum: "unat (offset + sz) = unat offset + unat sz"
    using unat_add_of_nat [of offset "unat sz"] assms(2) by simp
  have diff: "unat (length_of n - offset) = unat (length_of n) - unat offset"
    using assms(1) by (rule unat_sub)
  show ?thesis
  proof (cases "length_of n < offset + sz")
    case True
    then have "unat (length_of n) - unat offset \<le> unat sz" using sum by (simp add: word_less_nat_alt)
    moreover have "int_u64 (ucast (length_of n - offset)) = length_of n - offset"
      by (rule int_u64_small) (use diff assms(3) in simp)
    ultimately show ?thesis using True diff by (simp add: clip_len_def min_def) (metis diff of_nat_unat ucast_id)
  next
    case False
    then have le: "unat sz \<le> unat (length_of n) - unat offset"
      using sum assms(1) by (simp add: word_less_nat_alt word_le_nat_alt)
    then have "int_u64 (ucast sz) = sz" by (intro int_u64_small) (use assms(3) in simp)
    then show ?thesis using False le by (simp add: clip_len_def)
  qed
qed


text \<open>A RAM disk of 8 KB, its bytes at 0x100000, and a partition on it.\<close>

definition demo_nodes :: "u64 \<rightharpoonup> vfs_node" where
  "demo_nodes = [0x1000 \<mapsto> zero_node\<lparr>drv := InitrdDrv, reserved := 0x100000, length_of := 8192\<rparr>,
     0x2000 \<mapsto> zero_node\<lparr>drv := MdpartDrv, reserved := 512, length_of := 1024, ptr := 0x1000\<rparr>,
     0x3000 \<mapsto> zero_node\<lparr>drv := Ext2Drv, flags := VFS_DIRECTORY, reserved := 0x20000, ptr := 0x1000\<rparr>,
     0x4000 \<mapsto> zero_node\<lparr>flags := VFS_DIRECTORY OR VFS_MOUNTPOINT, ptr := 0x1000\<rparr>]"

text \<open>Memory with the table of the blocks 3 and 5 at 0x30000; zeros elsewhere, so that a super block of zeros is at 0x20000.\<close>

definition demo_fs :: fs where
  "demo_fs = \<lparr>fnodes = demo_nodes, dents = Map.empty,
     ram = store 0x30000 [3, 0, 0, 0, 5, 0, 0, 0] (\<lambda>_. 0), fheap = boot_heap, dev_nodes = replicate 100 0, nod_cnt = 0,
     console = demo_ktty\<rparr>"

definition demo_env :: env where
  "demo_env = \<lparr>EBADF = 9, EINVAL = 22, ENOTDIR = 20, EBUSY = 16, EXDEV = 18, ENOENT = 2, ENFILE = 23, disk = (\<lambda>_. 0)\<rparr>"


definition demo_disk :: vfs_node where
  "demo_disk = zero_node\<lparr>drv := InitrdDrv, reserved := 0x100000, length_of := 8192\<rparr>"

lemma demo_disk_ok: "disk_ok 0x1000 demo_disk demo_fs"
  by (simp add: disk_ok_def demo_fs_def demo_nodes_def demo_disk_def zero_node_def)


text \<open>
  On a file system on a RAM disk, a read from a chain of blocks that starts at a block boundary, or
  stays within one block, stores the bytes of the file: the contents of the listed blocks one after
  another.
\<close>

theorem ext2_chain_reads_file:
  assumes "disk_ok dev nd s" and "ext2_node s node dev sba blk" and "table_is (ram s) blocks 0 bs"
    and "blocks_ok blk (disk_contents nd s) bs" and "length bs < 2 ^ 31"
    and "unat off + unat sz \<le> unat blk * length bs" and "unat sz < 2 ^ 31"
    and "unat off mod unat blk = 0 \<or> unat off mod unat blk + unat sz \<le> unat blk"
    and "0 < unat p" and "unat p + unat sz < 2 ^ 64" and "0 < unat sz"
    and "apart p (unat sz) (disk_bytes nd \<union> super_bytes sba \<union> tab_bytes blocks 0 (length bs))"
  shows "ext2_read_block_chain (vfs_read (Suc k) E) node blocks off sz p s =
    Inr (s\<lparr>ram := store p (cut (unat off) (unat sz) (concat (map (block blk (disk_contents nd s)) bs))) (ram s)\<rparr>)"
  using assms by (rule vfs_disk.chain_file)

text \<open>
  A read that starts within a block and crosses its end does not go on with the next block of the
  file: up to the length of a block, it stores what follows on the disk.
\<close>

theorem ext2_chain_crosses_block:
  assumes "disk_ok dev nd s" and "ext2_node s node dev sba blk" and "table_is (ram s) blocks 0 bs"
    and "blocks_ok blk (disk_contents nd s) bs" and "length bs < 2 ^ 31" and "unat off div unat blk < length bs"
    and "unat (bs ! (unat off div unat blk)) * unat blk + unat off mod unat blk + unat sz \<le> length (disk_contents nd s)"
    and "0 < unat sz" and "unat sz \<le> unat blk" and "0 < unat p"
  shows "ext2_read_block_chain (vfs_read (Suc k) E) node blocks off sz p s =
    Inr (s\<lparr>ram := store p (cut (unat (bs ! (unat off div unat blk)) * unat blk + unat off mod unat blk) (unat sz)
       (disk_contents nd s)) (ram s)\<rparr>)"
  using assms by (rule vfs_disk.chain_next_block)

lemma demo_ext2:
  "ext2_node demo_fs 0x3000 0x1000 0x20000 1024" "table_is (ram demo_fs) 0x30000 0 [3, 5]"
  "blocks_ok 1024 (disk_contents demo_disk demo_fs) [3, 5]" "length (disk_contents demo_disk demo_fs) = 8192"
proof -
  have z: "get32 (ram demo_fs) 0x20018 = 0" by (simp add: get32_def demo_fs_def store_def)
  then show "ext2_node demo_fs 0x3000 0x1000 0x20000 1024"
    by (simp add: ext2_node_def BLKSZ_def superblock_of_def) (simp add: demo_fs_def demo_nodes_def)
  have e: "tab_entry 0x30000 0 = 0x30000" "tab_entry 0x30000 1 = 0x30004"
    by (simp_all add: tab_entry_def int_u64_def)
  have g: "get32 (ram demo_fs) 0x30000 = 3" "get32 (ram demo_fs) 0x30004 = 5"
    by (simp_all add: get32_def demo_fs_def store_def)
  show "table_is (ram demo_fs) 0x30000 0 [3, 5]"
    using e g by (simp add: table_is_def All_less_Suc)
  show l: "length (disk_contents demo_disk demo_fs) = 8192"
    by (simp add: disk_contents_def demo_disk_def)
  show "blocks_ok 1024 (disk_contents demo_disk demo_fs) [3, 5]" using l by (simp add: blocks_ok_def)
qed

lemma demo_apart:
  "apart 0x50000 512 (disk_bytes demo_disk \<union> super_bytes 0x20000 \<union> tab_bytes 0x30000 0 (Suc (Suc 0)))"
proof -
  have far: "0x50000 + of_nat i \<noteq> x" if "i < 512" and "unat x < 0x50000 \<or> 0x100000 \<le> unat x" for i and x :: u64
  proof -
    have "unat (0x50000 + of_nat i :: u64) = 0x50000 + i" using unat_add_of_nat [of "0x50000" i] that(1) by simp
    then show ?thesis using that by auto
  qed
  have d: "0x100000 \<le> unat x" if mem: "x \<in> disk_bytes demo_disk" for x
  proof -
    have r: "reserved demo_disk = 0x100000" "unat (length_of demo_disk) = 8192" by (simp_all add: demo_disk_def)
    obtain j where j: "x = 0x100000 + of_nat j" "j < 8192"
      using mem unfolding disk_bytes_def r by blast
    then show ?thesis using unat_add_of_nat [of "0x100000" j] by simp
  qed
  have t: "unat x < 0x50000" if "x \<in> super_bytes 0x20000 \<union> tab_bytes 0x30000 0 (Suc (Suc 0))" for x
    using that by (auto simp: super_bytes_def tab_bytes_def tab_entry_def int_u64_def lessThan_Suc)
  show ?thesis
    unfolding apart_def using far d t by (metis Un_iff)
qed

theorem ext2_chain_reads_file_witness:
  "\<exists>s'. ext2_read_block_chain (vfs_read (Suc 0) demo_env) 0x3000 0x30000 1024 512 0x50000 demo_fs = Inr s'"
  using ext2_chain_reads_file [OF demo_disk_ok demo_ext2(1-3), of 1024 512 "0x50000" 0 demo_env] demo_apart
  by (simp del: vfs_read.simps)

theorem ext2_chain_crosses_block_witness:
  "ext2_read_block_chain (vfs_read (Suc 0) demo_env) 0x3000 0x30000 768 512 0x50000 demo_fs =
     Inr (demo_fs\<lparr>ram := store 0x50000 (cut 3840 512 (disk_contents demo_disk demo_fs)) (ram demo_fs)\<rparr>)"
  using ext2_chain_crosses_block [OF demo_disk_ok demo_ext2(1-3), of 768 512 "0x50000" 0 demo_env] demo_ext2(4)
  by (simp del: vfs_read.simps)

section \<open>Mounting\<close>

text \<open>
  \<^verbatim>\<open>vfs_umount\<close> clears the pointer of the mount point but not its flag \<^verbatim>\<open>VFS_MOUNTPOINT\<close>: afterwards its
  entries cannot be read and nothing can be mounted there again.
\<close>

theorem umount_stays_busy:
  assumes "node \<noteq> 0" and "fnodes s node = Some n" and "flags n AND VFS_DIRECTORY \<noteq> 0" and "flags n AND VFS_MOUNTPOINT \<noteq> 0"
    and "vfs_fini_fs E (ptr n) s = Inr (r, s1)" and "fnodes s1 node = Some n" and "what \<noteq> 0"
  shows "\<exists>s2. vfs_umount E node s = Inr (r, s2)
     \<and> vfs_readdir (Suc (Suc k)) E rd node index s2 = Inr (int_u64 (EBADF E), s2)
     \<and> vfs_mount E rd what node s2 = Inr (int_u64 (EBUSY E), s2)"
  using assms by (simp add: vfs_umount_def node_at_def fill_node_def put_node_def vfs_mount_def)

theorem umount_stays_busy_witness:
  "\<exists>s2. vfs_umount demo_env 0x4000 demo_fs = Inr (22, s2) \<and> vfs_mount demo_env (vfs_read 1 demo_env) 0x1000 0x4000 s2 = Inr (16, s2)"
proof -
  let ?n = "zero_node\<lparr>flags := VFS_DIRECTORY OR VFS_MOUNTPOINT, ptr := 0x1000\<rparr>"
  have n: "fnodes demo_fs 0x4000 = Some ?n" by (simp add: demo_fs_def demo_nodes_def)
  have d: "fnodes demo_fs 0x1000 = Some demo_disk" by (simp add: demo_fs_def demo_nodes_def demo_disk_def)
  have "vfs_fini_fs demo_env (ptr ?n) demo_fs = Inr (22, demo_fs)"
    using d by (simp add: vfs_fini_fs_def node_at_def demo_disk_def demo_env_def int_u64_def)
  then show ?thesis
    using umount_stays_busy [of "0x4000" demo_fs ?n demo_env 22 demo_fs "0x1000" 0 "vfs_read 1 demo_env" 0] n
    by (auto simp: vfs_flags demo_env_def int_u64_def)
qed

text \<open>
  \<^verbatim>\<open>vfs_finddir\<close> returns an error number as a pointer, and \<^verbatim>\<open>fs_init\<close> passes the result to \<^verbatim>\<open>vfs_mount\<close>
  unchecked: on a disk without the partition \<^verbatim>\<open>ata0\<close> the mount reads a node at that address and
  the kernel stops.
\<close>

theorem mount_of_error_pointer:
  assumes "int_u64 (ENOENT E) \<noteq> 0" and "fnodes s (int_u64 (ENOENT E)) = None"
    and "kmalloc 1024 (fheap s) = Inr (b, H)" and "devfs_search nm (take (nod_cnt s) (dev_nodes s)) s = Inr None"
    and "d \<noteq> 0" and "fnodes s d = Some dn" and "drv dn = DevfsDrv" and "flags dn = VFS_DIRECTORY"
    and "r \<noteq> 0" and "fnodes s r = Some rn" and "flags rn = VFS_DIRECTORY"
  shows "rbind (vfs_finddir (Suc k) E (vfs_read (Suc j) E) d nm s) (\<lambda>(t, s). vfs_mount E (vfs_read (Suc j) E) t r s)
    = Inl (BadAddr (int_u64 (ENOENT E)))"
  using assms
  by (simp add: node_at_def devfs_finddir_def vfs_mount_def vfs_init_fs_def ext2_init_def fs_kmalloc_def
      VFS_DIRECTORY_def VFS_MOUNTPOINT_def)

lemma demo_block:
  obtains H where "kmalloc 1024 boot_heap = Inr (0xFFFFFFFFC0200010, H)"
  using kmalloc_found [OF boot_heap_rep(1), of 1024 0 "[(1024, False), (0x3FDFFBE0, True)]"]
  by (auto simp: boot_heap_rep split_chunk_def chunk_at_def)

theorem mount_of_error_pointer_witness:
  "rbind (vfs_finddir 1 demo_env (vfs_read (Suc 0) demo_env) 0x5000 [97]
       (demo_fs\<lparr>fnodes := [0x5000 \<mapsto> zero_node\<lparr>drv := DevfsDrv, flags := VFS_DIRECTORY\<rparr>, 0x6000 \<mapsto> zero_node\<lparr>flags := VFS_DIRECTORY\<rparr>]\<rparr>))
     (\<lambda>(t, s). vfs_mount demo_env (vfs_read (Suc 0) demo_env) t 0x6000 s) = Inl (BadAddr 2)"
proof -
  obtain H where H: "kmalloc 1024 boot_heap = Inr (0xFFFFFFFFC0200010, H)" by (rule demo_block)
  let ?s = "demo_fs\<lparr>fnodes := [0x5000 \<mapsto> zero_node\<lparr>drv := DevfsDrv, flags := VFS_DIRECTORY\<rparr>, 0x6000 \<mapsto> zero_node\<lparr>flags := VFS_DIRECTORY\<rparr>]\<rparr>"
  have "fheap ?s = boot_heap" "nod_cnt ?s = 0" by (simp_all add: demo_fs_def)
  moreover have "int_u64 (ENOENT demo_env) = 2" by (simp add: demo_env_def int_u64_def)
  ultimately show ?thesis
    using mount_of_error_pointer [of demo_env ?s "0xFFFFFFFFC0200010" H "[97]" "0x5000"
        "zero_node\<lparr>drv := DevfsDrv, flags := VFS_DIRECTORY\<rparr>" "0x6000" "zero_node\<lparr>flags := VFS_DIRECTORY\<rparr>" 0 0] H
    by (simp del: vfs_read.simps)
qed

end
