(* ===== verification/Syscall.thy ===== *)
theory Syscall
  imports Task Vfs
begin

text \<open>
  System calls (\<^verbatim>\<open>sys/*.c\<close>): the table, the entry code of interrupt 0x80 and the handlers. Most handlers
  are stubs that set \<^verbatim>\<open>errno\<close>, a word in the thread-local storage of the current task. The state joins
  the tasks and the file system; the open files are the blocks that the task's \<^verbatim>\<open>files\<close> point to.
\<close>

section \<open>State\<close>

record fs_open_desc =
  fd_node :: u64
  fd_offset :: u64
  fd_flags :: u64

record sys =
  procs :: sched
  fsys :: fs
  descs :: "u64 \<rightharpoonup> fs_open_desc"
  errnos :: "u64 \<Rightarrow> u32"

text \<open>The further error numbers of the C library that the handlers use.\<close>

record sys_env =
  fs_env :: env
  ENOMEM :: u32
  EAGAIN :: u32
  EMLINK :: u32
  ECHILD :: u32

text \<open>\<^verbatim>\<open>errno = e\<close>, that is \<^verbatim>\<open>*__errno_location() = e\<close>; \<open>cpu\<close> is the running processor.\<close>

definition set_errno :: "nat \<Rightarrow> u32 \<Rightarrow> sys \<Rightarrow> sys res" where
  "set_errno cpu e s = rbind (errno_location cpu (procs s)) (\<lambda>a. Inr (s\<lparr>errnos := (errnos s)(a := e)\<rparr>))"

text \<open>The pattern of the stubs: \<^verbatim>\<open>errno = e; return -1;\<close>\<close>

definition fail :: "nat \<Rightarrow> u32 \<Rightarrow> sys \<Rightarrow> (u32 \<times> sys) res" where
  "fail cpu e s = rbind (set_errno cpu e s) (\<lambda>s. Inr (-1, s))"

section \<open>Handlers\<close>

definition sys_close :: "sys_env \<Rightarrow> nat \<Rightarrow> u32 \<Rightarrow> sys \<Rightarrow> (u32 \<times> sys) res" where
  "sys_close E cpu file s = fail cpu (EBADF (fs_env E)) s"

definition sys_execve :: "sys_env \<Rightarrow> nat \<Rightarrow> u64 \<Rightarrow> u64 \<Rightarrow> u64 \<Rightarrow> sys \<Rightarrow> (u32 \<times> sys) res" where
  "sys_execve E cpu nm argv envp s = fail cpu (ENOMEM E) s"

text \<open>\<^verbatim>\<open>sys_exit\<close> stores the status and loops.\<close>

definition sys_exit :: "nat \<Rightarrow> u32 \<Rightarrow> sys \<Rightarrow> sys res" where
  "sys_exit cpu st s =
     rbind (get_curr cpu (procs s)) (\<lambda>p. rbind (task_at p (procs s)) (\<lambda>t. Inl Diverge))"

definition sys_fork :: "sys_env \<Rightarrow> nat \<Rightarrow> sys \<Rightarrow> (u32 \<times> sys) res" where
  "sys_fork E cpu s = fail cpu (EAGAIN E) s"

definition sys_fstat :: "sys_env \<Rightarrow> nat \<Rightarrow> u32 \<Rightarrow> u64 \<Rightarrow> sys \<Rightarrow> (u32 \<times> sys) res" where
  "sys_fstat E cpu file buf s = fail cpu (ENOMEM E) s"

definition sys_getpid :: "nat \<Rightarrow> sys \<Rightarrow> (u32 \<times> sys) res" where
  "sys_getpid cpu s =
     rbind (get_curr cpu (procs s)) (\<lambda>p. rbind (task_at p (procs s)) (\<lambda>t. Inr (ucast (pid t), s)))"

definition sys_isatty :: "u32 \<Rightarrow> sys \<Rightarrow> (u32 \<times> sys) res" where
  "sys_isatty file s = Inr (1, s)"

definition sys_kill :: "sys_env \<Rightarrow> nat \<Rightarrow> u32 \<Rightarrow> u32 \<Rightarrow> sys \<Rightarrow> (u32 \<times> sys) res" where
  "sys_kill E cpu pd sig s = fail cpu (EINVAL (fs_env E)) s"

definition sys_link :: "sys_env \<Rightarrow> nat \<Rightarrow> u64 \<Rightarrow> u64 \<Rightarrow> sys \<Rightarrow> (u32 \<times> sys) res" where
  "sys_link E cpu oldpath newpath s = fail cpu (EMLINK E) s"

definition sys_lseek :: "u32 \<Rightarrow> u32 \<Rightarrow> u32 \<Rightarrow> sys \<Rightarrow> (u32 \<times> sys) res" where
  "sys_lseek file off dir s = Inr (0, s)"

definition sys_open :: "sys_env \<Rightarrow> nat \<Rightarrow> u64 \<Rightarrow> u32 \<Rightarrow> u32 \<Rightarrow> sys \<Rightarrow> (u32 \<times> sys) res" where
  "sys_open E cpu nm fl mode s = fail cpu (ENOMEM E) s"

definition sys_read :: "u32 \<Rightarrow> u64 \<Rightarrow> u32 \<Rightarrow> sys \<Rightarrow> (u32 \<times> sys) res" where
  "sys_read file p len s = Inr (0, s)"

definition sys_sbrk :: "sys_env \<Rightarrow> nat \<Rightarrow> u32 \<Rightarrow> sys \<Rightarrow> (u32 \<times> sys) res" where
  "sys_sbrk E cpu incr s = fail cpu (ENOMEM E) s"

definition sys_stat :: "sys_env \<Rightarrow> nat \<Rightarrow> u64 \<Rightarrow> u64 \<Rightarrow> sys \<Rightarrow> (u32 \<times> sys) res" where
  "sys_stat E cpu file buf s = fail cpu (ENOMEM E) s"

definition sys_times :: "u64 \<Rightarrow> sys \<Rightarrow> (u32 \<times> sys) res" where
  "sys_times buf s = Inr (-1, s)"

definition sys_unlink :: "sys_env \<Rightarrow> nat \<Rightarrow> u64 \<Rightarrow> sys \<Rightarrow> (u32 \<times> sys) res" where
  "sys_unlink E cpu nm s = fail cpu (ENOENT (fs_env E)) s"

definition sys_wait :: "sys_env \<Rightarrow> nat \<Rightarrow> u64 \<Rightarrow> sys \<Rightarrow> (u32 \<times> sys) res" where
  "sys_wait E cpu st s = fail cpu (ECHILD E) s"

text \<open>
  \<^verbatim>\<open>sys_write\<close>. The test admits \<^verbatim>\<open>file == MAX_OPEN_FILES\<close>, one past the array. \<^verbatim>\<open>EBADF\<close> is returned, not stored.
\<close>

definition sys_write :: "sys_env \<Rightarrow> nat \<Rightarrow> u32 \<Rightarrow> u64 \<Rightarrow> u32 \<Rightarrow> sys \<Rightarrow> (u32 \<times> sys) res" where
  "sys_write E cpu file p len s =
     (if of_nat MAX_OPEN_FILES <s file \<or> file <s 0 then Inr (EBADF (fs_env E), s)
      else rbind (get_curr cpu (procs s)) (\<lambda>c.
           rbind (task_at c (procs s)) (\<lambda>t.
           if length (files t) \<le> unat file then Inl (Oob (sint file))
           else let f = files t ! unat file in
             if f = 0 then Inr (EBADF (fs_env E), s)
             else rbind (of_opt (BadAddr f) (descs s f)) (\<lambda>d.
                  rbind (vfs_write DEPTH (fs_env E) (fd_node d) (fd_offset d) (int_u64 len) p (fsys s)) (\<lambda>(r, f1).
                  let r = ucast r :: u32; s = s\<lparr>fsys := f1\<rparr> in
                  rbind (node_at (fd_node d) f1) (\<lambda>n.
                  if flags n AND VFS_TTY = 0 \<and> flags n AND VFS_PIPE = 0
                  then Inr (r, s\<lparr>descs := (descs s)(f \<mapsto> d\<lparr>fd_offset := fd_offset d + int_u64 r\<rparr>)\<rparr>)
                  else Inr (r, s)))))))"

section \<open>Entry\<close>

text \<open>The table \<^verbatim>\<open>syscall_fs\<close>, in its order, and its length \<^verbatim>\<open>syscall_ns\<close>.\<close>

datatype sysno = N_testcall | N_exit | N_close | N_execve | N_fork | N_fstat | N_getpid | N_isatty | N_kill | N_link
  | N_lseek | N_open | N_read | N_sbrk | N_stat | N_times | N_unlink | N_wait | N_write

definition syscall_fs :: "sysno list" where
  "syscall_fs = [N_testcall, N_exit, N_close, N_execve, N_fork, N_fstat, N_getpid, N_isatty, N_kill, N_link,
     N_lseek, N_open, N_read, N_sbrk, N_stat, N_times, N_unlink, N_wait, N_write]"

definition syscall_ns :: u64 where
  "syscall_ns = 19"

text \<open>
  The call through the table with the arguments in \<^verbatim>\<open>rdi\<close>, \<^verbatim>\<open>rsi\<close>, \<^verbatim>\<open>rdx\<close>. \<^verbatim>\<open>test_out\<close> prints with the C library and
  returns no value; \<open>junk\<close> is what \<^verbatim>\<open>rax\<close> holds then.
\<close>

definition call_entry :: "sys_env \<Rightarrow> u64 \<Rightarrow> nat \<Rightarrow> sysno \<Rightarrow> comm_regs \<Rightarrow> sys \<Rightarrow> (u64 \<times> sys) res" where
  "call_entry E junk cpu n r s =
     (let a = c_rdi r; b = c_rsi r; c = c_rdx r; i = (\<lambda>x. ucast x :: u32);
          ret = (\<lambda>q. rbind q (\<lambda>(v :: u32, s). Inr (ucast v, s)))
      in case n of
           N_testcall \<Rightarrow> Inr (junk, s)
         | N_exit \<Rightarrow> rbind (sys_exit cpu (i a) s) (\<lambda>s. Inr (junk, s))
         | N_close \<Rightarrow> ret (sys_close E cpu (i a) s)
         | N_execve \<Rightarrow> ret (sys_execve E cpu a b c s)
         | N_fork \<Rightarrow> ret (sys_fork E cpu s)
         | N_fstat \<Rightarrow> ret (sys_fstat E cpu (i a) b s)
         | N_getpid \<Rightarrow> ret (sys_getpid cpu s)
         | N_isatty \<Rightarrow> ret (sys_isatty (i a) s)
         | N_kill \<Rightarrow> ret (sys_kill E cpu (i a) (i b) s)
         | N_link \<Rightarrow> ret (sys_link E cpu a b s)
         | N_lseek \<Rightarrow> ret (sys_lseek (i a) (i b) (i c) s)
         | N_open \<Rightarrow> ret (sys_open E cpu a (i b) (i c) s)
         | N_read \<Rightarrow> ret (sys_read (i a) b (i c) s)
         | N_sbrk \<Rightarrow> ret (sys_sbrk E cpu (i a) s)
         | N_stat \<Rightarrow> ret (sys_stat E cpu a b s)
         | N_times \<Rightarrow> ret (sys_times a s)
         | N_unlink \<Rightarrow> ret (sys_unlink E cpu a s)
         | N_wait \<Rightarrow> ret (sys_wait E cpu a s)
         | N_write \<Rightarrow> ret (sys_write E cpu (i a) b (i c) s))"

text \<open>
  \<^verbatim>\<open>syscall_handler\<close>. The comparison with \<^verbatim>\<open>syscall_ns\<close> is signed. \<^verbatim>\<open>save_regs\<close> pushes \<^verbatim>\<open>rax\<close> first and \<^verbatim>\<open>r9\<close> last, so the
  \<^verbatim>\<open>xchg (%rsp), %rax\<close> after the call exchanges the value with the saved \<^verbatim>\<open>r9\<close>; \<^verbatim>\<open>rest_regs\<close> then loads \<^verbatim>\<open>rax\<close>
  as it was saved, with the address of the table entry. \<open>tab\<close> is the address of \<^verbatim>\<open>syscall_fs\<close>.
\<close>

definition syscall_handler :: "sys_env \<Rightarrow> u64 \<Rightarrow> u64 \<Rightarrow> nat \<Rightarrow> comm_regs \<Rightarrow> sys \<Rightarrow> (comm_regs \<times> sys) res" where
  "syscall_handler E tab junk cpu r s =
     (if syscall_ns \<le>s c_rax r then Inr (r, s)
      else if c_rax r <s 0 then Inl (Oob (sint (c_rax r)))
      else rbind (call_entry E junk cpu (syscall_fs ! unat (c_rax r)) r s) (\<lambda>(v, s).
             Inr (r\<lparr>c_r9 := v, c_rax := push_bit 3 (c_rax r) + tab\<rparr>, s)))"

section \<open>Writing to the terminal\<close>

lemma uint_less: "unat x < n \<Longrightarrow> uint x < int n"
  using of_nat_less_iff [of "unat x" n, where ?'a = int] by simp

lemma sint_small:
  fixes x :: u64
  assumes "unat x < 2 ^ 63"
  shows "sint x = uint x"
proof -
  have "uint x < 2 ^ 63" using uint_less [OF assms] by simp
  moreover have "- (2 ^ 63) \<le> uint x" using uint_ge_0 [of x] by (rule order.trans [rotated]) simp
  ultimately have "signed_take_bit 63 (uint x) = uint x" by (intro signed_take_bit_int_eq_self) auto
  then show ?thesis unfolding sint_uint by simp
qed

lemma sint_small32:
  fixes x :: u32
  assumes "unat x < 2 ^ 31"
  shows "sint x = uint x"
proof -
  have "uint x < 2 ^ 31" using uint_less [OF assms] by simp
  moreover have "- (2 ^ 31) \<le> uint x" using uint_ge_0 [of x] by (rule order.trans [rotated]) simp
  ultimately have "signed_take_bit 31 (uint x) = uint x" by (intro signed_take_bit_int_eq_self) auto
  then show ?thesis unfolding sint_uint by simp
qed

text \<open>
  \<^verbatim>\<open>sys_write\<close> on a file that is open on the terminal prints the \<^verbatim>\<open>len\<close> bytes of the buffer on the
  screen, one after another as the console prints characters, and returns \<^verbatim>\<open>len\<close>; the offset of the
  file and everything else stay as they are.
\<close>

lemma sys_write_prints:
  assumes "cpu < length (curr (procs s))" and "tasks (procs s) (curr (procs s) ! cpu) = Some t"
    and "length (files t) = MAX_OPEN_FILES" and "unat file < MAX_OPEN_FILES" and "files t ! unat file = f" and "f \<noteq> 0"
    and "descs s f = Some d" and "fd_offset d = 0" and "fd_node d \<noteq> 0"
    and "fnodes (fsys s) (fd_node d) = Some n" and "drv n = TtyDrv" and "flags n AND VFS_TTY \<noteq> 0"
    and "ktty_ok (console (fsys s))" and "0 < unat len" and "unat len < 2 ^ 31"
  shows "\<exists>t'. sys_write E cpu file p len s = Inr (len, s\<lparr>fsys := (fsys s)\<lparr>console := t'\<rparr>\<rparr>) \<and> ktty_ok t'
    \<and> view t' = fold (print_char (ktty_attribute (console (fsys s)))) (load p (unat len) (ram (fsys s))) (view (console (fsys s)))"
proof -
  obtain t' where t': "putc_loop (load p (unat len) (ram (fsys s))) (console (fsys s)) = Inr t'" "ktty_ok t'"
    "view t' = fold (print_char (ktty_attribute (console (fsys s)))) (load p (unat len) (ram (fsys s))) (view (console (fsys s)))"
    using putc_loop_prints [OF assms(13)] by blast
  have i: "int_u64 len = ucast len" "unat (int_u64 len) = unat len" using int_u64_blk [OF assms(15)] by auto
  have nz: "int_u64 len \<noteq> 0" using i(2) assms(14) by (metis less_irrefl unat_0)
  have w: "vfs_write DEPTH (fs_env E) (fd_node d) (fd_offset d) (int_u64 len) p (fsys s) =
      Inr (int_u64 len, (fsys s)\<lparr>console := t'\<rparr>)"
  proof -
    have "DEPTH = Suc (MAXNODES + 1)" by (simp add: DEPTH_def)
    then show ?thesis using assms(8-11) t'(1) i(2) nz unfolding \<open>DEPTH = _\<close> by (simp add: node_at_def tty_write_def)
  qed
  have uf: "unat file < 16" using assms(4) by (simp add: MAX_OPEN_FILES_def)
  have sf: "sint file = uint file" by (rule sint_small32) (use uf in simp)
  have uf': "uint file < 16" "0 \<le> uint file" using uint_less [OF uf] by simp_all
  have "\<not> of_nat MAX_OPEN_FILES <s file" "\<not> file <s 0"
    using sf uf' by (simp_all add: word_sless_alt MAX_OPEN_FILES_def)
  moreover have "(ucast (ucast len :: u64) :: u32) = len" by (rule bit_word_eqI) (auto simp: bit_simps)
  ultimately have "sys_write E cpu file p len s = Inr (len, s\<lparr>fsys := (fsys s)\<lparr>console := t'\<rparr>\<rparr>)"
    using assms(1-7,10,12) w i(1)
    by (simp add: sys_write_def get_curr_def task_at_def node_at_def Let_def)
  then show ?thesis using t'(2,3) by blast
qed

text \<open>
  The value of a system call does not reach \<^verbatim>\<open>rax\<close>: after a handler has returned, \<^verbatim>\<open>r9\<close> holds the value and
  \<^verbatim>\<open>rax\<close> the address of the handler's entry in the table.
\<close>

lemma syscall_value_in_r9:
  assumes "unat (c_rax r) < 19" and "call_entry E junk cpu (syscall_fs ! unat (c_rax r)) r s = Inr (v, s')"
  shows "syscall_handler E tab junk cpu r s = Inr (r\<lparr>c_r9 := v, c_rax := 8 * c_rax r + tab\<rparr>, s')"
proof -
  have "sint (c_rax r) = uint (c_rax r)"
    by (rule sint_small) (use assms(1) in simp)
  moreover have "uint (c_rax r) < 19" using uint_less [OF assms(1)] by simp
  ultimately have "\<not> syscall_ns \<le>s c_rax r" "\<not> c_rax r <s 0"
    using assms(1) by (simp_all add: word_sle_eq word_sless_alt syscall_ns_def)
  moreover have "push_bit 3 (c_rax r) = 8 * c_rax r" by (simp add: push_bit_eq_mult)
  ultimately show ?thesis using assms(2) by (simp add: syscall_handler_def)
qed

text \<open>A call of \<^verbatim>\<open>write\<close> on a terminal, by a task with one open file.\<close>

definition demo_sys :: sys where
  "demo_sys = \<lparr>procs = demo_sched\<lparr>tasks := [0x1000 \<mapsto> (demo_task 0x1000 1)\<lparr>files := [0x7000, 0, 0, 0, 0, 0, 0, 0, 0, 0, 0, 0, 0, 0, 0, 0]\<rparr>]\<rparr>,
     fsys = demo_fs\<lparr>fnodes := [0x8000 \<mapsto> zero_node\<lparr>drv := TtyDrv, flags := VFS_CHARDEV OR VFS_TTY\<rparr>],
        ram := store 0x9000 [72, 105, 10] (\<lambda>_. 0)\<rparr>,
     descs = [0x7000 \<mapsto> \<lparr>fd_node = 0x8000, fd_offset = 0, fd_flags = 0\<rparr>], errnos = (\<lambda>_. 0)\<rparr>"

definition demo_senv :: sys_env where
  "demo_senv = \<lparr>fs_env = demo_env, ENOMEM = 12, EAGAIN = 11, EMLINK = 31, ECHILD = 10\<rparr>"

lemma load_three: "load a 3 m = [m a, m (a + 1), m (a + 2)]"
  by (simp add: load_def numeral_3_eq_3)

lemma sys_write_prints_witness:
  "\<exists>t'. sys_write demo_senv 0 0 0x9000 3 demo_sys = Inr (3, demo_sys\<lparr>fsys := (fsys demo_sys)\<lparr>console := t'\<rparr>\<rparr>)
     \<and> unat (screen_pos t') = 80"
proof -
  let ?t = "(demo_task 0x1000 1)\<lparr>files := [0x7000, 0, 0, 0, 0, 0, 0, 0, 0, 0, 0, 0, 0, 0, 0, 0]\<rparr>"
  let ?n = "zero_node\<lparr>drv := TtyDrv, flags := VFS_CHARDEV OR VFS_TTY\<rparr>"
  let ?d = "\<lparr>fd_node = 0x8000, fd_offset = 0, fd_flags = 0\<rparr> :: fs_open_desc"
  have s: "length (curr (procs demo_sys)) = 16" "curr (procs demo_sys) ! 0 = 0x1000"
    "tasks (procs demo_sys) 0x1000 = Some ?t" "descs demo_sys 0x7000 = Some ?d"
    "fnodes (fsys demo_sys) 0x8000 = Some ?n" "console (fsys demo_sys) = demo_ktty"
    by (simp_all add: demo_sys_def demo_sched_def demo_fs_def)
  have l: "load 0x9000 3 (ram (fsys demo_sys)) = [72, 105, 10]"
    by (simp add: load_three demo_sys_def store_def)
  obtain t' where "sys_write demo_senv 0 0 0x9000 3 demo_sys = Inr (3, demo_sys\<lparr>fsys := (fsys demo_sys)\<lparr>console := t'\<rparr>\<rparr>)"
    "view t' = fold (print_char (ktty_attribute demo_ktty)) [72, 105, 10] (view demo_ktty)"
    using sys_write_prints [of 0 demo_sys ?t 0 "0x7000" ?d ?n 3 demo_senv "0x9000"] s demo_ktty_ok l
    by (auto simp: MAX_OPEN_FILES_def vfs_flags)
  then show ?thesis by (auto simp: view_def print_char_def scroll_def demo_ktty_def)
qed

lemma syscall_value_in_r9_witness:
  "syscall_handler demo_senv 0x200000 0 0 (r_c zero_regs\<lparr>c_rax := 6\<rparr>) demo_sys
     = Inr (r_c zero_regs\<lparr>c_r9 := 1, c_rax := 0x200030\<rparr>, demo_sys)"
proof -
  let ?r = "r_c zero_regs\<lparr>c_rax := 6\<rparr>"
  have "call_entry demo_senv 0 0 (syscall_fs ! unat (c_rax ?r)) ?r demo_sys = Inr (1, demo_sys)"
    by (simp add: call_entry_def syscall_fs_def sys_getpid_def get_curr_def task_at_def demo_sys_def demo_sched_def demo_task_def)
  then show ?thesis
    using syscall_value_in_r9 [of ?r demo_senv 0 0 demo_sys 1 demo_sys "0x200000"] by simp
qed

end
