(* ===== verification/Elf.thy ===== *)
theory Elf
  imports Syscall
begin

text \<open>
  Programs (\<^verbatim>\<open>elf/elf.c\<close>, \<^verbatim>\<open>elf/elf.h\<close>, \<^verbatim>\<open>elf/start.c\<close>): the checks on a file in the ELF format, its sections and
  segments, relocations, loading, and the start of the loaded program as the current task. The file is
  in memory at \<open>hdr\<close>; every structure is read from memory when the code reads it. Two functions of the
  source have an empty body and their value is what the register happens to hold: it is a parameter, as
  are the code that a relocation may call and the contents of fresh pages.
\<close>

section \<open>Structures\<close>

record Elf64_Ehdr =
  e_ident :: "u8 list"
  e_type :: u16
  e_machine :: u16
  e_version :: u32
  e_entry :: u64
  e_phoff :: u64
  e_shoff :: u64
  e_flags :: u32
  e_ehsize :: u16
  e_phentsize :: u16
  e_phnum :: u16
  e_shentsize :: u16
  e_shnum :: u16
  e_shstrndx :: u16

definition Elf64_Ehdr_of :: "(u64 \<Rightarrow> u8) \<Rightarrow> u64 \<Rightarrow> Elf64_Ehdr" where
  "Elf64_Ehdr_of m a =
     \<lparr>e_ident = load a 16 m, e_type = get16 m (a + 16), e_machine = get16 m (a + 18), e_version = get32 m (a + 20),
      e_entry = get64 m (a + 24), e_phoff = get64 m (a + 32), e_shoff = get64 m (a + 40), e_flags = get32 m (a + 48),
      e_ehsize = get16 m (a + 52), e_phentsize = get16 m (a + 54), e_phnum = get16 m (a + 56),
      e_shentsize = get16 m (a + 58), e_shnum = get16 m (a + 60), e_shstrndx = get16 m (a + 62)\<rparr>"

record Elf64_Shdr =
  sh_name :: u32
  sh_type :: u32
  sh_flags :: u64
  sh_addr :: u64
  sh_offset :: u64
  sh_size :: u64
  sh_link :: u32
  sh_info :: u32
  sh_addralign :: u64
  sh_entsize :: u64

definition Elf64_Shdr_of :: "(u64 \<Rightarrow> u8) \<Rightarrow> u64 \<Rightarrow> Elf64_Shdr" where
  "Elf64_Shdr_of m a =
     \<lparr>sh_name = get32 m a, sh_type = get32 m (a + 4), sh_flags = get64 m (a + 8), sh_addr = get64 m (a + 16),
      sh_offset = get64 m (a + 24), sh_size = get64 m (a + 32), sh_link = get32 m (a + 40), sh_info = get32 m (a + 44),
      sh_addralign = get64 m (a + 48), sh_entsize = get64 m (a + 56)\<rparr>"

record Elf64_Rela =
  r_offset :: u64
  r_info :: u64
  r_addend :: u64

definition Elf64_Rela_of :: "(u64 \<Rightarrow> u8) \<Rightarrow> u64 \<Rightarrow> Elf64_Rela" where
  "Elf64_Rela_of m a = \<lparr>r_offset = get64 m a, r_info = get64 m (a + 8), r_addend = get64 m (a + 16)\<rparr>"

record Elf64_Phdr =
  p_type :: u32
  p_flags :: u32
  p_offset :: u64
  p_vaddr :: u64
  p_paddr :: u64
  p_filesz :: u64
  p_memsz :: u64
  p_align :: u64

definition Elf64_Phdr_of :: "(u64 \<Rightarrow> u8) \<Rightarrow> u64 \<Rightarrow> Elf64_Phdr" where
  "Elf64_Phdr_of m a =
     \<lparr>p_type = get32 m a, p_flags = get32 m (a + 4), p_offset = get64 m (a + 8), p_vaddr = get64 m (a + 16),
      p_paddr = get64 m (a + 24), p_filesz = get64 m (a + 32), p_memsz = get64 m (a + 40), p_align = get64 m (a + 48)\<rparr>"

abbreviation SIZEOF_Shdr :: u64 where "SIZEOF_Shdr \<equiv> 64"
abbreviation SIZEOF_Phdr :: u64 where "SIZEOF_Phdr \<equiv> 56"
abbreviation SIZEOF_Rel :: u64 where "SIZEOF_Rel \<equiv> 16"
abbreviation SIZEOF_Rela :: u64 where "SIZEOF_Rela \<equiv> 24"

definition EI_CLASS :: nat where "EI_CLASS = 4"
definition EI_DATA :: nat where "EI_DATA = 5"
definition EI_VERSION :: nat where "EI_VERSION = 6"
definition ELFMAG :: "u8 list" where "ELFMAG = [0x7F, 0x45, 0x4C, 0x46]"
definition SELFMAG :: nat where "SELFMAG = 4"
definition ELFDATA2LSB :: u8 where "ELFDATA2LSB = 1"
definition ELFCLASS64 :: u8 where "ELFCLASS64 = 2"
definition EV_CURRENT :: nat where "EV_CURRENT = 1"
definition EM_AMD64 :: u16 where "EM_AMD64 = 62"
definition ET_REL :: u16 where "ET_REL = 1"
definition ET_EXEC :: u16 where "ET_EXEC = 2"
definition SHN_UNDEF :: nat where "SHN_UNDEF = 0"
definition SHT_RELA :: u32 where "SHT_RELA = 4"
definition SHT_REL :: u32 where "SHT_REL = 9"
definition PT_LOAD :: u32 where "PT_LOAD = 1"
definition R_AMD64_NONE :: u64 where "R_AMD64_NONE = 0"
definition R_AMD64_64 :: u64 where "R_AMD64_64 = 1"
definition R_AMD64_PC32 :: u64 where "R_AMD64_PC32 = 2"
definition R_AMD64_RELATIVE :: u64 where "R_AMD64_RELATIVE = 8"
definition R_X86_64_IRELATIVE :: u64 where "R_X86_64_IRELATIVE = 37"
definition ELF_LOAD_ERR :: u32 where "ELF_LOAD_ERR = -1"
definition ELF_REL_ERR :: u32 where "ELF_REL_ERR = -2"

definition ELF64_R_SYM :: "u64 \<Rightarrow> u64" where "ELF64_R_SYM i = drop_bit 32 i"
definition ELF64_R_TYPE :: "u64 \<Rightarrow> u64" where "ELF64_R_TYPE i = i AND 0xFFFFFFFF"
definition DO_AMD64_64 :: "u64 \<Rightarrow> u64 \<Rightarrow> u64" where "DO_AMD64_64 S A = S + A"
definition DO_AMD64_PC32 :: "u64 \<Rightarrow> u64 \<Rightarrow> u64 \<Rightarrow> u64" where "DO_AMD64_PC32 S A P = (S + A - P) AND 0xFFFFFFFF"
definition DO_AMD64_RELATIVE :: "u64 \<Rightarrow> u64 \<Rightarrow> u64" where "DO_AMD64_RELATIVE B A = B + A"

lemmas elf_idents = EI_CLASS_def EI_DATA_def EI_VERSION_def ELFMAG_def SELFMAG_def ELFDATA2LSB_def ELFCLASS64_def
  EV_CURRENT_def EM_AMD64_def
lemmas elf_types = ET_REL_def ET_EXEC_def
lemmas reloc_types = R_AMD64_NONE_def R_AMD64_64_def R_AMD64_PC32_def R_AMD64_RELATIVE_def R_X86_64_IRELATIVE_def

section \<open>Memory and console\<close>

text \<open>
  What the code leaves open: the values of the two empty functions, what the code that an indirect
  relocation calls does, and the bytes of pages that are mapped to fresh frames.
\<close>

record elf_env =
  undef_symval :: "u64 \<Rightarrow> u32 \<Rightarrow> u32 \<Rightarrow> u64"
  undef_stage1 :: "u64 \<Rightarrow> u32"
  ifunc :: "u64 \<Rightarrow> sys \<Rightarrow> (u64 \<times> sys) res"
  fresh_bytes :: "u64 \<Rightarrow> u8"

definition con_puts :: "string \<Rightarrow> sys \<Rightarrow> sys res" where
  "con_puts msg s =
     rbind (ktty_puts (map of_char msg @ [0]) (console (fsys s))) (\<lambda>t. Inr (s\<lparr>fsys := (fsys s)\<lparr>console := t\<rparr>\<rparr>))"

definition reject :: "string \<Rightarrow> 'a \<Rightarrow> sys \<Rightarrow> ('a \<times> sys) res" where
  "reject msg r s = rbind (con_puts msg s) (\<lambda>s. Inr (r, s))"

definition set_ram :: "(u64 \<Rightarrow> u8) \<Rightarrow> sys \<Rightarrow> sys" where
  "set_ram m s = s\<lparr>fsys := (fsys s)\<lparr>ram := m\<rparr>\<rparr>"

definition poke :: "u64 \<Rightarrow> u8 list \<Rightarrow> sys \<Rightarrow> sys res" where
  "poke a bs s = (if a < 4096 then Inl (BadAddr a) else Inr (set_ram (store a bs (ram (fsys s))) s))"

definition bytes64 :: "u64 \<Rightarrow> u8 list" where
  "bytes64 w = map (\<lambda>k. ucast (drop_bit (8 * k) w)) [0..<8]"

definition bytes32 :: "u32 \<Rightarrow> u8 list" where
  "bytes32 w = map (\<lambda>k. ucast (drop_bit (8 * k) w)) [0..<4]"

definition memset0 :: "u64 \<Rightarrow> u64 \<Rightarrow> (u64 \<Rightarrow> u8) \<Rightarrow> (u64 \<Rightarrow> u8) res" where
  "memset0 dst n m = (if unat n < 2 ^ 63 then Inr (store dst (replicate (unat n) 0) m) else Inl (BadAddr dst))"

section \<open>Checks\<close>

definition elf64_check_magic :: "u64 \<Rightarrow> sys \<Rightarrow> (u32 \<times> sys) res" where
  "elf64_check_magic hdr s =
     (if hdr = 0 then Inr (0, s)
      else rbind (deref Elf64_Ehdr_of hdr (fsys s)) (\<lambda>h.
        if take SELFMAG (e_ident h) \<noteq> ELFMAG then reject ''ELF header magic incorrect!'' 0 s else Inr (1, s)))"

definition elf64_is_supported :: "u64 \<Rightarrow> sys \<Rightarrow> (u32 \<times> sys) res" where
  "elf64_is_supported hdr s =
     rbind (elf64_check_magic hdr s) (\<lambda>(r, s).
       if r = 0 then reject ''File isn't an ELF'' 0 s
       else rbind (deref Elf64_Ehdr_of hdr (fsys s)) (\<lambda>h.
         if e_ident h ! EI_CLASS \<noteq> ELFCLASS64 then reject ''ELF file has unsupported class'' 0 s
         else if e_ident h ! EI_DATA \<noteq> ELFDATA2LSB then reject ''ELF file has unsupported byte order'' 0 s
         else if e_machine h \<noteq> EM_AMD64 then reject ''ELF file has unsupported architecture'' 0 s
         else if e_version h \<noteq> of_nat EV_CURRENT \<or> e_ident h ! EI_VERSION \<noteq> of_nat EV_CURRENT
         then reject ''ELF file has unsupported version'' 0 s
         else if e_type h \<noteq> ET_EXEC \<and> e_type h \<noteq> ET_REL then reject ''ELF file has unsupported type'' 0 s
         else Inr (1, s)))"

section \<open>Tables of the file\<close>

definition elf64_sheader :: "u64 \<Rightarrow> sys \<Rightarrow> u64 res" where
  "elf64_sheader hdr s = rbind (deref Elf64_Ehdr_of hdr (fsys s)) (\<lambda>h. Inr (hdr + e_shoff h))"

definition elf64_pheader :: "u64 \<Rightarrow> sys \<Rightarrow> u64 res" where
  "elf64_pheader hdr s = rbind (deref Elf64_Ehdr_of hdr (fsys s)) (\<lambda>h. Inr (hdr + e_phoff h))"

text \<open>The index is an \<^verbatim>\<open>int\<close>: negative ones pass the test.\<close>

definition elf64_section :: "u64 \<Rightarrow> u32 \<Rightarrow> sys \<Rightarrow> u64 res" where
  "elf64_section hdr idx s =
     rbind (deref Elf64_Ehdr_of hdr (fsys s)) (\<lambda>h.
       if ucast (e_shnum h) \<le>s idx then Inr 0
       else rbind (elf64_sheader hdr s) (\<lambda>sh. Inr (sh + SIZEOF_Shdr * int_u64 idx)))"

definition elf64_str_table :: "u64 \<Rightarrow> sys \<Rightarrow> u64 res" where
  "elf64_str_table hdr s =
     rbind (deref Elf64_Ehdr_of hdr (fsys s)) (\<lambda>h.
       if e_shstrndx h = of_nat SHN_UNDEF then Inr 0
       else rbind (elf64_section hdr (ucast (e_shstrndx h)) s) (\<lambda>p.
            rbind (deref Elf64_Shdr_of p (fsys s)) (\<lambda>sc. Inr (hdr + sh_offset sc))))"

definition elf64_find_string :: "u64 \<Rightarrow> u32 \<Rightarrow> sys \<Rightarrow> u64 res" where
  "elf64_find_string hdr off s =
     rbind (elf64_str_table hdr s) (\<lambda>t. if t = 0 then Inr 0 else Inr (t + int_u64 off))"

definition elf64_get_symval :: "elf_env \<Rightarrow> u64 \<Rightarrow> u32 \<Rightarrow> u32 \<Rightarrow> u64" where
  "elf64_get_symval L hdr tab idx = undef_symval L hdr tab idx"

text \<open>The search for the first loadable segment; the base address is returned as an \<^verbatim>\<open>int\<close>.\<close>

fun base_search :: "u64 \<Rightarrow> nat list \<Rightarrow> sys \<Rightarrow> u32 res" where
  "base_search phdr [] s = Inr 0"
| "base_search phdr (i # is) s =
     rbind (deref Elf64_Phdr_of (phdr + SIZEOF_Phdr * of_nat i) (fsys s)) (\<lambda>p.
       if p_type p = PT_LOAD then Inr (ucast (p_vaddr p AND NOT 0xFFF)) else base_search phdr is s)"

definition elf64_get_baseaddr :: "u64 \<Rightarrow> sys \<Rightarrow> u32 res" where
  "elf64_get_baseaddr hdr s =
     rbind (deref Elf64_Ehdr_of hdr (fsys s)) (\<lambda>h.
       if e_type h \<noteq> ET_EXEC then Inr 0
       else rbind (elf64_pheader hdr s) (\<lambda>phdr. base_search phdr [0..<unat (e_phnum h)] s))"

section \<open>Relocations\<close>

text \<open>The place a relocation changes.\<close>

definition rela_ref :: "u64 \<Rightarrow> Elf64_Ehdr \<Rightarrow> Elf64_Shdr \<Rightarrow> Elf64_Rela \<Rightarrow> u64" where
  "rela_ref hdr h target rel =
     (if e_type h = ET_REL then hdr + sh_offset target + r_offset rel else r_offset rel)"

definition rela_apply :: "elf_env \<Rightarrow> u64 \<Rightarrow> u64 \<Rightarrow> u64 \<Rightarrow> u64 \<Rightarrow> u64 \<Rightarrow> sys \<Rightarrow> (u32 \<times> sys) res" where
  "rela_apply L hdr ty ref addend symval s =
     (let ret = (\<lambda>s. Inr (ucast symval, s)) in
      if ty = R_AMD64_NONE then ret s
      else if ty = R_AMD64_64 then rbind (poke ref (bytes64 (DO_AMD64_64 symval addend)) s) ret
      else if ty = R_AMD64_PC32 then rbind (poke ref (bytes32 (ucast (DO_AMD64_PC32 symval addend ref))) s) ret
      else if ty = R_AMD64_RELATIVE
      then rbind (elf64_get_baseaddr hdr s) (\<lambda>b. rbind (poke ref (bytes64 (DO_AMD64_RELATIVE (int_u64 b) addend)) s) ret)
      else if ty = R_X86_64_IRELATIVE
      then rbind (ifunc L addend s) (\<lambda>(v, s). rbind (poke ref (bytes64 v) s) ret)
      else reject ''Unsupported relocation type'' ELF_REL_ERR s)"

definition elf64_do_rela :: "elf_env \<Rightarrow> u64 \<Rightarrow> u64 \<Rightarrow> u64 \<Rightarrow> sys \<Rightarrow> (u32 \<times> sys) res" where
  "elf64_do_rela L hdr rel reltab s =
     rbind (deref Elf64_Shdr_of reltab (fsys s)) (\<lambda>rt.
     rbind (elf64_section hdr (sh_info rt) s) (\<lambda>target.
     rbind (deref Elf64_Shdr_of target (fsys s)) (\<lambda>tg.
     rbind (deref Elf64_Ehdr_of hdr (fsys s)) (\<lambda>h.
     rbind (deref Elf64_Rela_of rel (fsys s)) (\<lambda>r.
       let ref = rela_ref hdr h tg r in
       rbind (if sh_type rt = SHT_REL then deref get64 ref (fsys s) else Inr (r_addend r)) (\<lambda>addend.
         if ELF64_R_SYM (r_info r) \<noteq> of_nat SHN_UNDEF
         then let symval = elf64_get_symval L hdr (sh_link rt) (ucast (ELF64_R_SYM (r_info r)))
              in if symval = int_u64 ELF_REL_ERR then Inr (ELF_REL_ERR, s)
                 else rela_apply L hdr (ELF64_R_TYPE (r_info r)) ref addend symval s
         else rela_apply L hdr (ELF64_R_TYPE (r_info r)) ref addend 0 s))))))"

definition elf64_get_rela :: "u64 \<Rightarrow> u64 \<Rightarrow> u32 \<Rightarrow> sys \<Rightarrow> u64 res" where
  "elf64_get_rela hdr section idx s =
     rbind (deref Elf64_Shdr_of section (fsys s)) (\<lambda>sc.
       Inr (hdr + sh_offset sc + (if sh_type sc = SHT_REL then SIZEOF_Rel else SIZEOF_Rela) * ucast idx))"

section \<open>Loading\<close>

definition elf64_load_stage1 :: "elf_env \<Rightarrow> u64 \<Rightarrow> u32" where
  "elf64_load_stage1 L hdr = undef_stage1 L hdr"

text \<open>
  The loops of \<^verbatim>\<open>elf64_load_stage2\<close> over the relocations of a section (the value says whether all could be
  done) and over the sections; \<open>None\<close> if they are never left.
\<close>

partial_function (option) rela_loop :: "elf_env \<Rightarrow> u64 \<Rightarrow> u64 \<Rightarrow> u32 \<Rightarrow> sys \<Rightarrow> (bool \<times> sys) res option" where
  "rela_loop L hdr section idx s =
     (case deref Elf64_Shdr_of section (fsys s) of
        Inl e \<Rightarrow> Some (Inl e)
      | Inr sc \<Rightarrow>
          if sh_entsize sc = 0 then Some (Inl DivZero)
          else if ucast idx < sh_size sc div sh_entsize sc
          then (case rbind (elf64_get_rela hdr section idx s) (\<lambda>r. elf64_do_rela L hdr r section s) of
                  Inl e \<Rightarrow> Some (Inl e)
                | Inr rs \<Rightarrow> if fst rs = ELF_REL_ERR then Some (Inr (False, snd rs))
                           else rela_loop L hdr section (idx + 1) (snd rs))
          else Some (Inr (True, s)))"

partial_function (option) section_loop :: "elf_env \<Rightarrow> u64 \<Rightarrow> u64 \<Rightarrow> u32 \<Rightarrow> sys \<Rightarrow> (u32 \<times> sys) res option" where
  "section_loop L hdr shdr i s =
     (case deref Elf64_Ehdr_of hdr (fsys s) of
        Inl e \<Rightarrow> Some (Inl e)
      | Inr h \<Rightarrow>
          if i < ucast (e_shnum h)
          then (case deref Elf64_Shdr_of (shdr + SIZEOF_Shdr * ucast i) (fsys s) of
                  Inl e \<Rightarrow> Some (Inl e)
                | Inr sc \<Rightarrow>
                    if sh_type sc = SHT_REL \<or> sh_type sc = SHT_RELA
                    then (case of_loop (rela_loop L hdr (shdr + SIZEOF_Shdr * ucast i) 0 s) of
                            Inl e \<Rightarrow> Some (Inl e)
                          | Inr rs \<Rightarrow> if fst rs then section_loop L hdr shdr (i + 1) (snd rs)
                                     else Some (reject ''Failed to relocate symbol'' ELF_LOAD_ERR (snd rs)))
                    else (case con_puts ''Unsupported symbol type'' s of
                            Inl e \<Rightarrow> Some (Inl e)
                          | Inr s' \<Rightarrow> section_loop L hdr shdr (i + 1) s'))
          else Some (Inr (0, s)))"

definition elf64_load_stage2 :: "elf_env \<Rightarrow> u64 \<Rightarrow> sys \<Rightarrow> (u32 \<times> sys) res" where
  "elf64_load_stage2 L hdr s = rbind (elf64_sheader hdr s) (\<lambda>shdr. of_loop (section_loop L hdr shdr 0 s))"

text \<open>
  One loadable segment: its pages are mapped to fresh frames, cleared and filled from the file. \<open>seg\<close> is
  the address of its header, which is read again after the pages have been cleared.
\<close>

definition remapped :: "elf_env \<Rightarrow> u64 \<Rightarrow> u64 \<Rightarrow> (u64 \<Rightarrow> u8) \<Rightarrow> u64 \<Rightarrow> u8" where
  "remapped L base sz m = (\<lambda>x. if unat (x - base) < 4096 * ((unat sz + 4095) div 4096) then fresh_bytes L x else m x)"

definition user_pages :: "elf_env \<Rightarrow> u64 \<Rightarrow> u64 \<Rightarrow> sys \<Rightarrow> sys res" where
  "user_pages L base sz s =
     rbind (in_vm (alloc_pages_user base sz) (procs s)) (\<lambda>ps.
       Inr (set_ram (remapped L base sz (ram (fsys s))) (s\<lparr>procs := ps\<rparr>)))"

definition load_segment :: "elf_env \<Rightarrow> u64 \<Rightarrow> u64 \<Rightarrow> sys \<Rightarrow> sys res" where
  "load_segment L hdr seg s =
     rbind (deref Elf64_Phdr_of seg (fsys s)) (\<lambda>p.
     rbind (user_pages L (p_vaddr p AND NOT 0xFFF) (p_memsz p + (p_vaddr p AND 0xFFF)) s) (\<lambda>s.
     rbind (deref Elf64_Phdr_of seg (fsys s)) (\<lambda>p.
     rbind (memset0 (p_vaddr p) (p_memsz p) (ram (fsys s))) (\<lambda>m.
       let addr = p_vaddr p; s = set_ram m s in
     rbind (deref Elf64_Phdr_of seg (fsys s)) (\<lambda>p.
     rbind (memcpy addr (hdr + p_offset p) (p_filesz p) (ram (fsys s))) (\<lambda>m. Inr (set_ram m s)))))))"

partial_function (option) segment_loop :: "elf_env \<Rightarrow> u64 \<Rightarrow> u64 \<Rightarrow> u32 \<Rightarrow> sys \<Rightarrow> (u32 \<times> sys) res option" where
  "segment_loop L hdr phdr i s =
     (case deref Elf64_Ehdr_of hdr (fsys s) of
        Inl e \<Rightarrow> Some (Inl e)
      | Inr h \<Rightarrow>
          if i < ucast (e_phnum h)
          then (case deref Elf64_Phdr_of (phdr + SIZEOF_Phdr * ucast i) (fsys s) of
                  Inl e \<Rightarrow> Some (Inl e)
                | Inr p \<Rightarrow>
                    (case (if p_type p = PT_LOAD then load_segment L hdr (phdr + SIZEOF_Phdr * ucast i) s else Inr s) of
                       Inl e \<Rightarrow> Some (Inl e)
                     | Inr s' \<Rightarrow> segment_loop L hdr phdr (i + 1) s'))
          else Some (Inr (0, s)))"

definition elf64_load_stage3 :: "elf_env \<Rightarrow> u64 \<Rightarrow> sys \<Rightarrow> (u32 \<times> sys) res" where
  "elf64_load_stage3 L hdr s = rbind (elf64_pheader hdr s) (\<lambda>phdr. of_loop (segment_loop L hdr phdr 0 s))"

definition entry_of :: "u64 \<Rightarrow> sys \<Rightarrow> (u64 \<times> sys) res" where
  "entry_of hdr s = rbind (deref Elf64_Ehdr_of hdr (fsys s)) (\<lambda>h. Inr (e_entry h, s))"

definition elf64_load_rel :: "elf_env \<Rightarrow> u64 \<Rightarrow> sys \<Rightarrow> (u64 \<times> sys) res" where
  "elf64_load_rel L hdr s =
     (if elf64_load_stage1 L hdr = ELF_LOAD_ERR then reject ''Loading REL file failed at Stage 1'' 0 s
      else rbind (elf64_load_stage2 L hdr s) (\<lambda>(r, s).
        if r = ELF_LOAD_ERR then reject ''Loading REL file failed at Stage 2'' 0 s else entry_of hdr s))"

definition elf64_load_exec :: "elf_env \<Rightarrow> u64 \<Rightarrow> sys \<Rightarrow> (u64 \<times> sys) res" where
  "elf64_load_exec L hdr s =
     rbind (elf64_load_stage3 L hdr s) (\<lambda>(r, s).
       if r = ELF_LOAD_ERR then reject ''Loading EXEC file failed at Stage 3'' 0 s
       else rbind (elf64_load_stage2 L hdr s) (\<lambda>(r, s).
         if r = ELF_LOAD_ERR then reject ''Loading EXEC file failed at Stage 2'' 0 s else entry_of hdr s))"

definition elf64_load_file :: "elf_env \<Rightarrow> u64 \<Rightarrow> sys \<Rightarrow> (u64 \<times> sys) res" where
  "elf64_load_file L hdr s =
     rbind (elf64_is_supported hdr s) (\<lambda>(ok, s).
       if ok = 0 then reject ''File can't be loaded'' 0 s
       else rbind (deref Elf64_Ehdr_of hdr (fsys s)) (\<lambda>h.
         if e_type h = ET_EXEC then elf64_load_exec L hdr s
         else if e_type h = ET_REL then elf64_load_rel L hdr s
         else Inr (0, s)))"

section \<open>Starting a program\<close>

abbreviation SIZEOF_DESC :: u64 where "SIZEOF_DESC \<equiv> 24"

text \<open>
  A block of the kernel heap, which the tasks and the file systems share.
\<close>

definition sys_kmalloc :: "u64 \<Rightarrow> sys \<Rightarrow> (u64 \<times> sys) res" where
  "sys_kmalloc n s =
     rbind (kmalloc n (kheap (svm (procs s)))) (\<lambda>(p, H).
       Inr (p, s\<lparr>procs := (procs s)\<lparr>svm := (svm (procs s))\<lparr>kheap := H\<rparr>\<rparr>, fsys := (fsys s)\<lparr>fheap := H\<rparr>\<rparr>))"

definition upd_curr :: "nat \<Rightarrow> (task \<Rightarrow> task) \<Rightarrow> sys \<Rightarrow> sys res" where
  "upd_curr cpu f s =
     rbind (get_curr cpu (procs s)) (\<lambda>p. rbind (task_at p (procs s)) (\<lambda>t. Inr (s\<lparr>procs := put_task p (f t) (procs s)\<rparr>)))"

definition user_selector :: "u64 \<Rightarrow> u64" where
  "user_selector n = CALC_SELECTOR n 3"

text \<open>The registers with which the program starts, but for its stack and the field \<^verbatim>\<open>rflags\<close>, which is kept.\<close>

definition start_regs :: "u64 \<Rightarrow> all_regs \<Rightarrow> all_regs" where
  "start_regs entry r = r\<lparr>r_c := r_c zero_regs, r_i := (r_i r)\<lparr>i_rip := entry, i_cs := user_selector 3\<rparr>\<rparr>"

definition stdio_files :: "u64 \<Rightarrow> task \<Rightarrow> task" where
  "stdio_files d t = t\<lparr>files := (files t)[0 := d, 1 := d, 2 := d]\<rparr>"

definition start_task :: "elf_env \<Rightarrow> nat \<Rightarrow> u64 \<Rightarrow> u64 \<Rightarrow> sys \<Rightarrow> sys res" where
  "start_task L cpu tty entry s =
     rbind (in_vm irq_off (procs s)) (\<lambda>ps.
     rbind (upd_curr cpu (\<lambda>t. t\<lparr>state := TASK_STARTING, regs := start_regs entry (regs t)\<rparr>) (s\<lparr>procs := ps\<rparr>)) (\<lambda>s.
     rbind (user_pages L 0x100000000 0x2000 s) (\<lambda>s.
     rbind (upd_curr cpu (\<lambda>t. t\<lparr>regs := (regs t)\<lparr>r_i := (r_i (regs t))\<lparr>i_rsp := 0x100001FF0, i_ss := user_selector 4\<rparr>\<rparr>\<rparr>) s) (\<lambda>s.
     rbind (sys_kmalloc SIZEOF_DESC s) (\<lambda>(d, s).
     if d = 0 then Inl (BadAddr 0) else
     let s = s\<lparr>descs := (descs s)(d \<mapsto> \<lparr>fd_node = tty, fd_offset = 0, fd_flags = 0\<rparr>)\<rparr> in
     rbind (upd_curr cpu (stdio_files d) s) (\<lambda>s.
     rbind (in_vm irq_on (procs s)) (\<lambda>ps. Inr (s\<lparr>procs := ps\<rparr>))))))))"

text \<open>
  \<^verbatim>\<open>start_process\<close>: it returns (\<open>False\<close>) when nothing could be loaded; otherwise the task waits in an endless
  loop for the timer interrupt (\<open>True\<close>).
\<close>

definition start_process :: "elf_env \<Rightarrow> nat \<Rightarrow> u64 \<Rightarrow> u64 \<Rightarrow> sys \<Rightarrow> (bool \<times> sys) res" where
  "start_process L cpu tty buffer s =
     rbind (elf64_is_supported buffer s) (\<lambda>(ok, s).
     rbind (if ok \<noteq> 0
            then rbind (con_puts ''Seems to be supported ELF file'' s) (\<lambda>s. elf64_load_file L buffer s)
            else Inr (0, s)) (\<lambda>(entry, s).
     if entry \<noteq> 0 then rbind (start_task L cpu tty entry s) (\<lambda>s. Inr (True, s))
     else Inr (False, s)))"

section \<open>The check of a header\<close>

definition with_console :: "ktty \<Rightarrow> sys \<Rightarrow> sys" where
  "with_console t s = s\<lparr>fsys := (fsys s)\<lparr>console := t\<rparr>\<rparr>"

lemma with_console_sel [simp]:
  "procs (with_console t s) = procs s" "ram (fsys (with_console t s)) = ram (fsys s)" "console (fsys (with_console t s)) = t"
  "fheap (fsys (with_console t s)) = fheap (fsys s)" "fnodes (fsys (with_console t s)) = fnodes (fsys s)" "descs (with_console t s) = descs s"
  "with_console u (with_console t s) = with_console u s" "with_console (console (fsys s)) s = s"
  "deref get a (fsys (with_console t s)) = deref get a (fsys s)"
  by (simp_all add: with_console_def deref_def)

lemma con_puts_ok:
  assumes "ktty_ok (console (fsys s))" and "0 \<notin> set (map of_char msg :: u8 list)"
  obtains t where "con_puts msg s = Inr (with_console t s)" and "ktty_ok t"
  using puts_prints [OF assms, of "[]"] by (auto simp: con_puts_def with_console_def)

lemma reject_ok:
  assumes "ktty_ok (console (fsys s))" and "0 \<notin> set (map of_char msg :: u8 list)"
  shows "\<exists>t. reject msg r s = Inr (r, with_console t s) \<and> ktty_ok t"
  using con_puts_ok [OF assms] by (metis reject_def rbind_simps(1))

text \<open>What the loader takes: a 64-bit little-endian file for this processor, executable or relocatable.\<close>

definition elf_magic :: "Elf64_Ehdr \<Rightarrow> bool" where
  "elf_magic h \<longleftrightarrow> take 4 (e_ident h) = [0x7F, 0x45, 0x4C, 0x46]"

definition elf_ok :: "Elf64_Ehdr \<Rightarrow> bool" where
  "elf_ok h \<longleftrightarrow> elf_magic h \<and> e_ident h ! 4 = 2 \<and> e_ident h ! 5 = 1 \<and> e_ident h ! 6 = 1
     \<and> e_version h = 1 \<and> e_machine h = 62 \<and> e_type h \<in> {1, 2}"

lemma is_supported_ok:
  assumes "ktty_ok (console (fsys s))" and "4096 \<le> hdr"
  shows "\<exists>t. elf64_is_supported hdr s = Inr (if elf_ok (Elf64_Ehdr_of (ram (fsys s)) hdr) then 1 else 0, with_console t s)
    \<and> ktty_ok t \<and> (elf_ok (Elf64_Ehdr_of (ram (fsys s)) hdr) \<longrightarrow> t = console (fsys s))"
proof -
  let ?h = "Elf64_Ehdr_of (ram (fsys s)) hdr"
  have nz: "hdr \<noteq> 0" using assms(2) by auto
  have d: "deref Elf64_Ehdr_of hdr (fsys s) = Inr ?h" using assms(2) by (auto simp: deref_def)
  show ?thesis
  proof (cases "elf_magic ?h")
    case False
    obtain t where t: "reject ''ELF header magic incorrect!'' (0 :: u32) s = Inr (0, with_console t s)" "ktty_ok t"
      using reject_ok [OF assms(1), of "''ELF header magic incorrect!''" 0] by auto
    then have m: "elf64_check_magic hdr s = Inr (0, with_console t s)"
      using nz d False by (simp add: elf64_check_magic_def elf_magic_def SELFMAG_def ELFMAG_def)
    obtain u where u: "reject ''File isn't an ELF'' (0 :: u32) (with_console t s) = Inr (0, with_console u s)" "ktty_ok u"
      using reject_ok [of "with_console t s" "''File isn't an ELF''" 0] t(2) by auto
    then show ?thesis using m False by (intro exI [of _ u]) (simp add: elf64_is_supported_def elf_ok_def)
  next
    case True
    then have m: "elf64_check_magic hdr s = Inr (1, s)"
      using nz d by (simp add: elf64_check_magic_def elf_magic_def SELFMAG_def ELFMAG_def)
    let ?msgs = "{''ELF file has unsupported class'', ''ELF file has unsupported byte order'',
      ''ELF file has unsupported architecture'', ''ELF file has unsupported version'', ''ELF file has unsupported type''}"
    have r: "\<exists>t. reject msg (0 :: u32) s = Inr (0, with_console t s) \<and> ktty_ok t" if "msg \<in> ?msgs" for msg
      using reject_ok [OF assms(1), of msg 0] that by auto
    show ?thesis
    proof (cases "elf_ok ?h")
      case True
      then show ?thesis using m d assms(1)
        by (intro exI [of _ "console (fsys s)"]) (auto simp: elf64_is_supported_def elf_ok_def elf_idents elf_types)
    next
      case False
      then have "\<exists>msg \<in> ?msgs. elf64_is_supported hdr s = reject msg 0 s"
        using m d True unfolding elf64_is_supported_def elf_ok_def elf_idents elf_types
        by (simp split del: if_split) (simp split: if_split)
      then obtain msg where "msg \<in> ?msgs" and e: "elf64_is_supported hdr s = reject msg 0 s" by blast
      from r [OF this(1)] show ?thesis unfolding e using False by simp
    qed
  qed
qed


section \<open>Loading segments\<close>

text \<open>A region of memory, and structures read from it: equal bytes give equal structures.\<close>

definition region :: "u64 \<Rightarrow> nat \<Rightarrow> u64 set" where
  "region a n = {x. unat (x - a) < n}"

definition same_on :: "u64 set \<Rightarrow> (u64 \<Rightarrow> u8) \<Rightarrow> (u64 \<Rightarrow> u8) \<Rightarrow> bool" where
  "same_on A m m' \<longleftrightarrow> (\<forall>x \<in> A. m x = m' x)"

lemma same_on_at: "same_on (region a n) m m' \<Longrightarrow> unat k < n \<Longrightarrow> m (a + k) = m' (a + k)"
  by (simp add: same_on_def region_def)

lemma Ehdr_cong:
  assumes "same_on (region a 64) m m'"
  shows "Elf64_Ehdr_of m a = Elf64_Ehdr_of m' a"
proof -
  have b: "m (a + k) = m' (a + k)" "m (k + a) = m' (k + a)" if "unat k < 64" for k
    using same_on_at [OF assms that] by (simp_all add: add.commute)
  have "load a 16 m = load a 16 m'"
    unfolding load_def by (rule map_cong) (use b in \<open>auto simp: unat_of_nat\<close>)
  then show ?thesis using b(1) [of 0] by (simp add: Elf64_Ehdr_of_def get16_def get32_def get64_def b)
qed

lemma Phdr_cong:
  assumes "same_on (region a 56) m m'"
  shows "Elf64_Phdr_of m a = Elf64_Phdr_of m' a"
proof -
  have b: "m (a + k) = m' (a + k)" "m (k + a) = m' (k + a)" if "unat k < 56" for k
    using same_on_at [OF assms that] by (simp_all add: add.commute)
  then show ?thesis using b(1) [of 0] by (simp add: Elf64_Phdr_of_def get32_def get64_def b)
qed

lemma load_cong:
  assumes "same_on (region a n) m m'" and "n \<le> 2 ^ 63"
  shows "load a n m = load a n m'"
proof -
  have "m (a + of_nat i) = m' (a + of_nat i)" if "i < n" for i
    using same_on_at [OF assms(1), of "of_nat i"] that assms(2) by (simp add: unat_of_nat)
  then show ?thesis by (simp add: load_def)
qed

lemma region_shift:
  assumes "x \<in> region (a + k) n" and "unat k + n \<le> N" and "N \<le> 2 ^ 63"
  shows "x \<in> region a N"
proof -
  define i where "i = unat (x - (a + k))"
  have i: "i < n" using assms(1) by (simp add: region_def i_def)
  have "x - (a + k) = of_nat i" by (simp add: i_def)
  then have x: "x - a = k + of_nat i" by (simp add: algebra_simps)
  have "unat (k + of_nat i) = unat k + i"
    by (rule unat_add_of_nat) (use i assms(2,3) in simp)
  then show ?thesis using i assms(2) x by (simp add: region_def)
qed

text \<open>The pages of a segment.\<close>

definition seg_base :: "Elf64_Phdr \<Rightarrow> u64" where
  "seg_base p = p_vaddr p AND NOT 0xFFF"

definition seg_size :: "Elf64_Phdr \<Rightarrow> u64" where
  "seg_size p = p_memsz p + (p_vaddr p AND 0xFFF)"

definition seg_pages :: "Elf64_Phdr \<Rightarrow> nat" where
  "seg_pages p = (unat (seg_size p) + 4095) div 4096"

definition seg_area :: "Elf64_Phdr \<Rightarrow> u64 set" where
  "seg_area p = region (seg_base p) (4096 * seg_pages p)"

text \<open>A segment as a linker makes it: no wrap-around, clear of the page table window, not longer in the file than in memory.\<close>

definition seg_ok :: "Elf64_Phdr \<Rightarrow> bool" where
  "seg_ok p \<longleftrightarrow> unat (p_memsz p) < 2 ^ 47 \<and> unat (p_filesz p) \<le> unat (p_memsz p)
     \<and> (\<forall>j < seg_pages p. outside_window (seg_base p + of_nat (4096 * j)))"

lemma seg_facts:
  assumes "seg_ok p"
  shows "p_vaddr p = seg_base p + (p_vaddr p AND 0xFFF)" and "unat (seg_size p) = unat (p_memsz p) + unat (p_vaddr p AND 0xFFF)"
    and "page_aligned (seg_base p)" and "unat (p_vaddr p AND 0xFFF) < 4096" and "seg_pages p < 2 ^ 36"
proof -
  have m: "(0xFFF :: u64) = mask 12" by (simp add: mask_eq_exp_minus_1)
  show v: "p_vaddr p = seg_base p + (p_vaddr p AND 0xFFF)"
  proof -
    have "(p_vaddr p AND NOT 0xFFF) AND (p_vaddr p AND 0xFFF) = 0" "(p_vaddr p AND NOT 0xFFF) OR (p_vaddr p AND 0xFFF) = p_vaddr p"
      by (rule bit_word_eqI; simp add: bit_simps; blast)+
    then show ?thesis unfolding seg_base_def by (metis disjunctive_add_eq_or)
  qed
  show t: "unat (p_vaddr p AND 0xFFF) < 4096"
    unfolding m take_bit_eq_mask [symmetric]
    using take_bit_nat_less_exp [of 12 "unat (p_vaddr p)"] by (simp add: unsigned_take_bit_eq)
  have "unat (p_memsz p) < 2 ^ 47" using assms by (simp add: seg_ok_def)
  then show s: "unat (seg_size p) = unat (p_memsz p) + unat (p_vaddr p AND 0xFFF)"
    unfolding seg_size_def using t by (simp add: unat_word_ariths(1))
  show "page_aligned (seg_base p)" 
    unfolding page_aligned_def seg_base_def m by (rule bit_word_eqI) (auto simp: bit_simps simp del: mask_numeral)
  show "seg_pages p < 2 ^ 36" using s t \<open>unat (p_memsz p) < 2 ^ 47\<close> by (simp add: seg_pages_def)
qed

lemma seg_bytes:
  assumes "seg_ok p"
  shows "region (p_vaddr p) (unat (p_memsz p)) \<subseteq> seg_area p"
proof
  fix x assume "x \<in> region (p_vaddr p) (unat (p_memsz p))"
  then have "x \<in> region (seg_base p + (p_vaddr p AND 0xFFF)) (unat (p_memsz p))" using seg_facts(1) [OF assms] by simp
  then show "x \<in> seg_area p" unfolding seg_area_def
  proof (rule region_shift)
    show "unat (p_vaddr p AND 0xFFF) + unat (p_memsz p) \<le> 4096 * seg_pages p"
      unfolding seg_pages_def seg_facts(2) [OF assms] by linarith
    show "4096 * seg_pages p \<le> 2 ^ 63" using seg_facts(5) [OF assms] by simp
  qed
qed

lemma store_region: "x \<notin> region a (length bs) \<Longrightarrow> store a bs m x = m x"
  by (rule store_out) (simp add: region_def)

text \<open>Clearing and copying leave the bytes of the file, followed by zeros.\<close>

lemma load_cleared:
  assumes "length bs \<le> n" and "n < 2 ^ 63"
  shows "load a n (store a bs (store a (replicate n 0) m)) = bs @ replicate (n - length bs) 0"
proof (rule nth_equalityI)
  fix i assume "i < length (load a n (store a bs (store a (replicate n 0) m)))"
  then have i: "i < n" by simp
  have u: "unat (a + of_nat i - a) = i" using i assms(2) by (simp add: unat_of_nat)
  show "load a n (store a bs (store a (replicate n 0) m)) ! i = (bs @ replicate (n - length bs) 0) ! i"
    using i u assms by (simp add: store_def nth_append)
qed (use assms in simp)

definition seg_image :: "u64 \<Rightarrow> (u64 \<Rightarrow> u8) \<Rightarrow> Elf64_Phdr \<Rightarrow> u8 list" where
  "seg_image hdr m p =
     load (hdr + p_offset p) (unat (p_filesz p)) m @ replicate (unat (p_memsz p) - unat (p_filesz p)) 0"

text \<open>The state with other memory contents and another state of the paging.\<close>

definition with_mem :: "vm \<Rightarrow> (u64 \<Rightarrow> u8) \<Rightarrow> sys \<Rightarrow> sys" where
  "with_mem v m s = set_ram m (s\<lparr>procs := (procs s)\<lparr>svm := v\<rparr>\<rparr>)"

lemma with_mem_sel [simp]:
  "svm (procs (with_mem v m s)) = v" "ram (fsys (with_mem v m s)) = m" "with_mem v m (with_mem w n s) = with_mem v m s"
  "set_ram n (with_mem v m s) = with_mem v n s" "console (fsys (with_mem v m s)) = console (fsys s)"
  "tasks (procs (with_mem v m s)) = tasks (procs s)" "curr (procs (with_mem v m s)) = curr (procs s)"
  "descs (with_mem v m s) = descs s" "fnodes (fsys (with_mem v m s)) = fnodes (fsys s)" "with_mem (svm (procs s)) (ram (fsys s)) s = s"
  by (simp_all add: with_mem_def set_ram_def)

lemma user_pages_ok:
  assumes "vm_ok (svm (procs s))" and "available (4 * n + k) (frames (svm (procs s)))" and "page_aligned base" and "n \<le> 2 ^ 36"
    and "\<And>j. j < n \<Longrightarrow> outside_window (base + of_nat (4096 * j))" and "n = (unat sz + 4095) div 4096"
  obtains v where "user_pages L base sz s = Inr (with_mem v (remapped L base sz (ram (fsys s))) s)" and "vm_ok v"
    and "available k (frames v)" and "keeps (svm (procs s)) v"
proof -
  have n: "4096 * n < unat sz + 4096" "unat sz \<le> 4096 * n" unfolding assms(6) by linarith+
  obtain v where "alloc_pages_user base sz (svm (procs s)) = Inr v" "vm_ok v" "available k (frames v)" "keeps (svm (procs s)) v"
    using alloc_pages_user_ok [OF assms(1-5) n] by metis
  then show thesis using that [of v] by (simp add: user_pages_def in_vm_def with_mem_def)
qed

lemma remapped_out: "x \<notin> region base (4096 * ((unat sz + 4095) div 4096)) \<Longrightarrow> remapped L base sz m x = m x"
  by (simp add: remapped_def region_def)

lemma load_segment_ok:
  assumes p: "p = Elf64_Phdr_of (ram (fsys s)) seg" and seg: "4096 \<le> seg" and ok: "seg_ok p"
    and h: "region seg 56 \<inter> seg_area p = {}" and d: "region (hdr + p_offset p) (unat (p_filesz p)) \<inter> seg_area p = {}"
    and vm: "vm_ok (svm (procs s))" "available (4 * seg_pages p + k) (frames (svm (procs s)))"
  obtains v m where "load_segment L hdr seg s = Inr (with_mem v m s)" and "vm_ok v" and "available k (frames v)"
    and "keeps (svm (procs s)) v"
    and "load (p_vaddr p) (unat (p_memsz p)) m = seg_image hdr (ram (fsys s)) p"
    and "\<And>x. x \<notin> seg_area p \<Longrightarrow> m x = ram (fsys s) x"
proof -
  let ?m0 = "ram (fsys s)"
  define m1 where "m1 = remapped L (seg_base p) (seg_size p) ?m0"
  define m2 where "m2 = store (p_vaddr p) (replicate (unat (p_memsz p)) 0) m1"
  define m3 where "m3 = store (p_vaddr p) (load (hdr + p_offset p) (unat (p_filesz p)) m2) m2"
  have sz: "unat (p_memsz p) < 2 ^ 63" "unat (p_filesz p) < 2 ^ 63" "unat (p_filesz p) \<le> unat (p_memsz p)"
    using ok by (auto simp: seg_ok_def)
  have o1: "m1 x = ?m0 x" if "x \<notin> seg_area p" for x
    unfolding m1_def using that by (intro remapped_out) (simp add: seg_area_def seg_pages_def)
  have o2: "m2 x = ?m0 x" if "x \<notin> seg_area p" for x
    unfolding m2_def using that o1 seg_bytes [OF ok] by (subst store_region) auto
  have o3: "m3 x = ?m0 x" if "x \<notin> seg_area p" for x
  proof -
    have "region (p_vaddr p) (unat (p_filesz p)) \<subseteq> region (p_vaddr p) (unat (p_memsz p))"
      using sz(3) by (auto simp: region_def)
    then show ?thesis unfolding m3_def using that o2 seg_bytes [OF ok] by (subst store_region) auto
  qed
  have s1: "same_on (region seg 56) m1 ?m0" and s2: "same_on (region seg 56) m2 ?m0"
    using o1 o2 h by (auto simp: same_on_def)
  have p1: "deref Elf64_Phdr_of seg (fsys (with_mem v m1 s)) = Inr p" "deref Elf64_Phdr_of seg (fsys (with_mem v m2 s)) = Inr p"
    "deref Elf64_Phdr_of seg (fsys s) = Inr p" for v
    using Phdr_cong [OF s1] Phdr_cong [OF s2] p seg by (auto simp: deref_def)
  have d2: "load (hdr + p_offset p) (unat (p_filesz p)) m2 = load (hdr + p_offset p) (unat (p_filesz p)) ?m0"
    by (rule load_cong) (use o2 d sz in \<open>auto simp: same_on_def\<close>)
  have w: "outside_window (seg_base p + of_nat (4096 * j))" if "j < seg_pages p" for j
    using ok that by (auto simp: seg_ok_def)
  obtain v where v: "user_pages L (seg_base p) (seg_size p) s = Inr (with_mem v m1 s)" "vm_ok v" "available k (frames v)"
    "keeps (svm (procs s)) v"
    using user_pages_ok [OF vm seg_facts(3) [OF ok] _ w seg_pages_def] seg_facts(5) [OF ok] unfolding m1_def
    by (metis less_imp_le)
  have "load_segment L hdr seg s = Inr (with_mem v m3 s)"
    using p1 v(1) [unfolded seg_base_def] sz
    by (simp add: load_segment_def memset0_def memcpy_def Let_def m3_def flip: seg_size_def m2_def)
  moreover have "load (p_vaddr p) (unat (p_memsz p)) m3 = seg_image hdr ?m0 p"
    unfolding m3_def d2 unfolding m2_def seg_image_def using load_cleared [of "load (hdr + p_offset p) (unat (p_filesz p)) ?m0"] sz by simp
  ultimately show thesis using that v(2-4) o3 by blast
qed

text \<open>
  A file of \<open>F\<close> bytes at \<open>hdr\<close> that holds its tables and the contents of its segments; the pages of the
  segments are apart from it and from each other.
\<close>

definition phdr_at :: "u64 \<Rightarrow> (u64 \<Rightarrow> u8) \<Rightarrow> nat \<Rightarrow> Elf64_Phdr" where
  "phdr_at hdr m i = Elf64_Phdr_of m (hdr + (e_phoff (Elf64_Ehdr_of m hdr) + of_nat (56 * i)))"

definition phdr_count :: "u64 \<Rightarrow> (u64 \<Rightarrow> u8) \<Rightarrow> nat" where
  "phdr_count hdr m = unat (e_phnum (Elf64_Ehdr_of m hdr))"

definition loads :: "u64 \<Rightarrow> (u64 \<Rightarrow> u8) \<Rightarrow> nat \<Rightarrow> bool" where
  "loads hdr m i \<longleftrightarrow> i < phdr_count hdr m \<and> p_type (phdr_at hdr m i) = PT_LOAD"

definition load_pages :: "u64 \<Rightarrow> (u64 \<Rightarrow> u8) \<Rightarrow> nat \<Rightarrow> nat" where
  "load_pages hdr m i = (if loads hdr m i then seg_pages (phdr_at hdr m i) else 0)"

definition file_ok :: "u64 \<Rightarrow> nat \<Rightarrow> (u64 \<Rightarrow> u8) \<Rightarrow> bool" where
  "file_ok hdr F m \<longleftrightarrow> 4096 \<le> hdr \<and> unat hdr + F < 2 ^ 64 \<and> F \<le> 2 ^ 62 \<and> 64 \<le> F
     \<and> unat (e_phoff (Elf64_Ehdr_of m hdr)) + 56 * phdr_count hdr m \<le> F
     \<and> (\<forall>i < phdr_count hdr m. loads hdr m i \<longrightarrow> seg_ok (phdr_at hdr m i)
          \<and> unat (p_offset (phdr_at hdr m i)) + unat (p_filesz (phdr_at hdr m i)) \<le> F
          \<and> seg_area (phdr_at hdr m i) \<inter> region hdr F = {})
     \<and> (\<forall>i < phdr_count hdr m. \<forall>j < i. loads hdr m i \<and> loads hdr m j \<longrightarrow>
          seg_area (phdr_at hdr m i) \<inter> seg_area (phdr_at hdr m j) = {})"

lemma region_mono: "n \<le> N \<Longrightarrow> region a n \<subseteq> region a N"
  by (auto simp: region_def)

lemma same_on_mono: "same_on A m m' \<Longrightarrow> B \<subseteq> A \<Longrightarrow> same_on B m m'"
  by (auto simp: same_on_def)

lemma header_read:
  assumes "file_ok hdr F m" and "same_on (region hdr F) (ram (fsys s)) m"
  shows "deref Elf64_Ehdr_of hdr (fsys s) = Inr (Elf64_Ehdr_of m hdr)"
proof -
  have "64 \<le> F" using assms(1) by (simp add: file_ok_def)
  then have "same_on (region hdr 64) (ram (fsys s)) m" using same_on_mono [OF assms(2) region_mono] by blast
  then show ?thesis using Ehdr_cong assms(1) by (auto simp: deref_def file_ok_def)
qed

lemma phdr_place:
  assumes "file_ok hdr F m" and "i < phdr_count hdr m"
  defines "a \<equiv> hdr + (e_phoff (Elf64_Ehdr_of m hdr) + of_nat (56 * i))"
  shows "region a 56 \<subseteq> region hdr F" and "4096 \<le> a"
proof -
  let ?k = "e_phoff (Elf64_Ehdr_of m hdr) + of_nat (56 * i)"
  have k: "unat ?k = unat (e_phoff (Elf64_Ehdr_of m hdr)) + 56 * i"
    by (rule unat_add_of_nat) (use assms(1,2) in \<open>auto simp: file_ok_def\<close>)
  have F: "unat ?k + 56 \<le> F" "F \<le> 2 ^ 63" "unat hdr + F < 2 ^ 64" "4096 \<le> hdr"
    using assms(1,2) unfolding k file_ok_def by auto
  show "region a 56 \<subseteq> region hdr F"
    unfolding a_def using region_shift [OF _ F(1,2)] by blast
  have "unat (hdr + of_nat (unat ?k)) = unat hdr + unat ?k"
    by (rule unat_add_of_nat) (use F in linarith)
  then have "unat a = unat hdr + unat ?k" by (simp add: a_def)
  then show "4096 \<le> a" using F(4) by (simp add: word_le_nat_alt)
qed

lemma segments_loaded:
  assumes fo: "file_ok hdr F m0" and n: "n = phdr_count hdr m0" and "k \<le> n"
    and "same_on (region hdr F) (ram (fsys s)) m0" and "vm_ok (svm (procs s))"
    and "available (4 * (\<Sum>i = k..<n. load_pages hdr m0 i) + r) (frames (svm (procs s)))"
  shows "\<exists>v m. segment_loop L hdr (hdr + e_phoff (Elf64_Ehdr_of m0 hdr)) (of_nat k) s = Some (Inr (0, with_mem v m s))
    \<and> vm_ok v \<and> available r (frames v) \<and> keeps (svm (procs s)) v
    \<and> (\<forall>i. k \<le> i \<and> loads hdr m0 i \<longrightarrow>
        load (p_vaddr (phdr_at hdr m0 i)) (unat (p_memsz (phdr_at hdr m0 i))) m = seg_image hdr m0 (phdr_at hdr m0 i))
    \<and> (\<forall>x. (\<forall>i. k \<le> i \<and> loads hdr m0 i \<longrightarrow> x \<notin> seg_area (phdr_at hdr m0 i)) \<longrightarrow> m x = ram (fsys s) x)"
  using assms(3-)
proof (induction "n - k" arbitrary: k s)
  case 0
  then have k: "k = n" by simp
  have "n < 2 ^ 16" unfolding n phdr_count_def using unsigned_less [where ?'a = nat, of "e_phnum (Elf64_Ehdr_of m0 hdr)"] by simp
  then have "unat (of_nat n :: u32) = n" by (simp add: unat_of_nat)
  then have "\<not> of_nat k < (ucast (e_phnum (Elf64_Ehdr_of m0 hdr)) :: u32)"
    using k n by (simp add: word_less_nat_alt phdr_count_def unsigned_ucast_eq take_bit_nat_eq_self)
  moreover have "\<not> loads hdr m0 i" if "k \<le> i" for i using that k n by (simp add: loads_def)
  ultimately show ?case
    using "0.prems" header_read [OF fo "0.prems"(2)] k
    by (intro exI [of _ "svm (procs s)"] exI [of _ "ram (fsys s)"]) (subst segment_loop.simps, auto)
next
  case (Suc d)
  let ?h = "Elf64_Ehdr_of m0 hdr" and ?p = "phdr_at hdr m0 k"
  let ?a = "hdr + (e_phoff ?h + of_nat (56 * k))"
  have kn: "k < n" using Suc.hyps(2) by simp
  have "n < 2 ^ 16" unfolding n phdr_count_def using unsigned_less [where ?'a = nat, of "e_phnum ?h"] by simp
  then have k32: "unat (of_nat k :: u32) = k" and k64: "(ucast (of_nat k :: u32) :: u64) = of_nat k"
    using kn by (auto simp: unat_of_nat unsigned_ucast_eq take_bit_nat_eq_self word_unat_eq_iff)
  have lt: "of_nat k < (ucast (e_phnum ?h) :: u32)"
    using kn k32 n \<open>n < 2 ^ 16\<close> by (simp add: word_less_nat_alt phdr_count_def unsigned_ucast_eq take_bit_nat_eq_self)
  have aa: "hdr + e_phoff ?h + SIZEOF_Phdr * ucast (of_nat k :: u32) = ?a" using k64 by simp
  note place = phdr_place [OF fo, of k, folded n, OF kn]
  have ph: "Elf64_Phdr_of (ram (fsys s)) ?a = ?p"
    unfolding phdr_at_def using Phdr_cong same_on_mono [OF Suc.prems(2) place(1)] .
  then have pr: "deref Elf64_Phdr_of ?a (fsys s) = Inr ?p" using place(2) by (auto simp: deref_def)
  have sum: "(\<Sum>i = k..<n. load_pages hdr m0 i) = load_pages hdr m0 k + (\<Sum>i = Suc k..<n. load_pages hdr m0 i)"
    using kn by (simp add: sum.atLeast_Suc_lessThan)
  have nx: "(of_nat k :: u32) + 1 = of_nat (Suc k)" by simp
  have d: "d = n - Suc k" using Suc.hyps(2) by simp
  show ?case
  proof (cases "p_type ?p = PT_LOAD")
    case False
    then have nl: "\<not> loads hdr m0 k" by (simp add: loads_def)
    then have av: "available (4 * (\<Sum>i = Suc k..<n. load_pages hdr m0 i) + r) (frames (svm (procs s)))"
      using Suc.prems(4) sum by (simp add: load_pages_def)
    have "segment_loop L hdr (hdr + e_phoff ?h) (of_nat k) s = segment_loop L hdr (hdr + e_phoff ?h) (of_nat (Suc k)) s"
      using header_read [OF fo Suc.prems(2)] lt pr False unfolding nx [symmetric]
      by (subst segment_loop.simps) (simp add: aa)
    moreover have "Suc k \<le> i" if "k \<le> i" "loads hdr m0 i" for i using that nl by (metis Suc_leI le_neq_implies_less)
    moreover have "Suc k \<le> n" using kn by simp
    note Suc.hyps(1) [OF d this Suc.prems(2,3) av]
    ultimately show ?thesis by (simp only:) (metis Suc_leD)
  next
    case True
    then have ld: "loads hdr m0 k" using kn n by (simp add: loads_def)
    have f: "seg_ok ?p" "unat (p_offset ?p) + unat (p_filesz ?p) \<le> F" "seg_area ?p \<inter> region hdr F = {}" "F \<le> 2 ^ 63"
      using fo ld kn n by (auto simp: file_ok_def)
    have dr: "region (hdr + p_offset ?p) (unat (p_filesz ?p)) \<subseteq> region hdr F"
      using region_shift [OF _ f(2,4)] by blast
    have h1: "region ?a 56 \<inter> seg_area ?p = {}" and h2: "region (hdr + p_offset ?p) (unat (p_filesz ?p)) \<inter> seg_area ?p = {}"
      using place(1) dr f(3) by auto
    have "available (4 * seg_pages ?p + (4 * (\<Sum>i = Suc k..<n. load_pages hdr m0 i) + r)) (frames (svm (procs s)))"
      using Suc.prems(4) sum ld by (simp add: load_pages_def algebra_simps)
    then obtain v m where A: "load_segment L hdr ?a s = Inr (with_mem v m s)" "vm_ok v"
      "available (4 * (\<Sum>i = Suc k..<n. load_pages hdr m0 i) + r) (frames v)" "keeps (svm (procs s)) v"
      "load (p_vaddr ?p) (unat (p_memsz ?p)) m = seg_image hdr (ram (fsys s)) ?p"
      "\<And>x. x \<notin> seg_area ?p \<Longrightarrow> m x = ram (fsys s) x"
      by (rule load_segment_ok [where L = L, OF ph [symmetric] place(2) f(1) h1 h2 Suc.prems(3)]) blast
    have im: "seg_image hdr (ram (fsys s)) ?p = seg_image hdr m0 ?p"
      unfolding seg_image_def using load_cong [OF same_on_mono [OF Suc.prems(2) dr]] f(1) by (simp add: seg_ok_def)
    have so: "same_on (region hdr F) m m0" using A(6) f(3) Suc.prems(2) unfolding same_on_def by (metis disjoint_iff)
    obtain w m' where B: "segment_loop L hdr (hdr + e_phoff ?h) (of_nat (Suc k)) (with_mem v m s) = Some (Inr (0, with_mem w m' s))"
      "vm_ok w" "available r (frames w)" "keeps v w"
      "\<And>i. Suc k \<le> i \<Longrightarrow> loads hdr m0 i \<Longrightarrow>
        load (p_vaddr (phdr_at hdr m0 i)) (unat (p_memsz (phdr_at hdr m0 i))) m' = seg_image hdr m0 (phdr_at hdr m0 i)"
      "\<And>x. (\<And>i. Suc k \<le> i \<Longrightarrow> loads hdr m0 i \<Longrightarrow> x \<notin> seg_area (phdr_at hdr m0 i)) \<Longrightarrow> m' x = m x"
      using Suc.hyps(1) [OF d, of "with_mem v m s"] kn so A(2,3) by auto
    have "segment_loop L hdr (hdr + e_phoff ?h) (of_nat k) s = Some (Inr (0, with_mem w m' s))"
      using header_read [OF fo Suc.prems(2)] lt pr True A(1) B(1) unfolding nx [symmetric]
      by (subst segment_loop.simps) (simp add: aa)
    moreover have "load (p_vaddr ?p) (unat (p_memsz ?p)) m' = seg_image hdr m0 ?p"
    proof -
      have "seg_area ?p \<inter> seg_area (phdr_at hdr m0 i) = {}" if "Suc k \<le> i" "loads hdr m0 i" for i
        using fo that ld n kn unfolding file_ok_def loads_def by (metis Suc_le_lessD inf.commute)
      then have "same_on (seg_area ?p) m' m" unfolding same_on_def using B(6) by blast
      then have "same_on (region (p_vaddr ?p) (unat (p_memsz ?p))) m' m" using same_on_mono seg_bytes [OF f(1)] by blast
      from load_cong [OF this] show ?thesis using A(5) im f(1)
        by (simp add: seg_ok_def)
    qed
    then have "load (p_vaddr (phdr_at hdr m0 i)) (unat (p_memsz (phdr_at hdr m0 i))) m' = seg_image hdr m0 (phdr_at hdr m0 i)"
      if "k \<le> i" "loads hdr m0 i" for i
      using B(5) that by (cases "i = k") auto
    moreover have "m' x = ram (fsys s) x" if "\<forall>i. k \<le> i \<and> loads hdr m0 i \<longrightarrow> x \<notin> seg_area (phdr_at hdr m0 i)" for x
      using B(6) [of x] A(6) [of x] that ld by (metis Suc_leD le_refl)
    moreover have "keeps (svm (procs s)) w" using A(4) B(4) by (rule keeps_trans)
    ultimately show ?thesis using B(2,3) by blast
  qed
qed

text \<open>The result of loading: the images of the segments, and nothing else changed.\<close>

definition image_loaded :: "u64 \<Rightarrow> (u64 \<Rightarrow> u8) \<Rightarrow> (u64 \<Rightarrow> u8) \<Rightarrow> bool" where
  "image_loaded hdr m0 m \<longleftrightarrow>
     (\<forall>i. loads hdr m0 i \<longrightarrow> load (p_vaddr (phdr_at hdr m0 i)) (unat (p_memsz (phdr_at hdr m0 i))) m = seg_image hdr m0 (phdr_at hdr m0 i))
     \<and> (\<forall>x. (\<forall>i. loads hdr m0 i \<longrightarrow> x \<notin> seg_area (phdr_at hdr m0 i)) \<longrightarrow> m x = m0 x)"

lemma stage3_ok:
  assumes "file_ok hdr F (ram (fsys s))" and "vm_ok (svm (procs s))"
    and "available (4 * (\<Sum>i < phdr_count hdr (ram (fsys s)). load_pages hdr (ram (fsys s)) i) + r) (frames (svm (procs s)))"
  obtains v m where "elf64_load_stage3 L hdr s = Inr (0, with_mem v m s)" and "vm_ok v" and "available r (frames v)"
    and "keeps (svm (procs s)) v" and "image_loaded hdr (ram (fsys s)) m"
proof -
  have d: "deref Elf64_Ehdr_of hdr (fsys s) = Inr (Elf64_Ehdr_of (ram (fsys s)) hdr)"
    by (rule header_read [OF assms(1)]) (simp add: same_on_def)
  obtain v m where "segment_loop L hdr (hdr + e_phoff (Elf64_Ehdr_of (ram (fsys s)) hdr)) 0 s = Some (Inr (0, with_mem v m s))"
    "vm_ok v" "available r (frames v)" "keeps (svm (procs s)) v" "image_loaded hdr (ram (fsys s)) m"
    using segments_loaded [OF assms(1) refl, of 0 s r L] assms(2,3)
    unfolding image_loaded_def by (auto simp: same_on_def atLeast0LessThan)
  then show thesis using that [of v m] d by (simp add: elf64_load_stage3_def elf64_pheader_def)
qed


section \<open>Running a program\<close>

lemma Shdr_cong:
  assumes "same_on (region a 64) m m'"
  shows "Elf64_Shdr_of m a = Elf64_Shdr_of m' a"
proof -
  have b: "m (a + k) = m' (a + k)" "m (k + a) = m' (k + a)" if "unat k < 64" for k
    using same_on_at [OF assms that] by (simp_all add: add.commute)
  then show ?thesis using b(1) [of 0] by (simp add: Elf64_Shdr_of_def get32_def get64_def b)
qed

text \<open>A file whose sections hold no relocations, as a linker makes it for a static program.\<close>

definition shdr_at :: "u64 \<Rightarrow> (u64 \<Rightarrow> u8) \<Rightarrow> nat \<Rightarrow> Elf64_Shdr" where
  "shdr_at hdr m i = Elf64_Shdr_of m (hdr + (e_shoff (Elf64_Ehdr_of m hdr) + of_nat (64 * i)))"

definition no_relocations :: "u64 \<Rightarrow> nat \<Rightarrow> (u64 \<Rightarrow> u8) \<Rightarrow> bool" where
  "no_relocations hdr F m \<longleftrightarrow>
     unat (e_shoff (Elf64_Ehdr_of m hdr)) + 64 * unat (e_shnum (Elf64_Ehdr_of m hdr)) \<le> F
     \<and> (\<forall>i < unat (e_shnum (Elf64_Ehdr_of m hdr)). sh_type (shdr_at hdr m i) \<notin> {SHT_REL, SHT_RELA})"

lemma sections_skipped:
  assumes fo: "file_ok hdr F m0" and nr: "no_relocations hdr F m0" and n: "n = unat (e_shnum (Elf64_Ehdr_of m0 hdr))" and "k \<le> n"
    and "same_on (region hdr F) (ram (fsys s)) m0" and "ktty_ok (console (fsys s))"
  shows "\<exists>t. section_loop L hdr (hdr + e_shoff (Elf64_Ehdr_of m0 hdr)) (of_nat k) s = Some (Inr (0, with_console t s)) \<and> ktty_ok t"
  using assms(4-)
proof (induction "n - k" arbitrary: k s)
  case 0
  have "n < 2 ^ 16" unfolding n using unsigned_less [where ?'a = nat, of "e_shnum (Elf64_Ehdr_of m0 hdr)"] by simp
  moreover have k: "k = n" using 0 by simp
  ultimately have "\<not> of_nat k < (ucast (e_shnum (Elf64_Ehdr_of m0 hdr)) :: u32)"
    using n by (simp add: word_less_nat_alt unat_of_nat unsigned_ucast_eq take_bit_nat_eq_self)
  then show ?case
    using "0.prems" header_read [OF fo "0.prems"(2)]
    by (intro exI [of _ "console (fsys s)"]) (subst section_loop.simps, simp)
next
  case (Suc d)
  let ?h = "Elf64_Ehdr_of m0 hdr"
  let ?k = "e_shoff ?h + of_nat (64 * k)"
  have kn: "k < n" using Suc.hyps(2) by simp
  have n16: "n < 2 ^ 16" unfolding n using unsigned_less [where ?'a = nat, of "e_shnum ?h"] by simp
  then have k64: "(ucast (of_nat k :: u32) :: u64) = of_nat k"
    using kn by (simp add: unat_of_nat unsigned_ucast_eq take_bit_nat_eq_self word_unat_eq_iff)
  have lt: "of_nat k < (ucast (e_shnum ?h) :: u32)"
    using kn n n16 by (simp add: word_less_nat_alt unat_of_nat unsigned_ucast_eq take_bit_nat_eq_self)
  have aa: "hdr + e_shoff ?h + SIZEOF_Shdr * ucast (of_nat k :: u32) = hdr + ?k" using k64 by simp
  have u: "unat ?k = unat (e_shoff ?h) + 64 * k"
    by (rule unat_add_of_nat) (use nr fo kn n in \<open>auto simp: no_relocations_def file_ok_def\<close>)
  have F: "unat ?k + 64 \<le> F" "F \<le> 2 ^ 63" "unat hdr + F < 2 ^ 64" "4096 \<le> hdr"
    using nr fo kn n unfolding u no_relocations_def file_ok_def by auto
  have "region (hdr + ?k) 64 \<subseteq> region hdr F" using region_shift [OF _ F(1,2)] by blast
  then have sh: "Elf64_Shdr_of (ram (fsys s)) (hdr + ?k) = shdr_at hdr m0 k"
    unfolding shdr_at_def using Shdr_cong same_on_mono [OF Suc.prems(2)] by blast
  have "unat (hdr + of_nat (unat ?k)) = unat hdr + unat ?k"
    by (rule unat_add_of_nat) (use F in linarith)
  then have "4096 \<le> hdr + ?k" using F(4) by (simp add: word_le_nat_alt)
  then have sr: "deref Elf64_Shdr_of (hdr + ?k) (fsys s) = Inr (shdr_at hdr m0 k)" using sh by (auto simp: deref_def)
  have ty: "sh_type (shdr_at hdr m0 k) \<noteq> SHT_REL" "sh_type (shdr_at hdr m0 k) \<noteq> SHT_RELA"
    using nr kn n by (auto simp: no_relocations_def)
  obtain t where t: "con_puts ''Unsupported symbol type'' s = Inr (with_console t s)" "ktty_ok t"
    using con_puts_ok [OF Suc.prems(3), of "''Unsupported symbol type''"] by auto
  have d: "d = n - Suc k" using Suc.hyps(2) by simp
  obtain u where u: "section_loop L hdr (hdr + e_shoff ?h) (of_nat (Suc k)) (with_console t s) = Some (Inr (0, with_console u s))" "ktty_ok u"
    using Suc.hyps(1) [OF d, of "with_console t s"] kn Suc.prems(2) t(2) by auto
  have "(of_nat k :: u32) + 1 = of_nat (Suc k)" by simp
  then have "section_loop L hdr (hdr + e_shoff ?h) (of_nat k) s = Some (Inr (0, with_console u s))"
    using header_read [OF fo Suc.prems(2)] lt sr ty t(1) u(1)
    by (subst section_loop.simps) (simp add: aa del: of_nat_Suc)
  then show ?case using u(2) by blast
qed

lemma file_kept:
  assumes "file_ok hdr F m0" and "image_loaded hdr m0 m"
  shows "same_on (region hdr F) m m0"
  using assms unfolding file_ok_def image_loaded_def same_on_def loads_def by (metis disjoint_iff)

text \<open>Loading an executable file; only messages are printed.\<close>

lemma load_exec_ok:
  assumes fo: "file_ok hdr F (ram (fsys s))" and "no_relocations hdr F (ram (fsys s))"
    and "vm_ok (svm (procs s))" and "ktty_ok (console (fsys s))"
    and "available (4 * (\<Sum>i < phdr_count hdr (ram (fsys s)). load_pages hdr (ram (fsys s)) i) + r) (frames (svm (procs s)))"
  obtains v m t where "elf64_load_exec L hdr s = Inr (e_entry (Elf64_Ehdr_of (ram (fsys s)) hdr), with_console t (with_mem v m s))"
    and "vm_ok v" and "available r (frames v)" and "keeps (svm (procs s)) v" and "image_loaded hdr (ram (fsys s)) m" and "ktty_ok t"
proof -
  let ?m0 = "ram (fsys s)"
  let ?h = "Elf64_Ehdr_of ?m0 hdr"
  obtain v m where A: "elf64_load_stage3 L hdr s = Inr (0, with_mem v m s)" "vm_ok v" "available r (frames v)"
    "keeps (svm (procs s)) v" "image_loaded hdr ?m0 m"
    by (rule stage3_ok [where L = L, OF fo assms(3,5)]) blast
  have so: "same_on (region hdr F) (ram (fsys (with_mem v m s))) ?m0" using file_kept [OF fo A(5)] by simp
  obtain t where t: "section_loop L hdr (hdr + e_shoff ?h) 0 (with_mem v m s) = Some (Inr (0, with_console t (with_mem v m s)))" "ktty_ok t"
    using sections_skipped [OF fo assms(2) refl, of 0 "with_mem v m s" L] so assms(4) by auto
  have h: "deref Elf64_Ehdr_of hdr (fsys (with_mem v m s)) = Inr ?h" by (rule header_read [OF fo so])
  have "elf64_load_exec L hdr s = Inr (e_entry ?h, with_console t (with_mem v m s))"
    using A(1) t(1) h
    by (simp add: elf64_load_exec_def elf64_load_stage2_def elf64_sheader_def entry_of_def ELF_LOAD_ERR_def)
  then show thesis using that A(2-5) t(2) by blast
qed

text \<open>A processor that runs the task \<open>t\<close> at \<open>p\<close>, with room for one more interrupt lock.\<close>

definition runs_task :: "nat \<Rightarrow> u64 \<Rightarrow> task \<Rightarrow> sys \<Rightarrow> bool" where
  "runs_task cpu p t s \<longleftrightarrow> p \<noteq> 0 \<and> cpu < length (curr (procs s)) \<and> curr (procs s) ! cpu = p \<and> tasks (procs s) p = Some t
     \<and> length (files t) = MAX_OPEN_FILES
     \<and> intr_depth (this_cpu (svm (procs s))) (irq (svm (procs s))) < 254"

text \<open>The task that is to run the program.\<close>

definition started :: "u64 \<Rightarrow> u64 \<Rightarrow> task \<Rightarrow> task" where
  "started entry d t = t\<lparr>state := TASK_STARTING,
     regs := (regs t)\<lparr>r_c := r_c zero_regs,
       r_i := (r_i (regs t))\<lparr>i_rip := entry, i_cs := 0x1B, i_rsp := 0x100001FF0, i_ss := 0x23\<rparr>\<rparr>,
     files := (files t)[0 := d, 1 := d, 2 := d]\<rparr>"

lemma irq_off_ok:
  assumes "vm_ok v" and "intr_depth (this_cpu v) (irq v) < 254"
  obtains w where "irq_off v = Inr w" and "vm_ok w" and "kheap w = kheap v" and "frames w = frames v"
    and "0 < intr_depth (this_cpu w) (irq w)"
proof -
  have c: "cpu_ok (this_cpu v) (irq v)" using assms(1) by (simp add: vm_ok_def irq_ok_def)
  obtain q where q: "intr_disable (this_cpu v) (irq v) = Inr q" "cpu_ok (this_cpu v) q" "intr_depth (this_cpu v) q = Suc (intr_depth (this_cpu v) (irq v))"
    using intr_disable_spec [OF c] assms(2) by auto
  let ?w = "v\<lparr>irq := q\<rparr>"
  have "irq_ok ?w" using q(2,3) assms(2) by (simp add: irq_ok_def)
  then have "vm_ok ?w" using assms(1) by (simp add: vm_ok_def tables_ok_def Page.root_def kpt_slot_def)
  then show thesis using that [of ?w] q by (simp add: irq_off_def)
qed

lemma irq_on_ok:
  assumes "vm_ok v" and "0 < intr_depth (this_cpu v) (irq v)"
  obtains w where "irq_on v = Inr w" and "vm_ok w" and "\<And>a. translate w a = translate v a"
proof -
  have c: "cpu_ok (this_cpu v) (irq v)" and d: "intr_depth (this_cpu v) (irq v) < 255"
    using assms(1) by (auto simp: vm_ok_def irq_ok_def)
  obtain q where q: "intr_enable (this_cpu v) (irq v) = Inr q" "cpu_ok (this_cpu v) q"
    "intr_depth (this_cpu v) q = intr_depth (this_cpu v) (irq v) - 1"
    using intr_enable_spec [OF c assms(2)] by auto
  let ?w = "v\<lparr>irq := q\<rparr>"
  have "irq_ok ?w" using q(2,3) d by (simp add: irq_ok_def)
  then have "vm_ok ?w" using assms(1) by (simp add: vm_ok_def tables_ok_def Page.root_def kpt_slot_def)
  then show thesis using that [of ?w] q by (simp add: irq_on_def translate_def Page.root_def)
qed

definition stack_apart :: "u64 \<Rightarrow> (u64 \<Rightarrow> u8) \<Rightarrow> bool" where
  "stack_apart hdr m \<longleftrightarrow> (\<forall>i. loads hdr m i \<longrightarrow> seg_area (phdr_at hdr m i) \<inter> region 0x100000000 0x2000 = {})"

lemma stack_window: "j < 2 \<Longrightarrow> outside_window (0x100000000 + of_nat (4096 * j))"
  by (auto simp: outside_window_def lin_path_window less_2_cases_iff)
    (simp_all add: lin_path_def lin_pml4_def lin_pdp_def lin_pd_def lin_pt_def)

lemma upd_curr_eq:
  assumes "cpu < length (curr (procs s))" and "curr (procs s) ! cpu = p" and "tasks (procs s) p = Some t"
  shows "upd_curr cpu f s = Inr (s\<lparr>procs := put_task p (f t) (procs s)\<rparr>)"
  using assms by (simp add: upd_curr_def get_curr_def task_at_def)

lemma put_task_sel [simp]:
  "tasks (put_task p t s) = (tasks s)(p \<mapsto> t)" "curr (put_task p t s) = curr s" "svm (put_task p t s) = svm s"
  by (simp_all add: put_task_def)

text \<open>\<open>start_task\<close>: the task gets its registers, a stack of two pages and the terminal as its first three files.\<close>

lemma start_task_ok:
  assumes run: "runs_task cpu p t s" and vm: "vm_ok (svm (procs s))" and av: "available 8 (frames (svm (procs s)))"
    and km: "kmalloc SIZEOF_DESC (kheap (svm (procs s))) = Inr (d, H)" "d \<noteq> 0"
  obtains s' where "start_task L cpu tty entry s = Inr s'"
    and "tasks (procs s') = (tasks (procs s))(p \<mapsto> started entry d t)" and "curr (procs s') = curr (procs s)"
    and "descs s' = (descs s)(d \<mapsto> \<lparr>fd_node = tty, fd_offset = 0, fd_flags = 0\<rparr>)"
    and "ram (fsys s') = remapped L 0x100000000 0x2000 (ram (fsys s))"
    and "fnodes (fsys s') = fnodes (fsys s)" and "console (fsys s') = console (fsys s)"
proof -
  have r: "cpu < length (curr (procs s))" "curr (procs s) ! cpu = p" "tasks (procs s) p = Some t" "length (files t) = 16"
    using run by (auto simp: runs_task_def MAX_OPEN_FILES_def)
  obtain w where w: "irq_off (svm (procs s)) = Inr w" "vm_ok w" "kheap w = kheap (svm (procs s))"
    "frames w = frames (svm (procs s))" "0 < intr_depth (this_cpu w) (irq w)"
    using irq_off_ok [OF vm] run unfolding runs_task_def by blast
  define t1 where "t1 = t\<lparr>state := TASK_STARTING, regs := start_regs entry (regs t)\<rparr>"
  define t2 where "t2 = t1\<lparr>regs := (regs t1)\<lparr>r_i := (r_i (regs t1))\<lparr>i_rsp := 0x100001FF0, i_ss := user_selector 4\<rparr>\<rparr>\<rparr>"
  define s1 where "s1 = s\<lparr>procs := put_task p t1 ((procs s)\<lparr>svm := w\<rparr>)\<rparr>"
  have s1: "vm_ok (svm (procs s1))" "available (4 * 2 + 0) (frames (svm (procs s1)))" using w av by (simp_all add: s1_def)
  obtain v where v: "user_pages L 0x100000000 0x2000 s1 = Inr (with_mem v (remapped L 0x100000000 0x2000 (ram (fsys s1))) s1)"
    "vm_ok v" "keeps w v"
    by (rule user_pages_ok [where L = L and sz = "0x2000", OF s1 _ _ stack_window]) (auto simp: s1_def page_aligned_def)
  define s2 where "s2 = with_mem v (remapped L 0x100000000 0x2000 (ram (fsys s1))) s1"
  define s3 where "s3 = s2\<lparr>procs := put_task p t2 (procs s2)\<rparr>"
  define s4 where "s4 = s3\<lparr>procs := (procs s3)\<lparr>svm := (svm (procs s3))\<lparr>kheap := H\<rparr>\<rparr>, fsys := (fsys s3)\<lparr>fheap := H\<rparr>\<rparr>"
  define s5 where "s5 = s4\<lparr>descs := (descs s4)(d \<mapsto> \<lparr>fd_node = tty, fd_offset = 0, fd_flags = 0\<rparr>)\<rparr>"
  define s6 where "s6 = s5\<lparr>procs := put_task p (stdio_files d t2) (procs s5)\<rparr>"
  have d: "0 < intr_depth (this_cpu v) (irq v)" "kheap v = kheap (svm (procs s))"
    using v(3) w(3,5) by (auto simp: keeps_def intr_depth_def)
  have "vm_ok (v\<lparr>kheap := H\<rparr>)" using v(2) by (simp add: vm_ok_def tables_ok_def Page.root_def)
  then obtain u where u: "irq_on (v\<lparr>kheap := H\<rparr>) = Inr u"
    using irq_on_ok [of "v\<lparr>kheap := H\<rparr>"] d(1) by auto
  have u1: "upd_curr cpu (\<lambda>t. t\<lparr>state := TASK_STARTING, regs := start_regs entry (regs t)\<rparr>) (s\<lparr>procs := (procs s)\<lparr>svm := w\<rparr>\<rparr>) = Inr s1"
    by (subst upd_curr_eq [of _ _ p t]) (use r in \<open>simp_all add: s1_def t1_def\<close>)
  have u2: "upd_curr cpu (\<lambda>t. t\<lparr>regs := (regs t)\<lparr>r_i := (r_i (regs t))\<lparr>i_rsp := 0x100001FF0, i_ss := user_selector 4\<rparr>\<rparr>\<rparr>) s2 = Inr s3"
    by (subst upd_curr_eq [of _ _ p t1]) (use r in \<open>simp_all add: s3_def s2_def s1_def t2_def\<close>)
  have k: "sys_kmalloc SIZEOF_DESC s3 = Inr (d, s4)"
    using km(1) d(2) by (simp add: sys_kmalloc_def s4_def s3_def s2_def)
  have u3: "upd_curr cpu (stdio_files d) s5 = Inr s6"
    by (subst upd_curr_eq [of _ _ p t2]) (use r in \<open>simp_all add: s6_def s5_def s4_def s3_def s2_def s1_def\<close>)
  have i: "in_vm irq_on (procs s6) = Inr ((procs s6)\<lparr>svm := u\<rparr>)"
    using u by (simp add: in_vm_def s6_def s5_def s4_def s3_def s2_def)
  have "start_task L cpu tty entry s = Inr (s6\<lparr>procs := (procs s6)\<lparr>svm := u\<rparr>\<rparr>)"
    using w(1) u1 v(1) u2 k u3 i km(2)
    by (simp add: start_task_def in_vm_def [of irq_off] Let_def flip: s2_def s5_def)
  moreover have "stdio_files d t2 = started entry d t"
    by (simp add: stdio_files_def t2_def t1_def started_def start_regs_def user_selector_def CALC_SELECTOR_def)
  ultimately show thesis
    using that by (simp add: s6_def s5_def s4_def s3_def s2_def s1_def with_mem_def set_ram_def)
qed

text \<open>\<open>start_process\<close> of an executable file, in one lemma: what the state after it holds.\<close>

lemma start_process_ok:
  assumes "file_ok hdr F (ram (fsys s))" and "no_relocations hdr F (ram (fsys s))" and "stack_apart hdr (ram (fsys s))"
    and "elf_ok (Elf64_Ehdr_of (ram (fsys s)) hdr)" and "e_type (Elf64_Ehdr_of (ram (fsys s)) hdr) = ET_EXEC"
    and "e_entry (Elf64_Ehdr_of (ram (fsys s)) hdr) \<noteq> 0"
    and "ktty_ok (console (fsys s))" and "vm_ok (svm (procs s))" and "runs_task cpu p t s"
    and "available (4 * (\<Sum>i < phdr_count hdr (ram (fsys s)). load_pages hdr (ram (fsys s)) i) + 8) (frames (svm (procs s)))"
    and "kmalloc SIZEOF_DESC (kheap (svm (procs s))) = Inr (d, H)" and "d \<noteq> 0"
  obtains s' where "start_process L cpu tty hdr s = Inr (True, s')"
    and "tasks (procs s') = (tasks (procs s))(p \<mapsto> started (e_entry (Elf64_Ehdr_of (ram (fsys s)) hdr)) d t)"
    and "curr (procs s') = curr (procs s)" and "descs s' d = Some \<lparr>fd_node = tty, fd_offset = 0, fd_flags = 0\<rparr>"
    and "fnodes (fsys s') = fnodes (fsys s)" and "ktty_ok (console (fsys s'))"
    and "\<And>i. loads hdr (ram (fsys s)) i \<Longrightarrow>
        load (p_vaddr (phdr_at hdr (ram (fsys s)) i)) (unat (p_memsz (phdr_at hdr (ram (fsys s)) i))) (ram (fsys s'))
          = seg_image hdr (ram (fsys s)) (phdr_at hdr (ram (fsys s)) i)"
proof -
  let ?m0 = "ram (fsys s)"
  let ?h = "Elf64_Ehdr_of ?m0 hdr"
  have hdr: "4096 \<le> hdr" using assms(1) by (simp add: file_ok_def)
  have sup: "elf64_is_supported hdr s' = Inr (1, s')" if "ktty_ok (console (fsys s'))" "ram (fsys s') = ?m0" for s'
    using is_supported_ok [OF that(1) hdr] assms(4) that(2) by auto
  obtain t1 where t1: "con_puts ''Seems to be supported ELF file'' s = Inr (with_console t1 s)" "ktty_ok t1"
    using con_puts_ok [OF assms(7), of "''Seems to be supported ELF file''"] by auto
  let ?s1 = "with_console t1 s"
  obtain v m u where A: "elf64_load_exec L hdr ?s1 = Inr (e_entry ?h, with_console u (with_mem v m ?s1))"
    "vm_ok v" "available 8 (frames v)" "keeps (svm (procs s)) v" "image_loaded hdr ?m0 m" "ktty_ok u"
    by (rule load_exec_ok [where L = L and hdr = hdr and F = F and s = ?s1 and r = 8]) (use assms(1,2,8,10) t1(2) in auto)
  let ?s2 = "with_console u (with_mem v m ?s1)"
  have "deref Elf64_Ehdr_of hdr (fsys ?s1) = Inr ?h" using hdr by (auto simp: deref_def)
  then have lf: "elf64_load_file L hdr ?s1 = Inr (e_entry ?h, ?s2)"
    using sup [of ?s1] t1(2) A(1) assms(5) by (simp add: elf64_load_file_def)
  have run: "runs_task cpu p t ?s2" using assms(9) A(4) by (simp add: runs_task_def keeps_def intr_depth_def)
  have km: "kmalloc SIZEOF_DESC (kheap (svm (procs ?s2))) = Inr (d, H)" using assms(11) A(4) by (simp add: keeps_def)
  obtain s' where s': "start_task L cpu tty (e_entry ?h) ?s2 = Inr s'"
    "tasks (procs s') = (tasks (procs ?s2))(p \<mapsto> started (e_entry ?h) d t)" "curr (procs s') = curr (procs ?s2)"
    "descs s' = (descs ?s2)(d \<mapsto> \<lparr>fd_node = tty, fd_offset = 0, fd_flags = 0\<rparr>)"
    "ram (fsys s') = remapped L 0x100000000 0x2000 (ram (fsys ?s2))"
    "fnodes (fsys s') = fnodes (fsys ?s2)" "console (fsys s') = console (fsys ?s2)"
    by (rule start_task_ok [where L = L and tty = tty and entry = "e_entry ?h", OF run _ _ km assms(12)]) (use A(2,3) in auto)
  have "start_process L cpu tty hdr s = Inr (True, s')"
    using sup [OF assms(7)] t1(1) lf s'(1) assms(6) by (simp add: start_process_def)
  moreover have "load (p_vaddr (phdr_at hdr ?m0 i)) (unat (p_memsz (phdr_at hdr ?m0 i))) (ram (fsys s')) = seg_image hdr ?m0 (phdr_at hdr ?m0 i)"
    if "loads hdr ?m0 i" for i
  proof -
    let ?p = "phdr_at hdr ?m0 i"
    have ok: "seg_ok ?p" using assms(1) that by (auto simp: file_ok_def loads_def)
    have "region (p_vaddr ?p) (unat (p_memsz ?p)) \<inter> region 0x100000000 0x2000 = {}"
      using seg_bytes [OF ok] assms(3) that unfolding stack_apart_def by blast
    then have "same_on (region (p_vaddr ?p) (unat (p_memsz ?p))) (ram (fsys s')) m"
      unfolding s'(5) same_on_def by (auto intro!: remapped_out)
    from load_cong [OF this] show ?thesis using ok A(5) that by (simp add: seg_ok_def image_loaded_def)
  qed
  ultimately show thesis using that s'(2-4,6,7) A(6) by simp
qed

lemma started_switch:
  assumes "runs_task cpu p t s" and "tasks ps = (tasks (procs s))(p \<mapsto> started entry d t)" and "curr ps = curr (procs s)"
  shows "task_switch cpu r_addr r ps = Inr (p + 8, put_task p ((started entry d t)
      \<lparr>state := TASK_RUNNING, regs := (regs (started entry d t))\<lparr>reg1 := reg1 r\<rparr>\<rparr>) ps)"
    and "length (files t) = 16"
  using assms by (simp_all add: task_switch_def get_curr_def task_at_def started_def runs_task_def MAX_OPEN_FILES_def)


section \<open>Witnesses\<close>

text \<open>
  A file of 124 bytes at 0x500000, for a program of four bytes at 0x400000 in a segment of eight, and a system
  whose first processor runs a task.
\<close>

definition demo_file :: "u8 list" where
  "demo_file =
     [0x7F, 0x45, 0x4C, 0x46, 2, 1, 1, 0, 0, 0, 0, 0, 0, 0, 0, 0, 2, 0, 62, 0, 1, 0, 0, 0,
      0, 0, 0x40, 0, 0, 0, 0, 0, 64, 0, 0, 0, 0, 0, 0, 0, 0, 0, 0, 0, 0, 0, 0, 0,
      0, 0, 0, 0, 64, 0, 56, 0, 1, 0, 0, 0, 0, 0, 0, 0,
      1, 0, 0, 0, 5, 0, 0, 0, 120, 0, 0, 0, 0, 0, 0, 0, 0, 0, 0x40, 0, 0, 0, 0, 0, 0, 0, 0x40, 0, 0, 0, 0, 0,
      4, 0, 0, 0, 0, 0, 0, 0, 8, 0, 0, 0, 0, 0, 0, 0, 0, 0x10, 0, 0, 0, 0, 0, 0,
      0xEB, 0xFE, 0x90, 0x90]"

definition demo_ram :: "u64 \<Rightarrow> u8" where
  "demo_ram = store 0x500000 demo_file (\<lambda>_. 0)"

definition demo_elf_sys :: sys where
  "demo_elf_sys = \<lparr>procs = demo_sched, fsys = demo_fs\<lparr>ram := demo_ram\<rparr>, descs = Map.empty, errnos = (\<lambda>_. 0)\<rparr>"

definition demo_elf_env :: elf_env where
  "demo_elf_env = \<lparr>undef_symval = (\<lambda>_ _ _. 0), undef_stage1 = (\<lambda>_. 0), ifunc = (\<lambda>a s. Inr (a, s)), fresh_bytes = (\<lambda>_. 0xCC)\<rparr>"

lemma demo_ehdr:
  "Elf64_Ehdr_of demo_ram 0x500000 =
     \<lparr>e_ident = [0x7F, 0x45, 0x4C, 0x46, 2, 1, 1, 0, 0, 0, 0, 0, 0, 0, 0, 0], e_type = 2, e_machine = 62, e_version = 1,
      e_entry = 0x400000, e_phoff = 64, e_shoff = 0, e_flags = 0, e_ehsize = 64, e_phentsize = 56, e_phnum = 1,
      e_shentsize = 0, e_shnum = 0, e_shstrndx = 0\<rparr>"
  by code_simp

lemma demo_phdr:
  "Elf64_Phdr_of demo_ram 0x500040 =
     \<lparr>p_type = 1, p_flags = 5, p_offset = 120, p_vaddr = 0x400000, p_paddr = 0x400000, p_filesz = 4, p_memsz = 8, p_align = 0x1000\<rparr>"
  by code_simp

lemma demo_segments:
  "phdr_count 0x500000 demo_ram = 1" "phdr_at 0x500000 demo_ram 0 = Elf64_Phdr_of demo_ram 0x500040"
  "loads 0x500000 demo_ram i \<longleftrightarrow> i = 0" "load_pages 0x500000 demo_ram 0 = 1"
  "seg_area (Elf64_Phdr_of demo_ram 0x500040) = region 0x400000 4096"
  "seg_image 0x500000 demo_ram (Elf64_Phdr_of demo_ram 0x500040) = [0xEB, 0xFE, 0x90, 0x90, 0, 0, 0, 0]"
proof -
  show c: "phdr_count 0x500000 demo_ram = 1" "phdr_at 0x500000 demo_ram 0 = Elf64_Phdr_of demo_ram 0x500040"
    by (simp_all add: phdr_count_def phdr_at_def demo_ehdr)
  show l: "loads 0x500000 demo_ram i \<longleftrightarrow> i = 0" for i
    using c by (auto simp: loads_def demo_phdr PT_LOAD_def)
  show "load_pages 0x500000 demo_ram 0 = 1" "seg_area (Elf64_Phdr_of demo_ram 0x500040) = region 0x400000 4096"
    using c l by (simp_all add: load_pages_def seg_pages_def seg_area_def seg_size_def seg_base_def demo_phdr)
  show "seg_image 0x500000 demo_ram (Elf64_Phdr_of demo_ram 0x500040) = [0xEB, 0xFE, 0x90, 0x90, 0, 0, 0, 0]"
    by code_simp
qed

lemma demo_regions: "region 0x400000 4096 \<inter> region 0x500000 124 = {}" "region 0x400000 4096 \<inter> region 0x100000000 0x2000 = {}"
proof -
  have w: "unat x = 0x400000 + unat (x - 0x400000)" if "x \<in> region 0x400000 4096" for x
    using that unat_add_of_nat [of "0x400000" "unat (x - 0x400000)"] by (simp add: region_def)
  have h: "unat x = 0x500000 + unat (x - 0x500000)" if "x \<in> region 0x500000 124" for x
    using that unat_add_of_nat [of "0x500000" "unat (x - 0x500000)"] by (simp add: region_def)
  have k: "unat x = 0x100000000 + unat (x - 0x100000000)" if "x \<in> region 0x100000000 0x2000" for x
    using that unat_add_of_nat [of "0x100000000" "unat (x - 0x100000000)"] by (simp add: region_def)
  have b: "unat (x - a) < n" if "x \<in> region a n" for x a n using that by (simp add: region_def)
  show "region 0x400000 4096 \<inter> region 0x500000 124 = {}" "region 0x400000 4096 \<inter> region 0x100000000 0x2000 = {}"
    using w h k b by fastforce+
qed

lemma demo_file_ok: "file_ok 0x500000 124 demo_ram" "no_relocations 0x500000 124 demo_ram" "stack_apart 0x500000 demo_ram"
    "elf_ok (Elf64_Ehdr_of demo_ram 0x500000)"
proof -
  have "seg_ok (Elf64_Phdr_of demo_ram 0x500040)"
    using demo_outside(1) by (simp add: seg_ok_def seg_pages_def seg_size_def seg_base_def demo_phdr)
  moreover have "unat (p_offset (Elf64_Phdr_of demo_ram 0x500040)) + unat (p_filesz (Elf64_Phdr_of demo_ram 0x500040)) \<le> 124"
    by (simp add: demo_phdr)
  ultimately show "file_ok 0x500000 124 demo_ram"
    using demo_segments demo_regions(1) by (simp add: file_ok_def demo_ehdr)
  show "no_relocations 0x500000 124 demo_ram" by (simp add: no_relocations_def demo_ehdr)
  show "stack_apart 0x500000 demo_ram" using demo_segments demo_regions(2) by (simp add: stack_apart_def)
  show "elf_ok (Elf64_Ehdr_of demo_ram 0x500000)" by (simp add: elf_ok_def elf_magic_def demo_ehdr)
qed

lemma demo_frames: "available 12 (frames (svm (procs demo_elf_sys)))"
proof -
  have "(case take_frames alloc_phys_page 12 demo_phys of Inl _ \<Rightarrow> False | Inr (ps, _) \<Rightarrow> 0 \<notin> set ps)"
    by code_simp
  then show ?thesis
    unfolding available_def by (auto simp: demo_elf_sys_def demo_sched_def demo_heap_ok demo_vm_sel split: sum.splits)
qed

lemma demo_sys_sel: "ram (fsys demo_elf_sys) = demo_ram" "svm (procs demo_elf_sys) = demo_vm_heap" "console (fsys demo_elf_sys) = demo_ktty"
    "runs_task 0 0x1000 (demo_task 0x2000 1) demo_elf_sys"
  by (simp_all add: demo_elf_sys_def demo_fs_def demo_sched_def runs_task_def demo_task_def MAX_OPEN_FILES_def
      demo_vm_heap_def demo_vm_def intr_depth_def demo_intr_def)

lemma demo_desc_block:
  obtains H where "kmalloc SIZEOF_DESC boot_heap = Inr (0xFFFFFFFFC0200010, H)"
  using kmalloc_found [OF boot_heap_rep(1), of 24 0 "[(24, False), (0x3FDFFFC8, True)]"]
  by (auto simp: boot_heap_rep split_chunk_def chunk_at_def)




end
