(* ===== verification/Kernel.thy ===== *)
theory Kernel
  imports Boot Apic Vesa Elf
begin

text \<open>
  The main program (\<^verbatim>\<open>kernel/kernel.c\<close>, \<^verbatim>\<open>fs/test.c\<close>, \<^verbatim>\<open>x86_64/kbd.h\<close>): the start of the first processor and of
  the others, the listing of directories, the start of the first program from the root file system, and
  the keyboard interrupt. The states of the components are joined here; what they share
  (page tables, kernel heap, console) is handed from one to the other.
\<close>

section \<open>The machine\<close>

record machine =
  msys :: sys
  mapic :: apic
  mvesa :: vesa
  glob :: fs_globals

text \<open>
  What the environment gives: the devices, the addresses the linker chose, what the boot loader and the
  firmware left in memory, uninitialised memory, and the text that \<^verbatim>\<open>kprintf\<close>, which
  belongs to the C library, makes of a format with numbers or with a string.
\<close>

record boot_env =
  dev :: device
  mm :: mmdev
  isrs :: handlers
  spur_isr :: u64
  gdt_at :: u64
  idt_at :: u64
  tss_at :: u64
  intr_stacks :: u64
  fault_stacks :: u64
  call_stacks :: u64
  kernel_end :: u64
  mb_info :: multiboot_info
  mb_map :: mmap_mem
  low_mem :: bytes
  fs_errs :: env
  stack_buf :: u64
  loader :: elf_env
  junk_task :: task
  fork_regs :: all_regs
  font_data :: "nat \<Rightarrow> u8"
  font_text :: "u8 list"
  format_d :: "string \<Rightarrow> u64 list \<Rightarrow> u8 list"
  format_s :: "string \<Rightarrow> u8 list \<Rightarrow> u8 list"

definition MULTIBOOT_LOADER_MAGIC :: u64 where "MULTIBOOT_LOADER_MAGIC = 0x2BADB002"
definition MULTIBOOT_INFO_VINFO :: u32 where "MULTIBOOT_INFO_VINFO = 0x800"
definition kernel_stack_new :: u64 where "kernel_stack_new = 0xFFFFFFFFC0080000"

definition on_sched :: "(sched \<Rightarrow> sched res) \<Rightarrow> machine \<Rightarrow> machine res" where
  "on_sched f m = rbind (f (procs (msys m))) (\<lambda>p. Inr (m\<lparr>msys := (msys m)\<lparr>procs := p\<rparr>\<rparr>))"

definition on_vm :: "(vm \<Rightarrow> vm res) \<Rightarrow> machine \<Rightarrow> machine res" where
  "on_vm f = on_sched (in_vm f)"

definition on_gdt :: "(gdt \<Rightarrow> gdt res) \<Rightarrow> machine \<Rightarrow> machine res" where
  "on_gdt f = on_sched (\<lambda>p. rbind (f (sgdt p)) (\<lambda>g. Inr (p\<lparr>sgdt := g\<rparr>)))"

definition on_intr :: "(intr \<Rightarrow> intr res) \<Rightarrow> machine \<Rightarrow> machine res" where
  "on_intr f = on_vm (\<lambda>v. rbind (f (irq v)) (\<lambda>q. Inr (v\<lparr>irq := q\<rparr>)))"

definition on_console :: "(ktty \<Rightarrow> ktty res) \<Rightarrow> machine \<Rightarrow> machine res" where
  "on_console f m = rbind (f (console (fsys (msys m)))) (\<lambda>t. Inr (m\<lparr>msys := with_console t (msys m)\<rparr>))"

text \<open>A part of the machine with a state of its own works on the page tables and the console, or on the heap, of all.\<close>

definition on_apic :: "(apic \<Rightarrow> apic res) \<Rightarrow> machine \<Rightarrow> machine res" where
  "on_apic f m =
     rbind (f ((mapic m)\<lparr>avm := svm (procs (msys m)), acon := console (fsys (msys m))\<rparr>)) (\<lambda>a.
       Inr (m\<lparr>mapic := a, msys := with_console (acon a) ((msys m)\<lparr>procs := (procs (msys m))\<lparr>svm := avm a\<rparr>\<rparr>)\<rparr>))"

definition on_vesa :: "(vesa \<Rightarrow> vesa res) \<Rightarrow> machine \<Rightarrow> machine res" where
  "on_vesa f m =
     rbind (f ((mvesa m)\<lparr>vvm := svm (procs (msys m))\<rparr>)) (\<lambda>v.
       Inr (m\<lparr>mvesa := v, msys := (msys m)\<lparr>procs := (procs (msys m))\<lparr>svm := vvm v\<rparr>\<rparr>\<rparr>))"

definition on_fs :: "(fs \<Rightarrow> ('a \<times> fs) res) \<Rightarrow> sys \<Rightarrow> ('a \<times> sys) res" where
  "on_fs f s =
     rbind (f ((fsys s)\<lparr>fheap := kheap (svm (procs s))\<rparr>)) (\<lambda>(x, t).
       Inr (x, s\<lparr>fsys := t, procs := (procs s)\<lparr>svm := (svm (procs s))\<lparr>kheap := fheap t\<rparr>\<rparr>\<rparr>))"

definition say :: "u8 list \<Rightarrow> machine \<Rightarrow> machine res" where
  "say bs = on_console (ktty_puts (bs @ [0]))"

section \<open>Directories\<close>

text \<open>
  The loop of \<^verbatim>\<open>fs_print_dir\<close>; \<open>None\<close> if it is never left. The \<^verbatim>\<open>int\<close> \<open>i\<close> is converted to the \<^verbatim>\<open>uint64_t\<close> index.
\<close>

partial_function (option) print_loop :: "boot_env \<Rightarrow> u64 \<Rightarrow> u32 \<Rightarrow> fs \<Rightarrow> fs res option" where
  "print_loop B dir i s =
     (case vfs_readdir DEPTH (fs_errs B) (vfs_read DEPTH (fs_errs B)) dir (int_u64 i) s of
        Inl e \<Rightarrow> Some (Inl e)
      | Inr r \<Rightarrow>
          if fst r \<noteq> int_u64 (EBADF (fs_errs B)) \<and> fst r \<noteq> int_u64 (EINVAL (fs_errs B)) \<and> fst r \<noteq> 0
          then (case dents (snd r) (fst r) of
                  None \<Rightarrow> Some (Inl (BadAddr (fst r)))
                | Some de \<Rightarrow>
                    (case rbind (ktty_puts (format_s B (''Found file %s'' @ [CHR 0x0A]) (cstr (d_name de)) @ [0]) (console (snd r)))
                           (\<lambda>t. fs_kfree (fst r) ((snd r)\<lparr>console := t\<rparr>)) of
                       Inl e \<Rightarrow> Some (Inl e)
                     | Inr s' \<Rightarrow> print_loop B dir (i + 1) s'))
          else Some (Inr (snd r)))"

definition fs_print_dir :: "boot_env \<Rightarrow> u64 \<Rightarrow> fs \<Rightarrow> fs res" where
  "fs_print_dir B dir s =
     rbind (of_loop (print_loop B dir 0 s)) (\<lambda>s.
     rbind (ktty_puts [45, 45, 45, 10, 0] (console s)) (\<lambda>t. Inr (s\<lparr>console := t\<rparr>)))"

text \<open>The name \<^verbatim>\<open>test.elf\<close>.\<close>

definition test_file :: "u8 list" where
  "test_file = map of_char ''test.elf''"

definition kprintf_s :: "boot_env \<Rightarrow> string \<Rightarrow> u8 list \<Rightarrow> sys \<Rightarrow> sys res" where
  "kprintf_s B f x s = rbind (ktty_puts (format_s B f x @ [0]) (console (fsys s))) (\<lambda>t. Inr (with_console t s))"

definition kprintf_d :: "boot_env \<Rightarrow> string \<Rightarrow> u64 list \<Rightarrow> sys \<Rightarrow> sys res" where
  "kprintf_d B f xs s = rbind (ktty_puts (format_d B f xs @ [0]) (console (fsys s))) (\<lambda>t. Inr (with_console t s))"

definition sys_kfree :: "u64 \<Rightarrow> sys \<Rightarrow> sys res" where
  "sys_kfree p s = rbind (on_fs (\<lambda>t. rbind (fs_kfree p t) (\<lambda>t. Inr ((), t))) s) (\<lambda>(_, s). Inr s)"

text \<open>
  \<^verbatim>\<open>fs_test_main\<close> of the kernel (not \<^verbatim>\<open>__HOSTED__\<close>). The value says whether the task waits in \<^verbatim>\<open>start_process\<close> to
  become the program. \<open>sz\<close> is an \<^verbatim>\<open>int\<close>.
\<close>

definition run_test_file :: "boot_env \<Rightarrow> nat \<Rightarrow> fs_globals \<Rightarrow> u64 \<Rightarrow> sys \<Rightarrow> (bool \<times> sys) res" where
  "run_test_file B cpu g hello s =
     rbind (sys_kmalloc 10000 s) (\<lambda>(buf, s).
     rbind (on_fs (vfs_read DEPTH (fs_errs B) hello 0 10000 buf) s) (\<lambda>(r, s).
       let sz = ucast r :: u32 in
       if sz <s 0
       then rbind (kprintf_d B (''Something wrong, return code %d'' @ [CHR 0x0A]) [ucast sz] s) (\<lambda>s.
            rbind (sys_kfree buf s) (\<lambda>s. Inr (False, s)))
       else rbind (kprintf_d B (''(Readed %d bytes)'' @ [CHR 0x0A]) [ucast sz] s) (\<lambda>s.
            rbind (start_process (loader B) cpu (tty_node g) buf s) (\<lambda>(waits, s).
              if waits then Inr (True, s)
              else rbind (con_puts [CHR 0x22, CHR 0x0A] s) (\<lambda>s. rbind (sys_kfree buf s) (\<lambda>s. Inr (False, s)))))))"

definition fs_test_main :: "boot_env \<Rightarrow> nat \<Rightarrow> fs_globals \<Rightarrow> sys \<Rightarrow> (bool \<times> sys) res" where
  "fs_test_main B cpu g s =
     rbind (node_at (root g) (fsys s)) (\<lambda>n.
       if ptr n = 0 then Inr (False, s)
       else rbind (con_puts (''Root mounted successfully'' @ [CHR 0x0A]) s) (\<lambda>s.
            rbind (con_puts (''Contents:'' @ [CHR 0x0A]) s) (\<lambda>s.
            rbind (on_fs (\<lambda>t. rbind (fs_print_dir B (root g) t) (\<lambda>t. Inr ((), t))) s) (\<lambda>(_, s).
            rbind (kprintf_s B (''Contents of %s:'' @ [CHR 0x0A]) test_file s) (\<lambda>s.
            rbind (on_fs (vfs_finddir DEPTH (fs_errs B) (vfs_read DEPTH (fs_errs B)) (root g) test_file) s) (\<lambda>(hello, s).
              if hello \<noteq> 0 then run_test_file B cpu g hello s
              else rbind (con_puts (''File not found!'' @ [CHR 0x0A]) s) (\<lambda>s. Inr (False, s))))))))"

section \<open>Start of the first processor\<close>

text \<open>Where \<^verbatim>\<open>kernel_run\<close> ends: its tasks spin in endless loops.\<close>

datatype last_loop = IdleChild | IdleParent | AwaitProgram

definition kernel_run :: "boot_env \<Rightarrow> machine \<Rightarrow> (last_loop \<times> machine) res" where
  "kernel_run B m =
     rbind (on_intr (\<lambda>q. Inr (q\<lparr>ports := serial_init (ports q)\<rparr>)) m) (\<lambda>m.
     rbind (on_fs (fs_init (fs_errs B) (stack_buf B)) (msys m)) (\<lambda>(g, s).
     rbind (on_fs (\<lambda>t. rbind (fs_print_dir B (dfs g) t) (\<lambda>t. Inr ((), t))) s) (\<lambda>(_, s).
     rbind (on_sched (task_init (junk_task B)) (m\<lparr>msys := s, glob := g\<rparr>)) (\<lambda>m.
     rbind (on_apic (smp_init (dev B) (mm B) (spur_isr B) (low_mem B)) m) (\<lambda>m.
     rbind (con_puts (''Kernel alive, up and running!'' @ [CHR 0x0A]) (msys m)) (\<lambda>s.
     rbind (task_fork (junk_task B) (fork_regs B) kernel_stack_new (procs s)) (\<lambda>(r, p).
       let s = s\<lparr>procs := p\<rparr> in
       if r = 0 then Inr (IdleChild, m\<lparr>msys := s\<rparr>)
       else rbind (fs_test_main B (this_cpu (svm p)) (glob m) s) (\<lambda>(waits, s).
              Inr (if waits then AwaitProgram else IdleParent, m\<lparr>msys := s\<rparr>)))))))))"

text \<open>One turn of the loops that show the processor and a running digit in a corner of the screen, at byte \<open>i\<close>.\<close>

definition idle_cell :: "nat \<Rightarrow> u8 \<Rightarrow> u8 \<Rightarrow> ktty \<Rightarrow> ktty res" where
  "idle_cell i apic_id c t = rbind (vput i (apic_id + 0x30) t) (vput (i + 1) c)"

text \<open>
  \<^verbatim>\<open>kernel_start\<close> up to the switch to the new stack; \<open>False\<close> when the boot loader was the wrong one. The fields of
  the boot loader's structure that are read after \<^verbatim>\<open>mem_init\<close>, which unmapped it, are those in the
  processor's translation cache.
\<close>

definition kernel_setup :: "boot_env \<Rightarrow> u64 \<Rightarrow> u64 \<Rightarrow> machine \<Rightarrow> (bool \<times> machine) res" where
  "kernel_setup B mb_magic mb m =
     rbind (on_gdt (GDT_init (gdt_at B)) m) (\<lambda>m.
     rbind (on_sched (tss_init (tss_at B) (intr_stacks B) (fault_stacks B) (call_stacks B)) m) (\<lambda>m.
     rbind (on_console ktty_init m) (\<lambda>m.
       if mb_magic \<noteq> MULTIBOOT_LOADER_MAGIC
       then rbind (say (map of_char (''Sorry, this kernel relies heavily on information,'' @ [CHR 0x0A])) m) (\<lambda>m.
            rbind (say (map of_char (''provided by Multiboot-compiliant bootloader!'' @ [CHR 0x0A])) m) (\<lambda>m.
            rbind (say (map of_char ''System halted.'') m) (\<lambda>m. Inr (False, m))))
       else rbind (on_intr (intr_init (dev B) 0 (idt_at B) (isrs B)) m) (\<lambda>m.
            rbind (say (format_d B (''OS_64 build date: %s %s'' @ [CHR 0x0A]) []) m) (\<lambda>m.
            rbind (on_vm (\<lambda>v. rbind (mem_init (kernel_end B) (ucast (drop_bit 10 (mem_upper (mb_info B)) + 2)) mb
                      (mb_info B) (mb_map B) v) (\<lambda>(_, v). Inr v)) m) (\<lambda>m.
            rbind (if flags8 (mb_info B) AND MULTIBOOT_INFO_VINFO \<noteq> 0
                   then on_vesa (vesa_init (font_data B) (font_text B)
                          (vesa_mode_info_of (low_mem B) (ucast (vbe_mode_info (mb_info B)) OR KBASE))) m
                   else Inr m) (\<lambda>m.
            rbind (on_vm (alloc_pages kernel_stack_new STACK_SIZE) m) (\<lambda>m. Inr (True, m)))))))))"

text \<open>\<^verbatim>\<open>kernel_start\<close>: \<open>Inl\<close> is its return value, \<open>Inr\<close> the loops in which \<^verbatim>\<open>kernel_run\<close> ends.\<close>

definition kernel_start :: "boot_env \<Rightarrow> u64 \<Rightarrow> u64 \<Rightarrow> machine \<Rightarrow> ((u64 + last_loop) \<times> machine) res" where
  "kernel_start B mb_magic mb m =
     rbind (kernel_setup B mb_magic mb m) (\<lambda>(ok, m).
       if ok then rbind (kernel_run B m) (\<lambda>(l, m). Inr (Inr l, m)) else Inr (Inl (-1), m))"

section \<open>Start of the other processors\<close>

text \<open>\<^verbatim>\<open>kernel_ap_start\<close> up to its endless loop, on the processor \<open>apic_id\<close>, and one turn of that loop.\<close>

definition kernel_ap_start :: "boot_env \<Rightarrow> u8 \<Rightarrow> machine \<Rightarrow> machine res" where
  "kernel_ap_start B apic_id m =
     (let cpu = unat apic_id in
      rbind (on_vm (\<lambda>v. Inr (v\<lparr>this_cpu := cpu\<rparr>)) m) (\<lambda>m.
      rbind (on_gdt (\<lambda>g. Inr (GDT_init_ap (gdt_at B) g)) m) (\<lambda>m.
      rbind (on_sched (tss_init_cpu (tss_at B) cpu) m) (\<lambda>m.
      rbind (on_intr (\<lambda>q. Inr (intr_init_ap cpu q)) m) (\<lambda>m.
      rbind (on_vm page_init_ap m) (\<lambda>m.
      rbind (on_apic (apic_init_ap (mm B)) m) (\<lambda>m.
      rbind (on_sched (task_init_cpu cpu (junk_task B)) m) (\<lambda>m.
      rbind (on_intr (\<lambda>q. Inr (q\<lparr>iflag := (iflag q)(cpu := True)\<rparr>)) m) (\<lambda>m.
      rbind (say (format_d B (''AP ID %d init complete'' @ [CHR 0x0A]) [ucast apic_id]) m) (\<lambda>m.
      Inr (m\<lparr>mapic := (mapic m)\<lparr>cpu_nr := cpu_nr (mapic m) + 1\<rparr>\<rparr>)))))))))))"

definition ap_idle :: "u8 \<Rightarrow> ktty \<Rightarrow> ktty res" where
  "ap_idle apic_id t = ktty_putc (apic_id OR 0x30) t"

section \<open>The keyboard\<close>

text \<open>The handler of the keyboard interrupt. A comment says that it sets the highest bit; it sets the lowest.\<close>

definition kbd_handler :: "boot_env \<Rightarrow> machine \<Rightarrow> machine res" where
  "kbd_handler B m =
     (let h = ports (irq (svm (procs (msys m)))); (scancode, h) = inb (dev B) 0x60 h
      in rbind (on_console (ktty_putc scancode) m) (\<lambda>m.
         let (creg, h) = inb (dev B) 0x61 h; h = outb 0x61 (creg OR 1) h
         in rbind (on_intr (\<lambda>q. Inr (q\<lparr>ports := h\<rparr>)) m) (\<lambda>m. on_apic (\<lambda>a. Inr (apic_eoi a)) m)))"

section \<open>Segments and console at the start\<close>

lemma zeros16: "replicate 16 (0 :: u64) = [0, 0, 0, 0, 0, 0, 0, 0, 0, 0, 0, 0, 0, 0, 0, 0]"
  by (simp add: numeral_eq_Suc)

lemmas seg_consts = SEG_DPL0_def SEG_DPL3_def SEG_NOTSYS_def SEG_PRESENT_def SEG_CODE_EO_def SEG_64BIT_CODE_def
  SEG_DATA_RW_def SEG_BIG_def SEG_TSS64_def

text \<open>The descriptors of kernel code, kernel data, user code and user data.\<close>

definition boot_segments :: "u64 list" where
  "boot_segments = [0, 0xAF98000000FFFF, 0x8F92000000FFFF, 0xAFF8000000FFFF, 0x8FF2000000FFFF]"

lemma GDT_init_zeros:
  assumes "GDT_addr g = replicate 16 0"
  obtains r where "GDT_init at g = Inr (g\<lparr>GDT_addr := boot_segments @ [0, 0, 0, 0, 0, 0, 0, 0, 0, 0, 0], g_gdtr := r\<rparr>)"
  using assms unfolding zeros16
  by (simp add: GDT_init_def GDT_put_def GDT_smartput_def GDT_load_def descriptor_def Let_def seg_consts boot_segments_def)

lemma tss_init_common_frame:
  "svm (tss_init_common a b c s) = svm s \<and> sgdt (tss_init_common a b c s) = sgdt s
     \<and> tasks (tss_init_common a b c s) = tasks s \<and> task_reg (tss_init_common a b c s) = task_reg s
     \<and> length (curr (tss_init_common a b c s)) = length (curr s)"
proof -
  let ?f = "\<lambda>id0 s. s\<lparr>IntrTss := (IntrTss s)[id0 := tss_fill a b c id0 (IntrTss s ! id0)], curr := (curr s)[id0 := 0]\<rparr>"
  have "svm (fold ?f is s) = svm s \<and> sgdt (fold ?f is s) = sgdt s \<and> tasks (fold ?f is s) = tasks s
     \<and> task_reg (fold ?f is s) = task_reg s \<and> length (curr (fold ?f is s)) = length (curr s)" for "is"
    by (induction "is" arbitrary: s) auto
  then show ?thesis unfolding tss_init_common_def by blast
qed

lemma tss_init_boot:
  assumes "GDT_addr (sgdt s) = boot_segments @ [0, 0, 0, 0, 0, 0, 0, 0, 0, 0, 0]"
  obtains s' where "tss_init tss a b c s = Inr s'" and "svm s' = svm s" and "task_reg s' 0 = Some 0x2B"
    and "take 5 (GDT_addr (sgdt s')) = boot_segments"
proof -
  let ?s = "tss_init_common a b c s"
  have g: "GDT_addr (sgdt ?s) = boot_segments @ [0, 0, 0, 0, 0, 0, 0, 0, 0, 0, 0]" "svm ?s = svm s"
    using tss_init_common_frame assms by simp_all
  have "find (\<lambda>i. GDT_addr (sgdt ?s) ! i = 0) [1..<length (GDT_addr (sgdt ?s))] = Some 5"
    unfolding g(1) by (simp add: boot_segments_def upt_rec)
  then have f: "gdt_free (sgdt ?s) 1 = Inr 5"
    using gdt_free_spec [of "sgdt ?s" 1] unfolding g(1) by (simp add: boot_segments_def)
  then show thesis
    using that g
    by (simp add: tss_init_def tss_init_cpu_def GDT_smartaput_def GDT_smartput_def GDT_put_def seg_consts CALC_SELECTOR_def boot_segments_def)
qed
lemma ktty_init_blank:
  assumes "length (video t) = 4000"
  obtains t' where "ktty_init t = Inr t'" and "ktty_ok t'" and "ktty_attribute t' = 7"
    and "view t' = (replicate 2000 (0, 0), 0)"
proof -
  let ?t = "t\<lparr>screen_base := SCREEN_START_COLOUR, ktty_attribute := 7, video := replicate 4000 0, screen_pos := 0\<rparr>"
  have "ktty_init t = Inr ?t" using ktty_clear_eq assms by (simp add: ktty_init_def)
  moreover have "cells ?t = replicate 2000 (0, 0)" by (intro nth_equalityI) (simp_all add: cells_nth)
  ultimately show thesis using that [of ?t] by (simp add: ktty_ok_def view_def)
qed

text \<open>Whatever is printed, the console stays in order; the text ends with the first zero byte.\<close>

lemma puts_any:
  assumes "ktty_ok t"
  obtains t' where "ktty_puts (bs @ [0]) t = Inr t'" and "ktty_ok t'"
proof -
  have "\<exists>cs rest. bs @ [0] = cs @ 0 # rest \<and> 0 \<notin> set cs"
    using split_list_first [of 0 "bs @ [0]"] by simp
  then obtain cs rest where "bs @ [0] = cs @ 0 # rest" "0 \<notin> set cs" by blast
  then show thesis using puts_prints [OF assms, of cs rest] that by auto
qed

section \<open>The first processor up to its new stack\<close>

text \<open>A machine that was just switched on: the static data hold zeros.\<close>

definition machine_on :: "machine \<Rightarrow> bool" where
  "machine_on m \<longleftrightarrow> GDT_addr (sgdt (procs (msys m))) = replicate 16 0 \<and> length (video (console (fsys (msys m)))) = 4000
     \<and> this_cpu (svm (procs (msys m))) = 0 \<and> cpu_ok 0 (irq (svm (procs (msys m))))
     \<and> intr_depth 0 (irq (svm (procs (msys m)))) = 0 \<and> length (IDT (irq (svm (procs (msys m))))) = 4096
     \<and> hdrs (kheap (svm (procs (msys m)))) 0 = None"

lemma setup_prefix:
  assumes "machine_on m"
  obtains m1 m2 p t where "on_gdt (GDT_init (gdt_at B)) m = Inr m1"
    and "on_sched (tss_init (tss_at B) (intr_stacks B) (fault_stacks B) (call_stacks B)) m1 = Inr m2"
    and "on_console ktty_init m2 = Inr (m\<lparr>msys := with_console t ((msys m)\<lparr>procs := p\<rparr>)\<rparr>)"
    and "svm p = svm (procs (msys m))" and "task_reg p 0 = Some 0x2B" and "take 5 (GDT_addr (sgdt p)) = boot_segments"
    and "ktty_ok t" and "ktty_attribute t = 7" and "view t = (replicate 2000 (0, 0), 0)"
proof -
  obtain r where g: "GDT_init (gdt_at B) (sgdt (procs (msys m))) = Inr ((sgdt (procs (msys m)))
      \<lparr>GDT_addr := boot_segments @ [0, 0, 0, 0, 0, 0, 0, 0, 0, 0, 0], g_gdtr := r\<rparr>)" (is "_ = Inr ?g")
    using GDT_init_zeros [of "sgdt (procs (msys m))"] assms unfolding machine_on_def by blast
  have "GDT_addr (sgdt ((procs (msys m))\<lparr>sgdt := ?g\<rparr>)) = boot_segments @ [0, 0, 0, 0, 0, 0, 0, 0, 0, 0, 0]" by simp
  then obtain p where p: "tss_init (tss_at B) (intr_stacks B) (fault_stacks B) (call_stacks B) ((procs (msys m))\<lparr>sgdt := ?g\<rparr>) = Inr p"
    "svm p = svm ((procs (msys m))\<lparr>sgdt := ?g\<rparr>)" "task_reg p 0 = Some 0x2B" "take 5 (GDT_addr (sgdt p)) = boot_segments"
    by (rule tss_init_boot)
  obtain t where t: "ktty_init (console (fsys (msys m))) = Inr t" "ktty_ok t" "ktty_attribute t = 7"
    "view t = (replicate 2000 (0, 0), 0)"
    using ktty_init_blank assms unfolding machine_on_def by blast
  show thesis
    by (rule that [of "m\<lparr>msys := (msys m)\<lparr>procs := (procs (msys m))\<lparr>sgdt := ?g\<rparr>\<rparr>\<rparr>" "m\<lparr>msys := (msys m)\<lparr>procs := p\<rparr>\<rparr>" t p])
      (use g p t in \<open>simp_all add: on_gdt_def on_sched_def on_console_def with_console_def\<close>)
qed

text \<open>
  Started by a boot loader that does not follow the Multiboot standard, the kernel touches neither page
  tables nor interrupts nor tasks: it returns -1 with the segments loaded and its complaint on an otherwise empty screen.
\<close>

theorem kernel_start_refuses:
  assumes "machine_on m" and "mb_magic \<noteq> 0x2BADB002"
  shows "\<exists>m'. kernel_start B mb_magic mb m = Inr (Inl (-1), m') \<and> svm (procs (msys m')) = svm (procs (msys m))
    \<and> view (console (fsys (msys m'))) = fold (print_char 7)
        (map of_char (''Sorry, this kernel relies heavily on information,'' @ [CHR 0x0A]
           @ ''provided by Multiboot-compiliant bootloader!'' @ [CHR 0x0A] @ ''System halted.'')) (replicate 2000 (0, 0), 0)"
proof -
  let ?a = "map of_char (''Sorry, this kernel relies heavily on information,'' @ [CHR 0x0A]) :: u8 list"
  let ?b = "map of_char (''provided by Multiboot-compiliant bootloader!'' @ [CHR 0x0A]) :: u8 list"
  let ?c = "map of_char ''System halted.'' :: u8 list"
  obtain m1 m2 p t where P: "on_gdt (GDT_init (gdt_at B)) m = Inr m1"
    "on_sched (tss_init (tss_at B) (intr_stacks B) (fault_stacks B) (call_stacks B)) m1 = Inr m2"
    "on_console ktty_init m2 = Inr (m\<lparr>msys := with_console t ((msys m)\<lparr>procs := p\<rparr>)\<rparr>)"
    "svm p = svm (procs (msys m))" "ktty_ok t" "ktty_attribute t = 7" "view t = (replicate 2000 (0, 0), 0)"
    by (rule setup_prefix [OF assms(1)])
  obtain t1 where t1: "ktty_puts (?a @ [0]) t = Inr t1" "ktty_ok t1" "view t1 = fold (print_char 7) ?a (view t)" "ktty_attribute t1 = 7"
    using puts_prints [OF P(5), of ?a "[]"] P(6) by auto
  obtain t2 where t2: "ktty_puts (?b @ [0]) t1 = Inr t2" "ktty_ok t2" "view t2 = fold (print_char 7) ?b (view t1)" "ktty_attribute t2 = 7"
    using puts_prints [OF t1(2), of ?b "[]"] t1(4) by auto
  obtain t3 where t3: "ktty_puts (?c @ [0]) t2 = Inr t3" "view t3 = fold (print_char 7) ?c (view t2)"
    using puts_prints [OF t2(2), of ?c "[]"] t2(4) by auto
  have say: "say bs (m\<lparr>msys := with_console u q\<rparr>) = Inr (m\<lparr>msys := with_console v q\<rparr>)" if "ktty_puts (bs @ [0]) u = Inr v" for bs u v q
    using that by (simp add: say_def on_console_def)
  have "kernel_start B mb_magic mb m = Inr (Inl (-1), m\<lparr>msys := with_console t3 ((msys m)\<lparr>procs := p\<rparr>)\<rparr>)"
    using assms(2) P(1-3) say [OF t1(1)] say [OF t2(1)] say [OF t3(1)]
    by (simp add: kernel_start_def kernel_setup_def MULTIBOOT_LOADER_MAGIC_def)
  moreover have "view t3 = fold (print_char 7) (?a @ ?b @ ?c) (replicate 2000 (0, 0), 0)"
    unfolding fold_append o_apply t3(2) t2(3) t1(3) P(7) ..
  moreover have "?a @ ?b @ ?c = map of_char (''Sorry, this kernel relies heavily on information,'' @ [CHR 0x0A]
      @ ''provided by Multiboot-compiliant bootloader!'' @ [CHR 0x0A] @ ''System halted.'')"
    by (simp only: map_append append_assoc)
  ultimately show ?thesis
    using P(4) by (intro exI [of _ "m\<lparr>msys := with_console t3 ((msys m)\<lparr>procs := p\<rparr>)\<rparr>"])
      (simp del: fold.simps list.map append.simps)
qed

text \<open>The frames that \<^verbatim>\<open>mem_init\<close> leaves free, counted by the memory map.\<close>

definition map_free :: "u64 \<Rightarrow> u64 \<Rightarrow> mmap_info list \<Rightarrow> nat set" where
  "map_free lst pl_size ms = {n. 256 \<le> n \<and> n < 256 * unat pl_size \<and> (\<exists>x \<in> set ms. unit_freed lst x (n div 64))}"

lemma map_free_available:
  assumes "phys_ok fr" and "npages fr = 256 * unat pl_size"
    and "\<forall>n < npages fr. busy fr n \<longleftrightarrow> \<not> (\<exists>x \<in> set ms. unit_freed lst x (n div 64))"
    and "k \<le> card (map_free lst pl_size ms)"
  shows "available k fr"
proof -
  have "free_frames fr = (\<lambda>n. of_nat (4096 * n)) ` map_free lst pl_size ms"
    using assms(2,3) by (auto simp: free_frames_def map_free_def simp del: of_nat_mult)
  moreover have "inj_on (\<lambda>n. of_nat (4096 * n) :: u64) (map_free lst pl_size ms)"
    using page_inj [OF assms(1)] assms(2) by (auto simp: inj_on_def map_free_def simp del: of_nat_mult)
  ultimately have "card (free_frames fr) = card (map_free lst pl_size ms)" by (simp add: card_image)
  then show ?thesis using available_card [OF assms(1)] assms(4) by simp
qed

text \<open>What the boot loader and the memory of the machine must be like; sizes in megabytes.\<close>

definition boot_size :: "multiboot_info \<Rightarrow> u64" where
  "boot_size MB = ucast (drop_bit 10 (mem_upper MB) + 2)"

definition boot_last :: "boot_env \<Rightarrow> u64" where
  "boot_last B = (kernel_end B AND 0x0FFFF000) + 0x5000 + of_nat (4096 * ((unat (boot_size (mb_info B)) + 127) div 128))"

definition sane_boot :: "boot_env \<Rightarrow> u64 \<Rightarrow> mmap_info list \<Rightarrow> mem \<Rightarrow> bool" where
  "sane_boot B mb ms m \<longleftrightarrow> idt_at B \<noteq> 0
     \<and> boot_layout ((kernel_end B AND 0x0FFFF000) + 0x1000) (boot_size (mb_info B)) mb (mb_info B)
     \<and> mmap_at (mb_map B) ((KBASE OR ucast (mmap_addr (mb_info B))) + ucast (mmap_length (mb_info B)))
         (KBASE OR ucast (mmap_addr (mb_info B))) ms
     \<and> boot_ram ((kernel_end B AND 0x0FFFF000) + 0x1000) (boot_last B) (boot_size (mb_info B)) ms m
     \<and> 16 \<le> card (map_free (boot_last B) (boot_size (mb_info B)) ms)"

text \<open>The state in which \<^verbatim>\<open>kernel_run\<close> begins: page tables and heap in order, the stack mapped to four frames, interrupts on.\<close>

definition kernel_ready :: "boot_env \<Rightarrow> machine \<Rightarrow> bool" where
  "kernel_ready B m \<longleftrightarrow> (let v = svm (procs (msys m)) in
     vm_ok v \<and> heap_inv (kheap v) \<and> heap_live (kheap v) = {}
     \<and> (\<exists>ps. length ps = 4 \<and> distinct ps
          \<and> (\<forall>j < 4. translate v (kernel_stack_new + of_nat (4096 * j)) = Some (calc_page (ps ! j))))
     \<and> idtr (irq v) 0 = Some (4095, idt_at B)
     \<and> gate_func (gate_at (IDT (irq v)) 0x20) = timer_intr (isrs B) \<and> gate_func (gate_at (IDT (irq v)) 0x21) = kbd_intr (isrs B)
     \<and> gate_func (gate_at (IDT (irq v)) 0x0E) = page_fault (isrs B)
     \<and> gate_func (gate_at (IDT (irq v)) 0x80) = handlers.syscall_handler (isrs B)
     \<and> iflag (irq v) 0 \<and> task_reg (procs (msys m)) 0 = Some 0x2B
     \<and> take 5 (GDT_addr (sgdt (procs (msys m)))) = boot_segments \<and> ktty_ok (console (fsys (msys m))))"

lemma stack_outside: "outside_window (kernel_stack_new + of_nat (4096 * j))" if "j < 4"
proof -
  have "j = 0 \<or> j = 1 \<or> j = 2 \<or> j = 3" using that by linarith
  then show ?thesis
    by (auto simp: outside_window_def kernel_stack_new_def lin_path_window)
      (simp_all add: lin_path_def lin_pml4_def lin_pdp_def lin_pd_def lin_pt_def)
qed

lemma mem_and_stack:
  assumes "sane_boot B mb ms (pmem v)" and "irq_ok v" and "hdrs (kheap v) 0 = None"
  obtains M w u ps where "mem_init (kernel_end B) (boot_size (mb_info B)) mb (mb_info B) (mb_map B) v = Inr (M, w)"
    and "alloc_pages kernel_stack_new STACK_SIZE w = Inr u" and "vm_ok u" and "heap_inv (kheap u)" and "heap_live (kheap u) = {}"
    and "length ps = 4" and "distinct ps"
    and "\<forall>j < 4. translate u (kernel_stack_new + of_nat (4096 * j)) = Some (calc_page (ps ! j))"
    and "this_cpu u = this_cpu v" and "intr_sema (irq u) = intr_sema (irq v)" and "IDT (irq u) = IDT (irq v)"
    and "idtr (irq u) = idtr (irq v)" and "flag_ok u"
proof -
  have sb: "boot_layout ((kernel_end B AND 0x0FFFF000) + 0x1000) (boot_size (mb_info B)) mb (mb_info B)"
    "mmap_at (mb_map B) ((KBASE OR ucast (mmap_addr (mb_info B))) + ucast (mmap_length (mb_info B)))
       (KBASE OR ucast (mmap_addr (mb_info B))) ms"
    "boot_ram ((kernel_end B AND 0x0FFFF000) + 0x1000) (boot_last B) (boot_size (mb_info B)) ms (pmem v)"
    "16 \<le> card (map_free (boot_last B) (boot_size (mb_info B)) ms)"
    using assms(1) by (auto simp: sane_boot_def)
  obtain M w L lst f where r: "mem_init (kernel_end B) (boot_size (mb_info B)) mb (mb_info B) (mb_map B) v = Inr (M, w)"
    and L: "L = (kernel_end B AND 0x0FFFF000) + 0x1000"
    and lst: "lst = (kernel_end B AND 0x0FFFF000) + 0x5000 + of_nat (4096 * ((unat (boot_size (mb_info B)) + 127) div 128))"
    and fr: "phys_ok (frames w)" "npages (frames w) = 256 * unat (boot_size (mb_info B))"
      "\<forall>n < npages (frames w). busy (frames w) n \<longleftrightarrow> \<not> (\<exists>x \<in> set ms. unit_freed lst x (n div 64))"
    and h: "heap_inv (kheap w)" "heap_live (kheap w) = {}"
    and bt: "boot_tables L w" "low_frame L" "boot_image L (pmem v) (pmem w)"
    and q: "irq w = (irq v)\<lparr>iflag := f\<rparr>" "f (this_cpu v) = (intr_depth (this_cpu v) (irq v) = 0)" "this_cpu w = this_cpu v"
    by (rule mem_init_ok [OF sb(1) assms(2) sb(2) assms(3)]) (rule that, assumption+)
  have lst: "lst = boot_last B" using lst by (simp only: boot_last_def)
  have ok: "vm_ok w"
    by (rule boot_vm_ok [OF bt _ fr]) (use sb(3) in \<open>simp only: L lst\<close>)
  have av: "available (4 * 4) (frames w)"
    using map_free_available [OF fr] sb(4) lst by simp
  have a: "page_aligned kernel_stack_new" "4096 * 4 < unat STACK_SIZE + 4096" "unat STACK_SIZE \<le> 4096 * 4"
    by (simp_all add: page_aligned_def kernel_stack_new_def STACK_SIZE_def)
  obtain ps u where u: "alloc_pages kernel_stack_new STACK_SIZE w = Inr u" "vm_ok u" "length ps = 4" "distinct ps"
    "\<forall>j < 4. translate u (kernel_stack_new + of_nat (4096 * j)) = Some (calc_page (ps ! j))" "keeps w u"
    using alloc_pages_ok [OF ok av a(1) _ _ a(2,3)] stack_outside by (auto simp del: of_nat_mult)
  have "flag_ok w" using q by (simp add: flag_ok_def intr_depth_def)
  then have k: "kheap u = kheap w" "this_cpu u = this_cpu v" "intr_sema (irq u) = intr_sema (irq v)" "IDT (irq u) = IDT (irq v)"
    "idtr (irq u) = idtr (irq v)" "flag_ok u"
    using u(6) q by (auto simp: keeps_def)
  show thesis
    by (rule that [OF r u(1,2) _ _ u(3-5) k(2-6)]) (use h k(1) in simp_all)
qed


text \<open>
  The keyboard interrupt prints the scan code as a character, sets the lowest bit of the controller's status
  port by reading it and writing it back, and only then tells the interrupt controller that it is done.
\<close>

theorem kbd_handler_echoes:
  assumes "ktty_ok (console (fsys (msys m)))" and "lapic_addr (mapic m) \<noteq> 0"
  shows "\<exists>m'. kbd_handler B m = Inr m'
    \<and> (let h = ports (irq (svm (procs (msys m)))); c = dev B h 0x60; r = dev B (h @ [In 0x60 c]) 0x61 in
        view (console (fsys (msys m'))) = print_char (ktty_attribute (console (fsys (msys m)))) c (view (console (fsys (msys m))))
        \<and> ports (irq (svm (procs (msys m')))) = h @ [In 0x60 c, In 0x61 r, Out 0x61 (r OR 1)]
        \<and> mmio (mapic m') = mmio (mapic m) @ [MWr (lapic_addr (mapic m)) 0x2C 0])"
proof -
  let ?h = "ports (irq (svm (procs (msys m))))"
  obtain t where t: "ktty_putc (dev B ?h 0x60) (console (fsys (msys m))) = Inr t"
    "view t = print_char (ktty_attribute (console (fsys (msys m)))) (dev B ?h 0x60) (view (console (fsys (msys m))))"
    using putc_step [OF assms(1)] by blast
  then show ?thesis
    using assms(2)
    by (simp add: kbd_handler_def inb_def outb_def on_console_def on_intr_def on_vm_def on_sched_def in_vm_def on_apic_def
        apic_eoi_def lapic_wr_def reg_wr_def with_console_def Let_def)
qed

section \<open>Listing the devices\<close>

lemma devfs_readdir_frame:
  assumes "devfs_readdir E node i s = Inr (d, s')"
  shows "fnodes s' = fnodes s \<and> nod_cnt s' = nod_cnt s \<and> (unat i \<ge> nod_cnt s \<longrightarrow> d = int_u64 (EINVAL E))"
  using assms
  by (auto simp: devfs_readdir_def vfs_alloc_dirent_def fs_kmalloc_def rbind_eq_Inr split: if_splits option.splits)

lemma readdir_devices:
  assumes "dir \<noteq> 0" and "fnodes s dir = Some n"
    and "flags n AND VFS_DIRECTORY \<noteq> 0" and "flags n AND VFS_MOUNTPOINT = 0" and "drv n = DevfsDrv"
  shows "vfs_readdir DEPTH E rd dir i s = devfs_readdir E dir i s"
proof -
  obtain k where "DEPTH = Suc k" by (cases DEPTH) (simp_all add: DEPTH_def)
  then have "vfs_readdir DEPTH E rd dir i s = vfs_readdir (Suc k) E rd dir i s" by (rule arg_cong)
  also have "\<dots> = devfs_readdir E dir i s" using assms by (simp add: node_at_def)
  finally show ?thesis .
qed

lemma index_value: "unat (int_u64 (of_nat i)) = i" if "i < 2 ^ 31"
proof -
  have "(ucast (of_nat i :: u64) :: u32) = of_nat i"
    using that by (simp add: word_unat_eq_iff unsigned_ucast_eq unat_of_nat take_bit_nat_def)
  then show ?thesis using int_u64_small [of "of_nat i"] that by (simp add: unat_of_nat)
qed

lemma print_loop_ends:
  assumes "i \<le> nod_cnt s" and "nod_cnt s < 2 ^ 31" and "dir \<noteq> 0" and "fnodes s dir = Some n"
    and "flags n AND VFS_DIRECTORY \<noteq> 0" and "flags n AND VFS_MOUNTPOINT = 0" and "drv n = DevfsDrv"
  shows "print_loop B dir (of_nat i) s \<noteq> None"
  using assms(1,2,4)
proof (induction "nod_cnt s - i" arbitrary: i s)
  case 0
  then have i: "unat (int_u64 (of_nat i)) = nod_cnt s"
    using index_value [of i] by simp
  have "vfs_readdir DEPTH (fs_errs B) (vfs_read DEPTH (fs_errs B)) dir (int_u64 (of_nat i)) s = Inr (int_u64 (EINVAL (fs_errs B)), s)"
    using readdir_devices [OF assms(3) "0.prems"(3) assms(5-7)] i by (simp add: devfs_readdir_def)
  then show ?case by (subst print_loop.simps) simp
next
  case (Suc k)
  let ?r = "vfs_readdir DEPTH (fs_errs B) (vfs_read DEPTH (fs_errs B)) dir (int_u64 (of_nat i)) s"
  have r: "?r = devfs_readdir (fs_errs B) dir (int_u64 (of_nat i)) s"
    by (rule readdir_devices [OF assms(3) Suc.prems(3) assms(5-7)])
  have nx: "(of_nat i :: u32) + 1 = of_nat (Suc i)" by simp
  show ?case
  proof (cases ?r)
    case (Inl e)
    then show ?thesis by (subst print_loop.simps) simp
  next
    case (Inr x)
    obtain d s1 where x: "x = (d, s1)" by (cases x)
    have f: "fnodes s1 = fnodes s" "nod_cnt s1 = nod_cnt s"
      using devfs_readdir_frame [of "fs_errs B" dir "int_u64 (of_nat i)" s d s1] Inr x r by auto
    have "print_loop B dir (of_nat (Suc i)) s2 \<noteq> None" if "fnodes s2 = fnodes s" "nod_cnt s2 = nod_cnt s" for s2
      using Suc.hyps(1) [of s2 "Suc i"] Suc.hyps(2) Suc.prems that by auto
    moreover have "fnodes s2 = fnodes s \<and> nod_cnt s2 = nod_cnt s"
      if "rbind (ktty_puts cs (console s1)) (\<lambda>t. fs_kfree d (s1\<lparr>console := t\<rparr>)) = Inr s2" for cs s2
      using that f by (auto simp: fs_kfree_def rbind_eq_Inr)
    ultimately show ?thesis
      using Inr x unfolding nx [symmetric]
      by (subst print_loop.simps) (auto split: option.splits sum.splits)
  qed
qed

text \<open>
  The listing of the directory of devices always ends, whatever the nodes are called and whatever the heap
  holds: \<^verbatim>\<open>fs_print_dir\<close> leaves its loop at the latest when \<^verbatim>\<open>devfs_readdir\<close> answers \<^verbatim>\<open>EINVAL\<close> behind the last node.
\<close>

theorem print_dir_ends:
  assumes "nod_cnt s \<le> MAXNODES" and "dir \<noteq> 0" and "fnodes s dir = Some n"
    and "flags n AND VFS_DIRECTORY \<noteq> 0" and "flags n AND VFS_MOUNTPOINT = 0" and "drv n = DevfsDrv"
  shows "print_loop B dir 0 s \<noteq> None"
  using print_loop_ends [of 0 s dir n B] assms by (simp add: MAXNODES_def)

section \<open>Witnesses\<close>

text \<open>A machine with 16 megabytes, its kernel at one megabyte, and a keyboard on which \<^verbatim>\<open>A\<close> is held down.\<close>

definition demo_machine :: machine where
  "demo_machine = \<lparr>msys = demo_elf_sys\<lparr>procs := demo_sched\<lparr>svm := demo_vm\<rparr>\<rparr>,
     mapic = \<lparr>lapic_addr = 0xFFFFFFFFC00F0000, lapic_hw_addr = 0, ioapic_addr = 0, quantum = 10, apic_divisor = 0, cpu_nr = 1,
       mmio = [], msr = (\<lambda>_. (0, 0)), avm = demo_vm, acon = demo_ktty\<rparr>,
     mvesa = vesa_start demo_vm, glob = \<lparr>root = 0, dfs = 0, tty_node = 0\<rparr>\<rparr>"

definition demo_boot :: boot_env where
  "demo_boot = \<lparr>dev = (\<lambda>h p. if p = 0x60 then 65 else 0), mm = (\<lambda>h b i. 0),
     isrs = \<lparr>timer_intr = 1, kbd_intr = 2, page_fault = 3, syscall_handler = 4\<rparr>, spur_isr = 5, gdt_at = 0x110000, idt_at = 0x111000,
     tss_at = 0x112000, intr_stacks = 0x120000, fault_stacks = 0x130000, call_stacks = 0x140000, kernel_end = 0x100000,
     mb_info = demo_mb, mb_map = [0xFFFFFFFFC000A000 \<mapsto> area_7mb], low_mem = (\<lambda>_. 0), fs_errs = demo_env, stack_buf = 0x90000,
     loader = demo_elf_env, junk_task = demo_task 0 0, fork_regs = zero_regs, font_data = (\<lambda>_. 0), font_text = [],
     format_d = (\<lambda>f xs. map of_char f), format_s = (\<lambda>f x. map of_char f @ x)\<rparr>"

lemma demo_machine_on: "machine_on demo_machine"
  by (simp add: machine_on_def demo_machine_def demo_elf_sys_def demo_sched_def demo_fs_def demo_ktty_def demo_vm_def demo_intr_def
      cpu_ok_def intr_depth_def MAX_CPU_NR_def)

lemma demo_sane: "sane_boot demo_boot 0x9000 [area_7mb] (pmem (svm (procs (msys demo_machine))))"
proof -
  have z: "boot_size (mb_info demo_boot) = 16" "boot_last demo_boot = 0x106000"
    by (simp_all add: boot_last_def boot_size_def demo_boot_def demo_mb_def)
  have u: "unit_freed 0x106000 area_7mb u \<longleftrightarrow> 5 \<le> u \<and> u < 33" for u
    by (simp add: unit_freed_def area_7mb_def mmap_base_def)
  have "{320..<336} \<subseteq> map_free 0x106000 16 [area_7mb]"
  proof
    fix n :: nat assume "n \<in> {320..<336}"
    then have "320 \<le> n" "n < 336" by (simp_all only: atLeastLessThan_iff)
    moreover from this have "n div 64 = 5" by linarith
    ultimately show "n \<in> map_free 0x106000 16 [area_7mb]" by (simp add: map_free_def u)
  qed
  moreover have "finite (map_free 0x106000 16 [area_7mb])" by (simp add: map_free_def)
  ultimately have "card {320..<336::nat} \<le> card (map_free 0x106000 16 [area_7mb])" by (rule card_mono [rotated])
  then have "16 \<le> card (map_free 0x106000 16 [area_7mb])" by (simp only: card_atLeastLessThan)
  then show ?thesis
    using demo_layout demo_mmap demo_boot_ram unfolding sane_boot_def z
    by (simp add: demo_boot_def demo_machine_def demo_vm_sel)
qed

theorem kernel_start_refuses_witness:
  "\<exists>m'. kernel_start demo_boot 0 0x9000 demo_machine = Inr (Inl (-1), m')"
  using kernel_start_refuses [OF demo_machine_on, of 0 demo_boot "0x9000"] by auto


theorem kbd_handler_echoes_witness:
  "\<exists>m'. kbd_handler demo_boot demo_machine = Inr m' \<and> ports (irq (svm (procs (msys m')))) = [In 0x60 65, In 0x61 0, Out 0x61 1]
     \<and> mmio (mapic m') = [MWr 0xFFFFFFFFC00F0000 0x2C 0]"
proof -
  have "ktty_ok (console (fsys (msys demo_machine)))" "lapic_addr (mapic demo_machine) = 0xFFFFFFFFC00F0000"
    "mmio (mapic demo_machine) = []" "ports (irq (svm (procs (msys demo_machine)))) = []"
    using demo_ktty_ok by (simp_all add: demo_machine_def demo_elf_sys_def demo_fs_def demo_vm_def demo_intr_def)
  then show ?thesis
    using kbd_handler_echoes [of demo_machine demo_boot] by (auto simp: Let_def demo_boot_def)
qed

theorem print_dir_ends_witness:
  "print_loop demo_boot 0x5000 0 (demo_fs\<lparr>fnodes := [0x5000 \<mapsto> zero_node\<lparr>drv := DevfsDrv, flags := VFS_DIRECTORY\<rparr>]\<rparr>) \<noteq> None"
  using print_dir_ends [of "demo_fs\<lparr>fnodes := [0x5000 \<mapsto> zero_node\<lparr>drv := DevfsDrv, flags := VFS_DIRECTORY\<rparr>]\<rparr>" "0x5000"
      "zero_node\<lparr>drv := DevfsDrv, flags := VFS_DIRECTORY\<rparr>" demo_boot]
  by (simp add: demo_fs_def MAXNODES_def vfs_flags)

end
