(* ===== verification/Cpus.thy ===== *)
theory Cpus
  imports Kernel
begin

text \<open>
  Tasks of several processors (\<^verbatim>\<open>task_init\<close> and \<^verbatim>\<open>task_init_cpu\<close> of \<^verbatim>\<open>kernel/task.c\<close> on top of heap and paging): the first
  task forms a ring of its own; the task of another processor joins the ring behind the current task of
  the first one. Both map the page of thread-local storage at the same address of the same tables.
\<close>

lemma tls_page:
  assumes "vm_ok v" and "available (4 + k) (frames v)"
  obtains w f where "alloc_pages_user TLS_ADDR 4 v = Inr w" and "vm_ok w" and "available k (frames w)" and "keeps v w"
    and "f \<notin> used_frames (frames v)" and "translate w TLS_ADDR = Some (user_page f)"
proof -
  have o: "outside_window (TLS_ADDR + of_nat (4096 * j))" if "j < 1" for j
    using that by (simp add: outside_window_def lin_path_window TLS_ADDR_def)
      (simp add: lin_path_def lin_pml4_def lin_pdp_def lin_pd_def lin_pt_def)
  have a: "available (4 * 1 + k) (frames v)" "page_aligned TLS_ADDR" "4096 * 1 < unat (4 :: u64) + 4096" "unat (4 :: u64) \<le> 4096 * 1"
    using assms(2) by (simp_all add: page_aligned_def TLS_ADDR_def)
  obtain w where w: "alloc_pages_user TLS_ADDR 4 v = Inr w" "vm_ok w" "available k (frames w)" "keeps v w"
    "\<And>j. j < 1 \<Longrightarrow> \<exists>p. p \<notin> used_frames (frames v) \<and> translate w (TLS_ADDR + of_nat (4096 * j)) = Some (user_page p)"
    by (rule alloc_pages_user_ok [where n = 1, OF assms(1) a(1,2) _ o a(3,4)]) auto
  from w(5) [of 0] show thesis using that w(1-4) by auto
qed

text \<open>Before and after the creation of a task: interrupts are off while the heap and the tables are changed.\<close>

lemma guarded_task:
  assumes "vm_ok (svm s)" and "intr_depth (this_cpu (svm s)) (irq (svm s)) < 254" and "available 4 (frames (svm s))"
    and "kmalloc SIZEOF_TASK (kheap (svm s)) = Inr (p, H)"
  obtains w u v f where "irq_off (svm s) = Inr w" and "kmalloc SIZEOF_TASK (kheap w) = Inr (p, H)"
    and "alloc_pages_user TLS_ADDR 4 (w\<lparr>kheap := H\<rparr>) = Inr u" and "irq_on u = Inr v" and "vm_ok v"
    and "f \<notin> used_frames (frames (svm s))" and "translate v TLS_ADDR = Some (user_page f)"
proof -
  obtain w where w: "irq_off (svm s) = Inr w" "vm_ok w" "kheap w = kheap (svm s)" "frames w = frames (svm s)"
    "0 < intr_depth (this_cpu w) (irq w)"
    by (rule irq_off_ok [OF assms(1,2)])
  have k: "vm_ok (w\<lparr>kheap := H\<rparr>)" using w(2) by (simp add: vm_ok_def tables_ok_def Page.root_def)
  have av: "available (4 + 0) (frames (w\<lparr>kheap := H\<rparr>))" using assms(3) w(4) by simp
  obtain u f where u: "alloc_pages_user TLS_ADDR 4 (w\<lparr>kheap := H\<rparr>) = Inr u" "vm_ok u" "keeps (w\<lparr>kheap := H\<rparr>) u"
    "f \<notin> used_frames (frames (svm s))" "translate u TLS_ADDR = Some (user_page f)"
    by (rule tls_page [OF k av]) (use w(4) in auto)
  have "0 < intr_depth (this_cpu u) (irq u)" using u(3) w(5) by (auto simp: keeps_def intr_depth_def)
  then obtain v where v: "irq_on u = Inr v" "vm_ok v" "\<And>a. translate v a = translate u a"
    by (rule irq_on_ok [OF u(2)]) blast
  show thesis
    by (rule that [OF w(1) _ u(1) v(1,2) u(4)]) (use assms(4) w(3) v(3) u(5) in \<open>simp_all add: heap_alloc_def\<close>)
qed

text \<open>Both functions, with the results of the calls in them.\<close>

lemma task_init_eq:
  assumes "irq_off (svm s) = Inr w" and "kmalloc SIZEOF_TASK (kheap w) = Inr (p, H)" and "p \<noteq> 0" and "0 < length (curr s)"
  shows "task_init junk s =
    rbind (alloc_pages_user TLS_ADDR 4 (w\<lparr>kheap := H\<rparr>)) (\<lambda>u. rbind (irq_on u) (\<lambda>v. Inr (s
      \<lparr>curr := (curr s)[0 := p], next_pid := next_pid s + 1, tasks := (tasks s)(p \<mapsto> junk\<lparr>pid := next_pid s, regs := zero_regs,
         next_task := p, state := TASK_RUNNING, tls := TLS_ADDR, files := replicate MAX_OPEN_FILES 0\<rparr>), svm := v\<rparr>)))"
  using assms
  by (simp add: task_init_def in_vm_def in_vm_val_def heap_alloc_def set_curr_def put_task_def Let_def rbind_assoc)

lemma task_init_cpu_eq:
  assumes "irq_off (svm s) = Inr w" and "kmalloc SIZEOF_TASK (kheap w) = Inr (p, H)" and "p \<noteq> 0" and "0 < cpu"
    and "cpu < length (curr s)" and "tasks s (curr s ! 0) = Some ct" and "p \<noteq> curr s ! 0"
  shows "task_init_cpu cpu junk s =
    rbind (alloc_pages_user TLS_ADDR 4 (w\<lparr>kheap := H\<rparr>)) (\<lambda>u. rbind (irq_on u) (\<lambda>v. Inr (s
      \<lparr>curr := (curr s)[cpu := p], next_pid := next_pid s + 1, tasks := (tasks s)(curr s ! 0 \<mapsto> ct\<lparr>next_task := p\<rparr>,
         p \<mapsto> junk\<lparr>pid := next_pid s, regs := zero_regs, state := TASK_RUNNING, tls := TLS_ADDR,
                next_task := next_task ct, files := replicate MAX_OPEN_FILES 0\<rparr>), svm := v\<rparr>)))"
proof -
  have i: "(curr s)[cpu := p] ! 0 = curr s ! 0" "0 < length (curr s)" using assms(4,5) by auto
  have m: "(tasks s)(p \<mapsto> x, p \<mapsto> y, curr s ! 0 \<mapsto> z, p \<mapsto> w) = (tasks s)(curr s ! 0 \<mapsto> z, p \<mapsto> w)" for x y z w
    using assms(7) by (auto simp: fun_eq_iff)
  show ?thesis
    using assms(1-3,5-7) i m
    by (simp add: task_init_cpu_def in_vm_def in_vm_val_def heap_alloc_def set_curr_def get_curr_def task_at_def put_task_def
        Let_def rbind_assoc)
qed

text \<open>
  The first task: \<^verbatim>\<open>task_init\<close> leaves processor 0 with a running task that is linked to itself, has no open
  files and its thread-local storage in a fresh page.
\<close>

theorem task_init_ring:
  assumes "vm_ok (svm s)" and "intr_depth (this_cpu (svm s)) (irq (svm s)) < 254" and "available 4 (frames (svm s))"
    and "kmalloc SIZEOF_TASK (kheap (svm s)) = Inr (p, H)" and "p \<noteq> 0" and "0 < length (curr s)"
  shows "\<exists>s' t f. task_init junk s = Inr s' \<and> ring (tasks s') [p] \<and> curr s' ! 0 = p \<and> tasks s' p = Some t
    \<and> state t = TASK_RUNNING \<and> pid t = next_pid s \<and> next_pid s' = next_pid s + 1 \<and> files t = replicate 16 0
    \<and> vm_ok (svm s') \<and> f \<notin> used_frames (frames (svm s)) \<and> translate (svm s') TLS_ADDR = Some (user_page f)"
proof -
  obtain w u v f where G: "irq_off (svm s) = Inr w" "kmalloc SIZEOF_TASK (kheap w) = Inr (p, H)"
    "alloc_pages_user TLS_ADDR 4 (w\<lparr>kheap := H\<rparr>) = Inr u" "irq_on u = Inr v" "vm_ok v"
    "f \<notin> used_frames (frames (svm s))" "translate v TLS_ADDR = Some (user_page f)"
    by (rule guarded_task [OF assms(1-4)])
  from task_init_eq [OF G(1,2) assms(5,6), of junk] G(3-7) show ?thesis
    using assms(5,6) by (simp add: MAX_OPEN_FILES_def) blast
qed

text \<open>A task that is linked in behind the first one of a ring.\<close>

lemma ring_insert:
  assumes "ring m (c # qs)" and "p \<notin> set (c # qs)" and "p \<noteq> 0" and "m c = Some ct"
    and "m' c = Some (ct\<lparr>next_task := p\<rparr>)" and "m' p = Some t" and "next_task t = next_task ct"
    and "\<And>x. x \<in> set qs \<Longrightarrow> m' x = m x"
  shows "ring m' (c # p # qs)"
proof -
  have r: "links m c qs c" "distinct (c # qs)" "0 \<notin> set (c # qs)" using assms(1) by auto
  have "links m' p qs c"
  proof (cases qs)
    case Nil
    then show ?thesis using r(1) assms(4,6,7) by simp
  next
    case (Cons q rs)
    then have "links m q rs c" "next_task ct = q" using r(1) assms(4) by auto
    moreover have "links m' q rs c = links m q rs c"
      by (rule links_cong) (use assms(8) Cons in auto)
    ultimately show ?thesis using Cons assms(6,7) by simp
  qed
  then show ?thesis using assms(2,3,5) r(2,3) by auto
qed

text \<open>
  The well-formedness of the task ring: the task that \<^verbatim>\<open>task_init_cpu\<close> creates for another processor is linked
  into the ring behind the task of processor 0, and all other tasks keep their place. Its page of
  thread-local storage replaces whatever was mapped at that address before, since the tables of the first
  processor are changed and not those that the new processor has loaded.
\<close>

theorem task_init_cpu_joins:
  assumes "vm_ok (svm s)" and "intr_depth (this_cpu (svm s)) (irq (svm s)) < 254" and "available 4 (frames (svm s))"
    and "kmalloc SIZEOF_TASK (kheap (svm s)) = Inr (p, H)" and "p \<noteq> 0" and "ring (tasks s) (c # qs)" and "p \<notin> set (c # qs)"
    and "0 < cpu" and "cpu < length (curr s)" and "curr s ! 0 = c"
  shows "\<exists>s' f. task_init_cpu cpu junk s = Inr s' \<and> ring (tasks s') (c # p # qs) \<and> curr s' = (curr s)[cpu := p]
    \<and> map_option pid (tasks s' p) = Some (next_pid s) \<and> (\<forall>x. x \<noteq> p \<and> x \<noteq> c \<longrightarrow> tasks s' x = tasks s x)
    \<and> vm_ok (svm s') \<and> f \<notin> used_frames (frames (svm s)) \<and> translate (svm s') TLS_ADDR = Some (user_page f)"
proof -
  obtain w u v f where G: "irq_off (svm s) = Inr w" "kmalloc SIZEOF_TASK (kheap w) = Inr (p, H)"
    "alloc_pages_user TLS_ADDR 4 (w\<lparr>kheap := H\<rparr>) = Inr u" "irq_on u = Inr v" "vm_ok v"
    "f \<notin> used_frames (frames (svm s))" "translate v TLS_ADDR = Some (user_page f)"
    by (rule guarded_task [OF assms(1-4)])
  obtain ct where ct: "tasks s c = Some ct" using links_dom [of "tasks s" c qs c c] assms(6) by auto
  have pc: "p \<noteq> c" using assms(7) by auto
  let ?t = "junk\<lparr>pid := next_pid s, regs := zero_regs, state := TASK_RUNNING, tls := TLS_ADDR,
    next_task := next_task ct, files := replicate 16 0\<rparr>"
  let ?m = "(tasks s)(c \<mapsto> ct\<lparr>next_task := p\<rparr>, p \<mapsto> ?t)"
  from task_init_cpu_eq [OF G(1,2) assms(5,8,9), of ct junk] have "task_init_cpu cpu junk s
      = Inr (s\<lparr>curr := (curr s)[cpu := p], next_pid := next_pid s + 1, tasks := ?m, svm := v\<rparr>)"
    using G(3,4) ct pc assms(10) by (simp add: MAX_OPEN_FILES_def)
  moreover have "ring ?m (c # p # qs)"
    by (rule ring_insert [where t = ?t, OF assms(6,7,5) ct]) (use assms(6,7) pc in auto)
  ultimately show ?thesis using G(5-7) by auto
qed

section \<open>Witnesses\<close>

lemma demo_task_block:
  obtains H where "kmalloc SIZEOF_TASK boot_heap = Inr (0xFFFFFFFFC0200010, H)"
  using kmalloc_found [OF boot_heap_rep(1), of 285 0 "[(285, False), (0x3FDFFEC3, True)]"]
  by (auto simp: boot_heap_rep split_chunk_def chunk_at_def)

lemma demo_sched_sel: "svm demo_sched = demo_vm_heap" "curr demo_sched ! 0 = 0x1000" "length (curr demo_sched) = 16"
    "intr_depth (this_cpu demo_vm_heap) (irq demo_vm_heap) < 254" "available 4 (frames demo_vm)"
  using available_mono [OF demo_available, of 4]
  by (simp_all add: demo_sched_def demo_heap_ok) (simp_all add: demo_vm_heap_def demo_vm_def intr_depth_def demo_intr_def)

theorem task_init_ring_witness:
  "\<exists>s'. task_init (demo_task 0 0) demo_sched = Inr s' \<and> ring (tasks s') [0xFFFFFFFFC0200010]"
proof -
  obtain H where "kmalloc SIZEOF_TASK boot_heap = Inr (0xFFFFFFFFC0200010, H)" by (rule demo_task_block)
  then have "\<exists>s' t f. task_init (demo_task 0 0) demo_sched = Inr s' \<and> ring (tasks s') [0xFFFFFFFFC0200010]
    \<and> curr s' ! 0 = 0xFFFFFFFFC0200010 \<and> tasks s' 0xFFFFFFFFC0200010 = Some t
    \<and> state t = TASK_RUNNING \<and> pid t = next_pid demo_sched \<and> next_pid s' = next_pid demo_sched + 1 \<and> files t = replicate 16 0
    \<and> vm_ok (svm s') \<and> f \<notin> used_frames (frames (svm demo_sched)) \<and> translate (svm s') TLS_ADDR = Some (user_page f)"
    by (intro task_init_ring) (simp_all add: demo_sched_sel demo_heap_ok)
  then show ?thesis by blast
qed

theorem task_init_cpu_joins_witness:
  "\<exists>s'. task_init_cpu 2 (demo_task 0 0) demo_sched = Inr s' \<and> ring (tasks s') [0x1000, 0xFFFFFFFFC0200010, 0x2000, 0x3000]"
proof -
  obtain H where H: "kmalloc SIZEOF_TASK boot_heap = Inr (0xFFFFFFFFC0200010, H)" by (rule demo_task_block)
  have "\<exists>s' f. task_init_cpu 2 (demo_task 0 0) demo_sched = Inr s' \<and> ring (tasks s') (0x1000 # 0xFFFFFFFFC0200010 # [0x2000, 0x3000])
    \<and> curr s' = (curr demo_sched)[2 := 0xFFFFFFFFC0200010]
    \<and> map_option pid (tasks s' 0xFFFFFFFFC0200010) = Some (next_pid demo_sched)
    \<and> (\<forall>x. x \<noteq> 0xFFFFFFFFC0200010 \<and> x \<noteq> 0x1000 \<longrightarrow> tasks s' x = tasks demo_sched x)
    \<and> vm_ok (svm s') \<and> f \<notin> used_frames (frames (svm demo_sched)) \<and> translate (svm s') TLS_ADDR = Some (user_page f)"
    by (intro task_init_cpu_joins) (use H demo_sched_ring in \<open>simp_all add: demo_sched_sel demo_heap_ok\<close>)
  then show ?thesis by blast
qed

section \<open>Loaded tables\<close>

text \<open>
  The register \<^verbatim>\<open>cr3\<close> of the running processor, set to \<open>c\<close>, has no influence on \<^verbatim>\<open>mount_page_do\<close>: new
  mappings go into the table \<^verbatim>\<open>PML4\<close> of the boot and not into the tables of the running task.
\<close>

lemma cr3_out: "s\<lparr>cr3 := c, irq := q\<rparr> = s\<lparr>irq := q, cr3 := c\<rparr>" "s\<lparr>cr3 := c, frames := f\<rparr> = s\<lparr>frames := f, cr3 := c\<rparr>"
  "s\<lparr>cr3 := c, pmem := m\<rparr> = s\<lparr>pmem := m, cr3 := c\<rparr>"
  by simp_all

lemma irq_cr3: "irq_off (s\<lparr>cr3 := c\<rparr>) = rbind (irq_off s) (\<lambda>s. Inr (s\<lparr>cr3 := c\<rparr>))"
  "irq_on (s\<lparr>cr3 := c\<rparr>) = rbind (irq_on s) (\<lambda>s. Inr (s\<lparr>cr3 := c\<rparr>))"
  by (simp_all add: irq_off_def irq_on_def rbind_assoc cr3_out)

lemma win_cr3: "kpt_slot (s\<lparr>cr3 := c\<rparr>) = kpt_slot s" "win i (s\<lparr>cr3 := c\<rparr>) = win i s" "win_read i (s\<lparr>cr3 := c\<rparr>) = win_read i s"
  "pwrite a v (s\<lparr>cr3 := c\<rparr>) = (pwrite a v s)\<lparr>cr3 := c\<rparr>" "umount_page_t (s\<lparr>cr3 := c\<rparr>) = (umount_page_t s)\<lparr>cr3 := c\<rparr>"
  by (simp_all add: kpt_slot_def win_def win_read_def pwrite_def umount_page_t_def)

lemma win_write_cr3: "win_write i v (s\<lparr>cr3 := c\<rparr>) = rbind (win_write i v s) (\<lambda>s. Inr (s\<lparr>cr3 := c\<rparr>))"
  by (simp add: win_write_def win_cr3 rbind_assoc)

lemma mount_t_cr3: "mount_page_t p (s\<lparr>cr3 := c\<rparr>) = rbind (mount_page_t p s) (\<lambda>s. Inr (s\<lparr>cr3 := c\<rparr>))"
  by (simp add: mount_page_t_def irq_cr3 win_cr3 rbind_assoc)

lemma next_table_cr3: "next_table ph p i (s\<lparr>cr3 := c\<rparr>) = rbind (next_table ph p i s) (\<lambda>(e, s). Inr (e, s\<lparr>cr3 := c\<rparr>))"
  by (simp add: next_table_def create_page_def alloc_frame_vm_def mount_t_cr3 win_write_cr3 win_cr3 rbind_assoc split_def Let_def
    cr3_out if_distrib [of "\<lambda>r. rbind r f" for f] cong: if_cong)

lemma mount_cr3: "mount_page_do a ph (s\<lparr>cr3 := c\<rparr>) = rbind (mount_page_do a ph s) (\<lambda>s. Inr (s\<lparr>cr3 := c\<rparr>))"
  by (simp add: mount_page_do_def next_table_cr3 mount_t_cr3 win_write_cr3 win_cr3 rbind_assoc split_def)

end
