(* ===== verification/Scheduling.thy ===== *)
theory Scheduling
  imports Cpus
begin

text \<open>
  The tasks over time: timer interrupts on any processor, the creation of tasks, their forks, requests to the
  heap and changes of page tables, in any order, as steps of the state. The list of tasks stays a ring of
  blocks that are live in the heap, and the search of \<^verbatim>\<open>task_switch\<close> always ends.
\<close>

section \<open>The heap below\<close>

definition heap_grows :: "heap \<Rightarrow> heap \<Rightarrow> bool" where
  "heap_grows H H' \<longleftrightarrow> (heap_inv H \<longrightarrow> heap_inv H' \<and> heap_live H \<subseteq> heap_live H')"

lemma grows_refl [simp]: "heap_grows H H"
  by (simp add: heap_grows_def)

lemma grows_trans [trans]: "heap_grows H H1 \<Longrightarrow> heap_grows H1 H2 \<Longrightarrow> heap_grows H H2"
  by (auto simp: heap_grows_def)

lemma grows_malloc: "kmalloc n H = Inr (p, H') \<Longrightarrow> heap_grows H H'"
  using kheap.malloc_live kheap.malloc_null unfolding heap_grows_def by (cases "p = 0") blast+

lemma malloc_block:
  assumes "heap_inv H" and "kmalloc n H = Inr (p, H')" and "p \<noteq> 0" and "0 < n"
  obtains k where "0 < k" and "(unat p, k) \<in> heap_live H'" and "\<And>q j. (unat q, j) \<in> heap_live H \<Longrightarrow> 0 < j \<Longrightarrow> q \<noteq> p"
    and "(unat p, k) \<notin> heap_live H"
proof -
  obtain k where k: "unat n \<le> k" "heap_live H' = insert (unat p, k) (heap_live H)" "\<forall>c \<in> heap_live H. Alloc_Spec.apart (unat p, k) c"
    using kheap.malloc_live [OF assms(1-3)] by blast
  have "0 < unat n" using assms(4) by (simp add: word_less_nat_alt)
  then have pos: "0 < k" using k(1) by linarith
  have "q \<noteq> p" if "(unat q, j) \<in> heap_live H" "0 < j" for q j
    using k(3) that pos by (fastforce simp: Alloc_Spec.apart_def)
  moreover have "(unat p, k) \<notin> heap_live H" using k(3) pos by (fastforce simp: Alloc_Spec.apart_def)
  ultimately show thesis using that pos k(2) by blast
qed

lemma grows_free:
  assumes "kmalloc n H = Inr (b, H1)" and "b \<noteq> 0" and "0 < n" and "heap_grows H1 H2" and "kfree b H2 = Inr H3"
  shows "heap_grows H H3"
  unfolding heap_grows_def
proof
  assume inv: "heap_inv H"
  obtain k where k: "(unat b, k) \<in> heap_live H1" "(unat b, k) \<notin> heap_live H"
    by (rule malloc_block [OF inv assms(1-3)])
  have g: "heap_inv H2" "heap_live H1 \<subseteq> heap_live H2" "heap_live H \<subseteq> heap_live H1"
    using grows_malloc [OF assms(1)] assms(4) inv by (auto simp: heap_grows_def)
  have "(unat b, k) \<in> heap_live H2" using k(1) g(2) by blast
  from kheap.dealloc_inv [OF g(1) this assms(5)] show "heap_inv H3 \<and> heap_live H \<subseteq> heap_live H3"
    using g k(2) by blast
qed

section \<open>Paging and the heap\<close>

lemma irq_kheap: "irq_off s = Inr s' \<Longrightarrow> kheap s' = kheap s" "irq_on s = Inr s' \<Longrightarrow> kheap s' = kheap s"
  by (auto simp: irq_off_def irq_on_def rbind_eq_Inr)

lemma pwrite_kheap [simp]: "kheap (pwrite a v s) = kheap s" "kheap (umount_page_t s) = kheap s"
  by (simp_all add: pwrite_def umount_page_t_def)

lemma mount_t_kheap: "mount_page_t p s = Inr s' \<Longrightarrow> kheap s' = kheap s"
  by (auto simp: mount_page_t_def rbind_eq_Inr dest!: irq_kheap)

lemma alloc_frame_kheap: "alloc_frame_vm s = Inr (p, s') \<Longrightarrow> kheap s' = kheap s"
  by (auto simp: alloc_frame_vm_def rbind_eq_Inr)

lemma win_kheap: "win_write i v s = Inr s' \<Longrightarrow> kheap s' = kheap s" "win_put i vs s = Inr s' \<Longrightarrow> kheap s' = kheap s"
proof -
  show w: "kheap s' = kheap s" if "win_write i v s = Inr s'" for i v s s'
    using that by (auto simp: win_write_def rbind_eq_Inr)
  show "win_put i vs s = Inr s' \<Longrightarrow> kheap s' = kheap s"
    by (induction vs arbitrary: i s) (auto simp: rbind_eq_Inr dest!: w)
qed

lemma next_table_kheap: "next_table ph t i s = Inr (p, s') \<Longrightarrow> kheap s' = kheap s"
  by (auto simp: next_table_def create_page_def rbind_eq_Inr Let_def split: if_splits
      dest!: mount_t_kheap alloc_frame_kheap win_kheap)

lemma mount_kheap: "mount_page_do a ph s = Inr s' \<Longrightarrow> kheap s' = kheap s"
  by (auto simp: mount_page_do_def rbind_eq_Inr dest!: next_table_kheap mount_t_kheap win_kheap)

lemma page_loop_kheap:
  assumes "page_loop body sz i s = Some r" and "\<And>i s s'. body i s = Inr s' \<Longrightarrow> kheap s' = kheap s" and "r = Inr s'"
  shows "kheap s' = kheap s"
proof -
  have "(\<forall>i s s'. body i s = Inr s' \<longrightarrow> kheap s' = kheap s) \<longrightarrow> (\<forall>s'. r = Inr s' \<longrightarrow> kheap s' = kheap s)"
  proof (induction rule: page_loop.raw_induct [OF _ assms(1), where P = "\<lambda>body sz i s r.
      (\<forall>i s s'. body i s = Inr s' \<longrightarrow> kheap s' = kheap s) \<longrightarrow> (\<forall>s'. r = Inr s' \<longrightarrow> kheap s' = kheap s)"])
    case (1 loop body sz i s r)
    show ?case
    proof (intro impI allI)
      fix s' assume b: "\<forall>i s s'. body i s = Inr s' \<longrightarrow> kheap s' = kheap s" and r: "r = Inr s'"
      show "kheap s' = kheap s"
      proof (cases "i < sz")
        case True
        then obtain u where u: "body i s = Inr u" "loop body sz (i + 0x1000) u = Some (Inr s')"
          using 1(2) r by (cases "body i s") auto
        have "kheap s' = kheap u" using 1(1) [OF u(2)] b by blast
        then show ?thesis using b u(1) by simp
      next
        case False
        then show ?thesis using 1(2) r by simp
      qed
    qed
  qed
  then show ?thesis using assms(2,3) by blast
qed

lemma alloc_user_kheap: "alloc_pages_user a n s = Inr s' \<Longrightarrow> kheap s' = kheap s"
  unfolding alloc_pages_user_def of_loop_eq_Inr
  by (erule page_loop_kheap) (auto simp: create_page_user_def rbind_eq_Inr dest!: mount_kheap alloc_frame_kheap)

lemma read_page_kheap: "read_page a s = Inr (b, s') \<Longrightarrow> kheap s' = kheap s"
  by (auto simp: read_page_def rbind_eq_Inr dest!: mount_t_kheap)

lemma write_page_kheap: "write_page a b s = Inr s' \<Longrightarrow> kheap s' = kheap s"
  by (auto simp: write_page_def rbind_eq_Inr dest!: mount_t_kheap win_kheap(2))

text \<open>Copying address spaces: every buffer is given back, or kept, but never one of somebody else.\<close>

lemma copy_loop_grows:
  assumes "\<And>a s p s'. rec a s = Inr (p, s') \<Longrightarrow> heap_grows (kheap s) (kheap s')"
  shows "copy_loop rec pt i es s = Inr (r, s') \<Longrightarrow> heap_grows (kheap s) (kheap s')"
proof (induction es arbitrary: i s r)
  case (Cons e es)
  show ?case
  proof (cases "push_bit 12 (pte_address e) = 0 \<or> pt \<and> i = 0 \<and> push_bit 12 (pte_address e) = (kernel_pt s AND 0x0FFFFFFF)")
    case True
    then show ?thesis using Cons by (auto simp: Let_def rbind_eq_Inr split: if_splits)
  next
    case False
    then obtain p u q where "rec (push_bit 12 (pte_address e)) s = Inr (p, u)" "copy_loop rec pt (Suc i) es u = Inr (q, s')"
      using Cons.prems by (auto simp: Let_def rbind_eq_Inr split: if_splits)
    then show ?thesis using grows_trans assms Cons.IH by blast
  qed
qed simp

lemma copy_out_grows:
  assumes "heap_alloc 4096 s = Inr (b, s1)" and "b \<noteq> 0" and "heap_grows (kheap s1) (kheap s2)" and "copy_out b buf s2 = Inr (p, s3)"
  shows "heap_grows (kheap s) (kheap s3)"
proof -
  obtain H where "kfree b (kheap s2) = Inr H" "kheap s3 = H"
    using assms(4) by (auto simp: copy_out_def heap_free_def rbind_eq_Inr dest!: alloc_frame_kheap write_page_kheap)
  moreover have "kmalloc 4096 (kheap s) = Inr (b, kheap s1)" using assms(1) by (auto simp: heap_alloc_def rbind_eq_Inr)
  ultimately show ?thesis using grows_free assms(2,3) by force
qed

lemma copy_page_grows: "copy_page k a s = Inr (p, s') \<Longrightarrow> heap_grows (kheap s) (kheap s')"
proof (induction k arbitrary: a s p s')
  case 0
  then obtain b s1 buf s2 where "heap_alloc 4096 s = Inr (b, s1)" "b \<noteq> 0" "read_page a s1 = Inr (buf, s2)"
    "copy_out b buf s2 = Inr (p, s')"
    by (auto simp: rbind_eq_Inr split: if_splits)
  then show ?case using copy_out_grows read_page_kheap by (metis grows_refl)
next
  case (Suc k)
  then obtain b s1 buf s2 r s3 where 1: "heap_alloc 4096 s = Inr (b, s1)" "b \<noteq> 0" "read_page a s1 = Inr (buf, s2)"
    "copy_loop (copy_page k) (k = 0) 0 buf s2 = Inr (r, s3)"
    "(case r of None \<Rightarrow> Inr (a, s3) | Some buf \<Rightarrow> copy_out b buf s3) = Inr (p, s')"
    by (auto simp: rbind_eq_Inr split: if_splits)
  have g: "heap_grows (kheap s1) (kheap s3)"
    using copy_loop_grows [OF _ 1(4)] Suc.IH read_page_kheap [OF 1(3)] by metis
  show ?case
  proof (cases r)
    case None
    have "kmalloc 4096 (kheap s) = Inr (b, kheap s1)" using 1(1) by (auto simp: heap_alloc_def rbind_eq_Inr)
    then show ?thesis using None 1(5) g grows_malloc grows_trans by fastforce
  next
    case (Some bs)
    then show ?thesis using copy_out_grows [OF 1(1,2) g] 1(5) by simp
  qed
qed

section \<open>Steps\<close>

text \<open>
  The steps: a timer interrupt; the creation of the idle task of another processor; a fork; changes of
  the current task of a processor that leave its link alone, as \<^verbatim>\<open>start_process\<close> makes them; requests to the heap for and the
  release of blocks that hold no task; and whatever is done to page tables.
\<close>

inductive sched_step :: "sched \<Rightarrow> sched \<Rightarrow> bool" where
  timer: "task_switch cpu a r s = Inr (x, s') \<Longrightarrow> sched_step s s'"
| new_cpu: "0 < cpu \<Longrightarrow> task_init_cpu cpu junk s = Inr s' \<Longrightarrow> sched_step s s'"
| fork: "task_fork junk ctx stack s = Inr (n, s') \<Longrightarrow> sched_step s s'"
| change: "cpu < length (curr s) \<Longrightarrow> tasks s (curr s ! cpu) = Some t \<Longrightarrow> next_task t' = next_task t
    \<Longrightarrow> sched_step s (put_task (curr s ! cpu) t' s)"
| request: "kmalloc n (kheap (svm s)) = Inr (p, H) \<Longrightarrow> sched_step s (s\<lparr>svm := (svm s)\<lparr>kheap := H\<rparr>\<rparr>)"
| release: "(unat p, k) \<in> heap_live (kheap (svm s)) \<Longrightarrow> tasks s p = None \<Longrightarrow> kfree p (kheap (svm s)) = Inr H
    \<Longrightarrow> sched_step s (s\<lparr>svm := (svm s)\<lparr>kheap := H\<rparr>\<rparr>)"
| paging: "kheap v = kheap (svm s) \<Longrightarrow> sched_step s (s\<lparr>svm := v\<rparr>)"

text \<open>The invariant: the tasks \<open>ps\<close> form a ring of live blocks, and every processor runs one of them or none.\<close>

definition blocks_in :: "heap \<Rightarrow> u64 list \<Rightarrow> bool" where
  "blocks_in H ps \<longleftrightarrow> heap_inv H \<and> (\<forall>p \<in> set ps. \<exists>k > 0. (unat p, k) \<in> heap_live H)"

definition sched_inv :: "sched \<Rightarrow> u64 list \<Rightarrow> bool" where
  "sched_inv s ps \<longleftrightarrow> blocks_in (kheap (svm s)) ps \<and> ring (tasks s) ps \<and> 0 < length (curr s) \<and> curr s ! 0 \<in> set ps
     \<and> set (curr s) \<subseteq> insert 0 (set ps)"

lemma blocks_grow: "blocks_in H ps \<Longrightarrow> heap_grows H H' \<Longrightarrow> blocks_in H' ps"
  unfolding blocks_in_def heap_grows_def by blast

text \<open>A block from the heap is none of the tasks.\<close>

lemma block_new:
  assumes "blocks_in H ps" and "kmalloc n H = Inr (p, H')" and "p \<noteq> 0" and "0 < n"
  shows "p \<notin> set ps" and "blocks_in H' (p # ps)"
proof -
  have inv: "heap_inv H" using assms(1) by (simp add: blocks_in_def)
  obtain k where k: "0 < k" "(unat p, k) \<in> heap_live H'" "\<And>q j. (unat q, j) \<in> heap_live H \<Longrightarrow> 0 < j \<Longrightarrow> q \<noteq> p"
    using malloc_block [OF inv assms(2-4)] by metis
  show "p \<notin> set ps" using assms(1) k(3) unfolding blocks_in_def by blast
  show "blocks_in H' (p # ps)"
    using blocks_grow [OF assms(1) grows_malloc [OF assms(2)]] k(1,2) by (auto simp: blocks_in_def)
qed

text \<open>A ring can be read from any of its tasks.\<close>

lemma ring_from:
  assumes "ring m ps" and "c \<in> set ps"
  obtains qs where "ring m (c # qs)" and "set (c # qs) = set ps"
proof -
  obtain xs ys where ps: "ps = xs @ c # ys" using assms(2) by (auto simp: in_set_conv_decomp)
  show thesis
  proof (cases xs)
    case Nil
    then show thesis using that [of ys] assms(1) ps by simp
  next
    case (Cons x xs')
    then show thesis using that [of "ys @ x # xs'"] ring_rotate [of m x xs' c ys] assms(1) ps by auto
  qed
qed

text \<open>The common part of \<^verbatim>\<open>task_init_cpu\<close> and \<^verbatim>\<open>task_fork\<close>: a new task behind the current one of processor 0.\<close>

lemma inv_insert:
  assumes "sched_inv s ps" and "kmalloc n H1 = Inr (p, H2)" and "p \<noteq> 0" and "0 < n" and "heap_grows (kheap (svm s)) H1"
    and "heap_grows H2 (kheap (svm s'))" and "tasks s (curr s ! 0) = Some ct"
    and "tasks s' = (tasks s)(curr s ! 0 \<mapsto> ct\<lparr>next_task := p\<rparr>, p \<mapsto> t)" and "next_task t = next_task ct"
    and "curr s' = curr s \<or> (\<exists>i > 0. curr s' = (curr s)[i := p])"
  obtains qs where "sched_inv s' (curr s ! 0 # p # qs)" and "length (curr s') = length (curr s)"
proof -
  let ?c = "curr s ! 0"
  have I: "blocks_in (kheap (svm s)) ps" "ring (tasks s) ps" "0 < length (curr s)" "?c \<in> set ps"
    "set (curr s) \<subseteq> insert 0 (set ps)"
    using assms(1) by (auto simp: sched_inv_def)
  obtain qs where q: "ring (tasks s) (?c # qs)" "set (?c # qs) = set ps" by (rule ring_from [OF I(2,4)])
  have p: "p \<notin> set ps" "blocks_in H2 (p # ps)"
    using block_new [OF blocks_grow [OF I(1) assms(5)] assms(2-4)] by auto
  have new: "p \<notin> set (?c # qs)" unfolding q(2) using p(1) .
  have "ring (tasks s') (?c # p # qs)"
    by (rule ring_insert [where t = t, OF q(1) new assms(3,7)]) (use new q(1) assms(8,9) in auto)
  moreover have "blocks_in (kheap (svm s')) (?c # p # qs)"
    using blocks_grow [OF p(2) assms(6)] q(2) by (auto simp: blocks_in_def)
  moreover have "?c \<in> set (?c # p # qs)" by simp
  moreover have "set (curr s') \<subseteq> insert 0 (set (?c # p # qs))"
    using assms(10) I(5) q(2) set_update_subset_insert [of "curr s" _ p] by fastforce
  moreover have "0 < length (curr s')" "curr s' ! 0 = ?c" using assms(10) I(3) by auto
  ultimately have "sched_inv s' (?c # p # qs)" unfolding sched_inv_def by metis
  moreover have "length (curr s') = length (curr s)" using assms(10) by auto
  ultimately show thesis by (rule that)
qed

lemma timer_inv:
  assumes "sched_inv s ps" and "task_switch cpu a r s = Inr (x, s')"
  shows "sched_inv s' ps \<and> length (curr s') = length (curr s)"
proof -
  have I: "ring (tasks s) ps" "0 < length (curr s)" "curr s ! 0 \<in> set ps"
    "set (curr s) \<subseteq> insert 0 (set ps)"
    using assms(1) by (auto simp: sched_inv_def)
  have cpu: "cpu < length (curr s)" using assms(2) by (auto simp: task_switch_def get_curr_def split: if_splits)
  show ?thesis
  proof (cases "curr s ! cpu = 0")
    case True
    then show ?thesis using assms cpu by (simp add: task_switch_def get_curr_def)
  next
    case False
    then have "curr s ! cpu \<in> set ps" using I(4) nth_mem [OF cpu] by blast
    then obtain qs where q: "ring (tasks s) (curr s ! cpu # qs)" "set (curr s ! cpu # qs) = set ps"
      by (rule ring_from [OF I(1)])
    obtain t where t: "tasks s (curr s ! cpu) = Some t" using links_dom q(1) by fastforce
    show ?thesis
    proof (cases "state t = TASK_STARTING")
      case True
      then have "s' = put_task (curr s ! cpu) (t\<lparr>state := TASK_RUNNING, regs := (regs t)\<lparr>reg1 := reg1 r\<rparr>\<rparr>) s"
        using assms(2) False cpu t by (simp add: task_switch_def get_curr_def task_at_def)
      moreover have "ring ((tasks s)(curr s ! cpu \<mapsto> t\<lparr>state := TASK_RUNNING, regs := (regs t)\<lparr>reg1 := reg1 r\<rparr>\<rparr>)) ps"
        using I(1) t by (subst ring_cong [of ps _ "tasks s"]) auto
      ultimately show ?thesis using assms(1) by (simp add: sched_inv_def put_task_def)
    next
      case False
      define q' where "q' = hd (filter (active (tasks s)) qs @ [curr s ! cpu])"
      have s': "s' = s\<lparr>tasks := (tasks s)(curr s ! cpu \<mapsto> t\<lparr>regs := r, state := TASK_ACTIVE\<rparr>), curr := (curr s)[cpu := q']\<rparr>"
        using switch_step [OF q(1) cpu refl t False, of a r] assms(2) by (simp add: Let_def q'_def)
      have "q' \<in> set (filter (active (tasks s)) qs @ [curr s ! cpu])" unfolding q'_def by (rule hd_in_set) simp
      then have "q' \<in> set ps" using q(2) by auto
      moreover have "ring ((tasks s)(curr s ! cpu \<mapsto> t\<lparr>regs := r, state := TASK_ACTIVE\<rparr>)) ps"
        using I(1) t by (subst ring_cong [of ps _ "tasks s"]) auto
      moreover have "(curr s)[cpu := q'] ! 0 \<in> set ps" using \<open>q' \<in> set ps\<close> I(2,3) by (cases "cpu = 0") auto
      moreover have "set ((curr s)[cpu := q']) \<subseteq> insert 0 (set ps)"
        using set_update_subset_insert [of "curr s" cpu q'] I(4) \<open>q' \<in> set ps\<close> by blast
      ultimately show ?thesis using assms(1) unfolding s' by (simp add: sched_inv_def)
    qed
  qed
qed


lemma new_cpu_inv:
  assumes "sched_inv s ps" and "0 < cpu" and "task_init_cpu cpu junk s = Inr s'"
  obtains qs where "sched_inv s' qs" and "length (curr s') = length (curr s)"
proof -
  let ?c = "curr s ! 0"
  have I: "ring (tasks s) ps" "0 < length (curr s)" "?c \<in> set ps" "blocks_in (kheap (svm s)) ps"
    using assms(1) by (auto simp: sched_inv_def)
  obtain qs where "ring (tasks s) (?c # qs)" by (rule ring_from [OF I(1,3)])
  then obtain ct where ct: "tasks s ?c = Some ct" using links_dom by fastforce
  obtain w where w: "irq_off (svm s) = Inr w" using assms(3) by (auto simp: task_init_cpu_def in_vm_def rbind_eq_Inr)
  obtain p H where p: "kmalloc SIZEOF_TASK (kheap w) = Inr (p, H)" "p \<noteq> 0" "cpu < length (curr s)"
    using assms(3) w by (auto simp: task_init_cpu_def in_vm_def in_vm_val_def heap_alloc_def set_curr_def rbind_eq_Inr split: if_splits)
  have kw: "kheap w = kheap (svm s)" by (rule irq_kheap(1) [OF w])
  have new: "p \<noteq> ?c" using block_new(1) [OF I(4), of SIZEOF_TASK p H] p kw I(3) by auto
  let ?t = "junk\<lparr>pid := next_pid s, regs := zero_regs, state := TASK_RUNNING, tls := TLS_ADDR, next_task := next_task ct,
    files := replicate MAX_OPEN_FILES 0\<rparr>"
  obtain u v where u: "alloc_pages_user TLS_ADDR 4 (w\<lparr>kheap := H\<rparr>) = Inr u" "irq_on u = Inr v"
    "tasks s' = (tasks s)(?c \<mapsto> ct\<lparr>next_task := p\<rparr>, p \<mapsto> ?t)" "curr s' = (curr s)[cpu := p]" "svm s' = v"
    using assms(3) unfolding task_init_cpu_eq [OF w p(1,2) assms(2) p(3) ct new] by (auto simp: rbind_eq_Inr)
  have "kheap v = H" using alloc_user_kheap [OF u(1)] irq_kheap(2) [OF u(2)] by simp
  then have g: "heap_grows H (kheap (svm s'))" "heap_grows (kheap (svm s)) (kheap w)" using u(5) kw by simp_all
  have "\<exists>i > 0. curr s' = (curr s)[i := p]" using assms(2) u(4) by auto
  then show thesis using inv_insert [OF assms(1) p(1,2) _ g(2,1) ct u(3)] that by auto
qed

lemma fork_inv:
  assumes "sched_inv s ps" and "task_fork junk ctx stk s = Inr (n, s')"
  obtains qs where "sched_inv s' qs" and "length (curr s') = length (curr s)"
proof -
  let ?c = "curr s ! 0"
  have I: "ring (tasks s) ps" "0 < length (curr s)" "?c \<in> set ps" "blocks_in (kheap (svm s)) ps"
    using assms(1) by (auto simp: sched_inv_def)
  obtain qs where "ring (tasks s) (?c # qs)" by (rule ring_from [OF I(1,3)])
  then obtain ct where ct: "tasks s ?c = Some ct" using links_dom by fastforce
  obtain w where w: "irq_off (svm s) = Inr w" using assms(2) by (auto simp: task_fork_def in_vm_def rbind_eq_Inr)
  obtain off s1 where s1: "copy_stack stk (s\<lparr>svm := w\<rparr>) = Inr (off, s1)"
    using assms(2) w by (auto simp: task_fork_def in_vm_def rbind_eq_Inr)
  obtain cr v where v: "copy_pages (svm s1) = Inr (cr, v)"
    using assms(2) w s1 by (auto simp: task_fork_def in_vm_def in_vm_val_def rbind_eq_Inr)
  obtain p H where p: "kmalloc SIZEOF_TASK (kheap v) = Inr (p, H)" "p \<noteq> 0"
    using assms(2) w s1 v by (auto simp: task_fork_def in_vm_def in_vm_val_def heap_alloc_def rbind_eq_Inr split: if_splits)
  have s1': "tasks s1 = tasks s" "curr s1 = curr s" "heap_grows (kheap w) (kheap (svm s1))"
    using s1 grows_malloc by (auto simp: copy_stack_def in_vm_val_def heap_alloc_def Let_def rbind_eq_Inr)
  have kw: "kheap w = kheap (svm s)" by (rule irq_kheap(1) [OF w])
  have g: "heap_grows (kheap (svm s)) (kheap v)"
    using s1'(3) copy_page_grows v kw unfolding copy_pages_def by (metis grows_trans)
  have new: "p \<noteq> ?c" "p \<notin> set ps" "blocks_in H ps"
    using block_new [OF blocks_grow [OF I(4) g] p] I(3) by (auto simp: blocks_in_def)
  show thesis
  proof (cases "i_rip (r_i ctx) = 0")
    case True
    obtain t where t: "tasks s' = (tasks s)(p \<mapsto> t)" "curr s' = curr s" "kheap (svm s') = H"
      using assms(2) w s1 v p s1' True
      by (auto simp: task_fork_def in_vm_def in_vm_val_def heap_alloc_def read_rip_def put_task_def Let_def)
    have "ring (tasks s') ps" using I(1) new(2) t(1) by (subst ring_cong [of ps _ "tasks s"]) auto
    then show thesis using that [of ps] assms(1) t new(3) by (simp add: sched_inv_def)
  next
    case False
    have m: "(tasks s)(p \<mapsto> x, p \<mapsto> y, ?c \<mapsto> z) = (tasks s)(?c \<mapsto> z, p \<mapsto> y)" for x y z
      using new(1) by (auto simp: fun_eq_iff)
    obtain u t where u: "irq_on (v\<lparr>kheap := H\<rparr>) = Inr u" "svm s' = u" "curr s' = curr s"
      "tasks s' = (tasks s)(?c \<mapsto> ct\<lparr>next_task := p\<rparr>, p \<mapsto> t)" "next_task t = next_task ct"
      using assms(2) w s1 v p s1' False ct new(1) I(2) m
      by (auto simp: task_fork_def in_vm_def in_vm_val_def heap_alloc_def read_rip_def put_task_def get_curr_def task_at_def
          rbind_eq_Inr Let_def)
    have "heap_grows H (kheap (svm s'))" using irq_kheap(2) [OF u(1)] u(2) by simp
    then show thesis using inv_insert [OF assms(1) p _ g _ ct u(4,5)] that u(3) by auto
  qed
qed

lemma step_inv:
  assumes "sched_step s s'" and "sched_inv s ps"
  obtains qs where "sched_inv s' qs" and "length (curr s') = length (curr s)"
  using assms(1)
proof (cases rule: sched_step.cases)
  case (timer cpu a r x)
  show thesis using that timer_inv [OF assms(2) timer] by blast
next
  case (new_cpu cpu junk)
  show thesis by (rule new_cpu_inv [OF assms(2) new_cpu]) (rule that)
next
  case (fork junk ctx stack n)
  show thesis by (rule fork_inv [OF assms(2) fork]) (rule that)
next
  case (change cpu t t')
  have "ring (tasks s') ps"
    using assms(2) change by (subst ring_cong [of ps _ "tasks s"]) (auto simp: sched_inv_def put_task_def)
  then show thesis using that [of ps] assms(2) change(1) by (simp add: sched_inv_def put_task_def)
next
  case (request n p H)
  then show thesis
    using that [of ps] assms(2) blocks_grow [OF _ grows_malloc [OF request(2)]] by (simp add: sched_inv_def)
next
  case (release p k H)
  have "p \<notin> set ps"
    using assms(2) release(3) links_dom by (cases ps) (fastforce simp: sched_inv_def)+
  moreover have "heap_inv H \<and> heap_live H = heap_live (kheap (svm s)) - {(unat p, k)}"
    using kheap.dealloc_inv [OF _ release(2,4)] assms(2) by (simp add: sched_inv_def blocks_in_def)
  moreover have "unat q \<noteq> unat p" if "q \<in> set ps" for q using that \<open>p \<notin> set ps\<close> by (metis word_unat_eq_iff)
  ultimately have "blocks_in H ps" using assms(2) unfolding sched_inv_def blocks_in_def by (metis Diff_iff prod.inject singletonD)
  then show thesis using that [of ps] assms(2) release(1) by (simp add: sched_inv_def)
next
  case (paging v)
  then show thesis using that [of ps] assms(2) by (simp add: sched_inv_def)
qed

lemma steps_inv: "sched_step\<^sup>*\<^sup>* s s' \<Longrightarrow> sched_inv s ps \<Longrightarrow> \<exists>qs. sched_inv s' qs \<and> length (curr s') = length (curr s)"
proof (induction arbitrary: ps rule: rtranclp_induct)
  case (step y z)
  then show ?case using step_inv by metis
qed blast

text \<open>In a state with the invariant the timer interrupt returns.\<close>

lemma timer_returns:
  assumes "sched_inv s ps" and "cpu < length (curr s)"
  shows "\<exists>x s'. task_switch cpu a r s = Inr (x, s')"
proof (cases "curr s ! cpu = 0")
  case True
  then show ?thesis using assms(2) by (simp add: task_switch_def get_curr_def)
next
  case False
  have I: "ring (tasks s) ps" "curr s ! cpu \<in> set ps"
    using assms(1) nth_mem [OF assms(2)] False by (auto simp: sched_inv_def)
  obtain qs where q: "ring (tasks s) (curr s ! cpu # qs)" by (rule ring_from [OF I])
  obtain t where t: "tasks s (curr s ! cpu) = Some t" using links_dom q by fastforce
  show ?thesis
  proof (cases "state t = TASK_STARTING")
    case True
    then show ?thesis using assms(2) False t by (simp add: task_switch_def get_curr_def task_at_def)
  next
    case False
    then show ?thesis using switch_step [OF q assms(2) refl t, of a r] by (simp add: Let_def)
  qed
qed

lemma init_inv:
  assumes "heap_inv (kheap (svm s))" and "set (curr s) \<subseteq> {0}" and "0 < length (curr s)" and "task_init junk s = Inr s'"
  shows "\<exists>p. sched_inv s' [p] \<and> length (curr s') = length (curr s)"
proof -
  obtain w where w: "irq_off (svm s) = Inr w" using assms(4) by (auto simp: task_init_def in_vm_def rbind_eq_Inr)
  obtain p H where p: "kmalloc SIZEOF_TASK (kheap w) = Inr (p, H)" "p \<noteq> 0"
    using assms(3,4) w by (auto simp: task_init_def in_vm_def in_vm_val_def heap_alloc_def set_curr_def rbind_eq_Inr split: if_splits)
  note eq = task_init_eq [OF w p assms(3), of junk]
  obtain u v t where u: "alloc_pages_user TLS_ADDR 4 (w\<lparr>kheap := H\<rparr>) = Inr u" "irq_on u = Inr v"
    "tasks s' = (tasks s)(p \<mapsto> t)" "next_task t = p" "curr s' = (curr s)[0 := p]" "svm s' = v"
    using assms(4) unfolding eq by (auto simp: rbind_eq_Inr)
  have "kheap v = H" using alloc_user_kheap [OF u(1)] irq_kheap(2) [OF u(2)] by simp
  moreover have "blocks_in H [p]"
    using block_new(2) [of "kheap w" "[]" SIZEOF_TASK p H] p assms(1) irq_kheap(1) [OF w] by (simp add: blocks_in_def)
  moreover have "set (curr s') \<subseteq> {0, p}" using set_update_subset_insert [of "curr s" 0 p] assms(2) u(5) by auto
  moreover have "0 < length (curr s')" "curr s' ! 0 = p" "ring (tasks s') [p]" using u(3-5) assms(3) p(2) by auto
  ultimately have "sched_inv s' [p]" using u(6) by (simp add: sched_inv_def)
  then show ?thesis using u(5) by auto
qed

text \<open>
  C3. After \<^verbatim>\<open>task_init\<close>, whatever happens in whatever order on the processors -- timer interrupts, new idle tasks, forks,
  changes of running tasks, traffic on the heap, changes of page tables --, the tasks are linked in one ring, every processor
  has a task of the ring or none, and the next timer interrupt on any processor returns: the search for
  an active task neither faults nor runs forever.
\<close>

theorem sched_runs_safe:
  assumes "heap_inv (kheap (svm s))" and "set (curr s) \<subseteq> {0}" and "0 < length (curr s)" and "task_init junk s = Inr s0"
    and "sched_step\<^sup>*\<^sup>* s0 s'"
  shows "\<exists>ps. ring (tasks s') ps \<and> set (curr s') \<subseteq> insert 0 (set ps) \<and> length (curr s') = length (curr s)
    \<and> (\<forall>cpu < length (curr s). \<forall>a r. \<exists>x u. task_switch cpu a r s' = Inr (x, u))"
proof -
  obtain p where p: "sched_inv s0 [p]" "length (curr s0) = length (curr s)" using init_inv [OF assms(1-4)] by blast
  then obtain ps where "sched_inv s' ps" "length (curr s') = length (curr s)" using steps_inv [OF assms(5)] by metis
  moreover from this have "\<exists>x u. task_switch cpu a r s' = Inr (x, u)" if "cpu < length (curr s)" for cpu a r
    using timer_returns [of s' ps cpu a r] that by simp
  ultimately show ?thesis unfolding sched_inv_def by blast
qed

theorem sched_runs_safe_witness:
  "\<exists>s0 s'. task_init (demo_task 0 0) (demo_sched\<lparr>curr := replicate 16 0\<rparr>) = Inr s0 \<and> sched_step s0 s'
    \<and> (\<exists>ps. ring (tasks s') ps)"
proof -
  let ?s = "demo_sched\<lparr>curr := replicate 16 0\<rparr>"
  have h: "kheap (svm ?s) = boot_heap" "heap_inv boot_heap"
    using boot_heap_rep by (auto simp: demo_sched_sel demo_heap_ok heap_inv_def)
  obtain H where "kmalloc SIZEOF_TASK boot_heap = Inr (0xFFFFFFFFC0200010, H)" by (rule demo_task_block)
  then obtain s0 where s0: "task_init (demo_task 0 0) ?s = Inr s0"
    using task_init_ring [of ?s "0xFFFFFFFFC0200010" H "demo_task 0 0"] by (auto simp: demo_sched_sel demo_heap_ok)
  have c: "set (curr ?s) \<subseteq> {0}" "0 < length (curr ?s)" by (simp_all add: set_replicate_conv_if)
  note safe = sched_runs_safe [of ?s "demo_task 0 0" s0, unfolded h(1), OF h(2) c s0]
  obtain x u where "task_switch 0 0 zero_regs s0 = Inr (x, u)" using safe [of s0] c(2) by blast
  then have "sched_step s0 u" by (rule sched_step.timer)
  then show ?thesis using safe [of u] s0 by blast
qed

end
