(* ===== verification/Programs.thy ===== *)
theory Programs
  imports Elf
begin

text \<open>
  A program from its file to its output: what \<^verbatim>\<open>start_process\<close>, the timer interrupt and the system call \<^verbatim>\<open>write\<close> do
  together.
\<close>

text \<open>The place of \<^verbatim>\<open>sys_write\<close> in the table.\<close>

definition SYS_write :: u64 where "SYS_write = 18"

text \<open>
  What starting the program in the file at \<open>hdr\<close>, as the task \<open>t\<close> at \<open>p\<close>, needs: a supported executable file without
  relocations, frames for its segments and its stack, and a block \<open>d\<close> of the heap for the file descriptor.
\<close>

definition program_ready :: "u64 \<Rightarrow> nat \<Rightarrow> nat \<Rightarrow> u64 \<Rightarrow> task \<Rightarrow> u64 \<Rightarrow> sys \<Rightarrow> bool" where
  "program_ready hdr F cpu p t d s \<longleftrightarrow> (let m = ram (fsys s); h = Elf64_Ehdr_of m hdr; v = svm (procs s) in
     file_ok hdr F m \<and> no_relocations hdr F m \<and> stack_apart hdr m \<and> elf_ok h \<and> e_type h = ET_EXEC \<and> e_entry h \<noteq> 0
     \<and> ktty_ok (console (fsys s)) \<and> vm_ok v \<and> runs_task cpu p t s
     \<and> available (4 * (\<Sum>i < phdr_count hdr m. load_pages hdr m i) + 8) (frames v)
     \<and> (\<exists>H. kmalloc SIZEOF_DESC (kheap v) = Inr (d, H)) \<and> d \<noteq> 0)"

lemma load_part: "k + n \<le> N \<Longrightarrow> load (a + of_nat k) n m = take n (drop k (load a N m))"
  by (intro nth_equalityI) (auto simp: load_def add.assoc)

text \<open>The terminal as a node.\<close>

definition terminal_at :: "u64 \<Rightarrow> fs \<Rightarrow> bool" where
  "terminal_at a f \<longleftrightarrow> a \<noteq> 0 \<and> (\<exists>n. fnodes f a = Some n \<and> drv n = TtyDrv \<and> flags n AND VFS_TTY \<noteq> 0)"



end
