(* ===== verification/Ap_Start.thy ===== *)
theory Ap_Start
  imports Scheduling
begin

text \<open>
  The start of the other processors (\<^verbatim>\<open>kernel_ap_start\<close> of \<^verbatim>\<open>kernel/kernel.c\<close> with \<^verbatim>\<open>page_init_ap\<close> of \<^verbatim>\<open>mm/page.c\<close>): page tables
  of their own that share the first two megabytes of the kernel, the local interrupt controller, an idle task.
\<close>

section \<open>Page tables of a processor\<close>

text \<open>\<^verbatim>\<open>zeromem\<close> and one entry through the window.\<close>

lemma init_table_eq:
  assumes "irq_ok s" and "pmem s (kpt_slot s) = 0" and "page_aligned (kpt_slot s)" and "frame_of t \<noteq> kpt_slot s" and "i < 512"
  obtains m where "init_table t i e s = Inr (pulse (s\<lparr>pmem := m\<rparr>))"
    and "\<And>j. j < 512 \<Longrightarrow> m (slot (frame_of t) j) = (if j = i then e else 0)"
    and "\<And>a. (\<forall>j < 512. a \<noteq> slot (frame_of t) j) \<Longrightarrow> m a = pmem s a"
proof -
  let ?k = "kpt_slot s" and ?f = "frame_of t" and ?s = "pulse (s\<lparr>pmem := (pmem s)(kpt_slot s := calc_page t)\<rparr>)"
  have mt: "mount_page_t t s = Inr ?s" by (rule mount_page_t_eq [OF assms(1)])
  obtain m where m: "win_put 0 (replicate 512 0) ?s = Inr (?s\<lparr>pmem := m\<rparr>)" "m ?k = calc_page t"
    "\<forall>j < 512. m (slot ?f j) = replicate 512 0 ! j" "\<forall>a. (\<forall>j < 512. a \<noteq> slot ?f j) \<longrightarrow> m a = pmem ?s a"
    using win_put_mounted [of ?s t 0 "replicate 512 0"] assms(3,4) by auto
  have kp: "slot ?k 0 = ?k" by (simp add: slot_def)
  have ne: "slot ?f j \<noteq> ?k" if "j < 512" for j
    using slot_inj [OF page_aligned_frame_of assms(3) that, of 0 t] assms(4) kp by auto
  have w: "win_write i e (?s\<lparr>pmem := m\<rparr>) = Inr (?s\<lparr>pmem := m(slot ?f i := e)\<rparr>)"
    using m(2) by (simp add: win_write_def win_mounted [of _ t] pwrite_def)
  show thesis
  proof (rule that [of "m(slot ?f i := e, ?k := 0)"])
    show "init_table t i e s = Inr (pulse (s\<lparr>pmem := m(slot ?f i := e, ?k := 0)\<rparr>))"
      using mt m(1) w by (simp add: init_table_def win_zero_def umount_page_t_def pwrite_def)
    show "(m(slot ?f i := e, ?k := 0)) (slot ?f j) = (if j = i then e else 0)" if "j < 512" for j
      using m(3) ne [OF that] that slot_inj [OF page_aligned_frame_of page_aligned_frame_of that assms(5), of t t]
      by (simp)
    show "(m(slot ?f i := e, ?k := 0)) a = pmem s a" if "\<forall>j < 512. a \<noteq> slot ?f j" for a
      using m(4) that assms(2,5) by auto
  qed
qed

text \<open>Frames outside the tables may be changed.\<close>

lemma vm_ok_other:
  assumes "vm_ok s" and "phys_ok fr" and "used_frames (frames s) \<subseteq> used_frames fr" and "free_frames fr \<subseteq> free_frames (frames s)"
    and "F \<subseteq> used_frames fr - used_frames (frames s)"
    and "\<And>h j. page_aligned h \<Longrightarrow> h \<notin> F \<Longrightarrow> j < 512 \<Longrightarrow> m (slot h j) = pmem s (slot h j)"
  shows "vm_ok (s\<lparr>frames := fr, pmem := m\<rparr>)" and "translate (s\<lparr>frames := fr, pmem := m\<rparr>) a = translate s a"
    and "table_frames (s\<lparr>frames := fr, pmem := m\<rparr>) = table_frames s"
    and "path_ok 3 js \<Longrightarrow> tab_at m (Page.root s) (butlast js) = tab_at (pmem s) (Page.root s) (butlast js)"
proof -
  have t: "tree (pmem s) 3 (Page.root s)" "tabs (pmem s) 3 (Page.root s) \<subseteq> used_frames (frames s)" "clean (pmem s) (frames s)"
    and k: "page_aligned (kpt_slot s)" "kpt_slot s \<in> used_frames (frames s)" "pmem s (kpt_slot s) = 0"
      "kpt_slot s \<notin> tabs (pmem s) 2 (Page.root s)"
    using assms(1) by (auto simp: vm_ok_def tables_ok_def)
  have ag: "agree_on (tabs (pmem s) 3 (Page.root s)) (pmem s) m"
    using t(2) assms(5,6) tabs_aligned [OF t(1)] unfolding agree_on_def by blast
  have "clean m fr" by (rule clean_agree [OF t(3) assms(2,4), of F]) (use assms(5,6) in auto)
  moreover have "m (kpt_slot s) = 0"
    using assms(6) [OF k(1), of 0] k(2,3) assms(5) by (auto simp: slot_def)
  moreover note tabs_agree [OF ag] tree_agree [OF ag t(1)] tab_at_agree [OF ag lin_path_ok]
  moreover have "tabs m 2 (Page.root s) = tabs (pmem s) 2 (Page.root s)"
    by (rule tabs_agree [OF agree_on_mono [OF ag tabs_mono]]) simp
  ultimately show "vm_ok (s\<lparr>frames := fr, pmem := m\<rparr>)"
    using assms(1-3) by (auto simp: vm_ok_def tables_ok_def Page.root_def)
  show "translate (s\<lparr>frames := fr, pmem := m\<rparr>) a = translate s a"
    using walk_agree [OF ag t(1) lin_path_ok] by (simp add: translate_def Page.root_def)
  show "table_frames (s\<lparr>frames := fr, pmem := m\<rparr>) = table_frames s"
    using tabs_agree [OF ag] by (simp add: table_frames_def Page.root_def)
  show "tab_at m (Page.root s) (butlast js) = tab_at (pmem s) (Page.root s) (butlast js)" if "path_ok 3 js"
    by (rule tab_at_agree [OF ag that])
qed

lemma irq_off_eq:
  assumes "irq_ok v" and "intr_depth (this_cpu v) (irq v) < 254"
  obtains q where "irq_off v = Inr (v\<lparr>irq := q\<rparr>)" and "irq_ok (v\<lparr>irq := q\<rparr>)" and "0 < intr_depth (this_cpu v) q"
    and "intr_depth (this_cpu v) q = Suc (intr_depth (this_cpu v) (irq v))"
proof -
  have c: "cpu_ok (this_cpu v) (irq v)" using assms(1) by (simp add: irq_ok_def)
  show thesis using intr_disable_spec [OF c] assms(2) that by (auto simp: irq_ok_def irq_off_def)
qed

lemma irq_on_eq:
  assumes "irq_ok v" and "0 < intr_depth (this_cpu v) (irq v)"
  obtains q where "irq_on v = Inr (v\<lparr>irq := q\<rparr>)" and "irq_ok (v\<lparr>irq := q\<rparr>)"
    and "intr_depth (this_cpu v) q = intr_depth (this_cpu v) (irq v) - 1"
proof -
  have c: "cpu_ok (this_cpu v) (irq v)" using assms(1) by (simp add: irq_ok_def)
  obtain q where q: "intr_enable (this_cpu v) (irq v) = Inr q" "cpu_ok (this_cpu v) q"
    "intr_depth (this_cpu v) q = intr_depth (this_cpu v) (irq v) - 1"
    using intr_enable_spec [OF c assms(2)] by auto
  show thesis by (rule that [of q]) (use q assms(1) in \<open>auto simp: irq_ok_def irq_on_def\<close>)
qed

text \<open>The three tables, filled.\<close>

lemma init_three:
  assumes "irq_ok v" and "page_aligned (kpt_slot v)" and "pmem v (kpt_slot v) = 0" and "kpt_slot v \<notin> {a, b, c}" and "distinct [a, b, c]"
    and f: "frame_of a = a" "frame_of b = b" "frame_of c = c"
  obtains m where "rbind (init_table a 511 x v) (\<lambda>s. rbind (init_table b 511 y s) (\<lambda>s. rbind (init_table c 0 (calc_page (kernel_pt s AND 0x0FFFFFFF)) s) g))
      = g (pulse (v\<lparr>pmem := m\<rparr>))"
    and "\<And>j. j < 512 \<Longrightarrow> m (slot a j) = (if j = 511 then x else 0)"
    and "\<And>j. j < 512 \<Longrightarrow> m (slot b j) = (if j = 511 then y else 0)"
    and "\<And>j. j < 512 \<Longrightarrow> m (slot c j) = (if j = 0 then calc_page (kernel_pt v AND 0x0FFFFFFF) else 0)"
    and "\<And>h j. page_aligned h \<Longrightarrow> h \<notin> {a, b, c} \<Longrightarrow> j < 512 \<Longrightarrow> m (slot h j) = pmem v (slot h j)"
proof -
  let ?k = "kpt_slot v"
  have al: "page_aligned a" "page_aligned b" "page_aligned c" using f page_aligned_frame_of by metis+
  have k0: "slot ?k 0 = ?k" by (simp add: slot_def)
  have away: "\<forall>j < 512. slot h i \<noteq> slot t j" if "page_aligned h" "page_aligned t" "h \<noteq> t" "i < 512" for h t i
    using slot_inj [OF that(1,2,4)] that(3) by blast
  have st: "irq_ok (v\<lparr>pmem := m\<rparr>)" "kpt_slot (v\<lparr>pmem := m\<rparr>) = ?k" for m using assms(1) by (simp_all add: irq_ok_def kpt_slot_def)
  obtain m1 where m1: "init_table a 511 x v = Inr (pulse (v\<lparr>pmem := m1\<rparr>))"
    "\<And>j. j < 512 \<Longrightarrow> m1 (slot a j) = (if j = 511 then x else 0)" "\<And>u. (\<forall>j < 512. u \<noteq> slot a j) \<Longrightarrow> m1 u = pmem v u"
    using init_table_eq [OF assms(1,3,2), of a 511 x] assms(4) f by auto
  have z1: "m1 ?k = 0" using m1(3) [of ?k] away [OF assms(2) al(1), of 0] assms(3,4) k0 by auto
  obtain m2 where m2: "init_table b 511 y (pulse (v\<lparr>pmem := m1\<rparr>)) = Inr (pulse (v\<lparr>pmem := m2\<rparr>))"
    "\<And>j. j < 512 \<Longrightarrow> m2 (slot b j) = (if j = 511 then y else 0)" "\<And>u. (\<forall>j < 512. u \<noteq> slot b j) \<Longrightarrow> m2 u = m1 u"
    using init_table_eq [of "pulse (v\<lparr>pmem := m1\<rparr>)" b 511 y] assms(1,2,4) z1 f st by auto
  have z2: "m2 ?k = 0" using m2(3) [of ?k] away [OF assms(2) al(2), of 0] z1 assms(4) k0 by auto
  obtain m3 where m3: "init_table c 0 (calc_page (kernel_pt v AND 0x0FFFFFFF)) (pulse (v\<lparr>pmem := m2\<rparr>)) = Inr (pulse (v\<lparr>pmem := m3\<rparr>))"
    "\<And>j. j < 512 \<Longrightarrow> m3 (slot c j) = (if j = 0 then calc_page (kernel_pt v AND 0x0FFFFFFF) else 0)" "\<And>u. (\<forall>j < 512. u \<noteq> slot c j) \<Longrightarrow> m3 u = m2 u"
    using init_table_eq [of "pulse (v\<lparr>pmem := m2\<rparr>)" c 0 "calc_page (kernel_pt v AND 0x0FFFFFFF)"] assms(1,2,4) z2 f st by auto
  show thesis
  proof (rule that [of m3])
    show "m3 (slot a j) = (if j = 511 then x else 0)" if "j < 512" for j
      using m3(3) [OF away [OF al(1,3) _ that]] m2(3) [OF away [OF al(1,2) _ that]] m1(2) [OF that] assms(5) by simp
    show "m3 (slot b j) = (if j = 511 then y else 0)" if "j < 512" for j
      using m3(3) [OF away [OF al(2,3) _ that]] m2(2) [OF that] assms(5) by simp
    show "m3 (slot h j) = pmem v (slot h j)" if "page_aligned h" "h \<notin> {a, b, c}" "j < 512" for h j
      using m3(3) [OF away [OF that(1) al(3) _ that(3)]] m2(3) [OF away [OF that(1) al(2) _ that(3)]]
        m1(3) [OF away [OF that(1) al(1) _ that(3)]] that(2) by simp
  qed (use m1(1) m2(1) m3(1,2) in auto)
qed

lemma three_frames:
  assumes "phys_ok fr" and "available (n + 3) fr"
  obtains a b c fr1 fr2 fr3 where "alloc_phys_page fr = Inr (a, fr1)" and "alloc_phys_page fr1 = Inr (b, fr2)"
    and "alloc_phys_page fr2 = Inr (c, fr3)" and "distinct [a, b, c]" and "frame_of a = a" and "frame_of b = b" and "frame_of c = c"
    and "{a, b, c} \<inter> used_frames fr = {}" and "used_frames fr3 = {a, b, c} \<union> used_frames fr"
    and "free_frames fr3 \<subseteq> free_frames fr" and "phys_ok fr3" and "available n fr3"
proof -
  have one: "\<exists>p f'. alloc_phys_page f = Inr (p, f') \<and> available k f' \<and> phys_ok f' \<and> p \<notin> used_frames f
      \<and> used_frames f' = insert p (used_frames f) \<and> free_frames f' \<subseteq> free_frames f \<and> frame_of p = p"
    if "phys_ok f" "available (Suc k) f" for f k
  proof -
    note fk = that
    obtain p f' where p: "alloc_phys_page f = Inr (p, f')" "p \<noteq> 0" "available k f'" "phys_ok f'" "p \<notin> used_frames f"
      "used_frames f' = insert p (used_frames f)" "free_frames f' \<subseteq> free_frames f"
      using available_used [OF fk] by blast
    moreover have "frame_of p = p"
      using free_frame_small [OF fk(1) alloc_free_frame(1) [OF fk(1) p(1,2)]] frame_of_small by blast
    ultimately show ?thesis by blast
  qed
  have av: "available (Suc (Suc (Suc n))) fr" using assms(2) by (simp add: numeral_3_eq_3)
  obtain a f1 where a: "alloc_phys_page fr = Inr (a, f1)" "available (Suc (Suc n)) f1" "phys_ok f1" "a \<notin> used_frames fr"
    "used_frames f1 = insert a (used_frames fr)" "free_frames f1 \<subseteq> free_frames fr" "frame_of a = a" using one [OF assms(1) av] by blast
  obtain b f2 where b: "alloc_phys_page f1 = Inr (b, f2)" "available (Suc n) f2" "phys_ok f2" "b \<notin> used_frames f1"
    "used_frames f2 = insert b (used_frames f1)" "free_frames f2 \<subseteq> free_frames f1" "frame_of b = b" using one [OF a(3,2)] by blast
  obtain c f3 where c: "alloc_phys_page f2 = Inr (c, f3)" "available n f3" "phys_ok f3" "c \<notin> used_frames f2"
    "used_frames f3 = insert c (used_frames f2)" "free_frames f3 \<subseteq> free_frames f2" "frame_of c = c" using one [OF b(3,2)] by blast
  have "used_frames f3 = {a, b, c} \<union> used_frames fr" using a(5) b(5) c(5) by auto
  moreover have "free_frames f3 \<subseteq> free_frames fr" using a(6) b(6) c(6) by blast
  moreover have "a \<noteq> b" "a \<noteq> c" "b \<noteq> c" using a(5) b(4,5) c(4) by auto
  ultimately show thesis using that [OF a(1) b(1) c(1)] a(4,5,7) b(4,5,7) c(2-4,7) by simp
qed

text \<open>
  Three tables of its own, outside those of the first processor, lead the running processor to the kernel's page table.
\<close>

definition ap_view :: "vm \<Rightarrow> bool" where
  "ap_view s \<longleftrightarrow> (\<exists>b c. {cr3 s, b, c} \<subseteq> used_frames (frames s) - table_frames s
     \<and> frame_of (cr3 s) = cr3 s \<and> frame_of b = b \<and> frame_of c = c
     \<and> (\<forall>j < 512. pmem s (slot (cr3 s) j) = (if j = 511 then calc_page b else 0))
     \<and> (\<forall>j < 512. pmem s (slot b j) = (if j = 511 then calc_page c else 0))
     \<and> (\<forall>j < 512. pmem s (slot c j) = (if j = 0 then calc_page (kpt_slot s) else 0))
     \<and> tab_at (pmem s) (Page.root s) [511, 511, 0] = Some (kpt_slot s))"

text \<open>What the processor translates itself.\<close>

definition ap_translate :: "vm \<Rightarrow> u64 \<Rightarrow> pte_desc option" where
  "ap_translate s a = walk (pmem s) (cr3 s) (lin_path a)"

lemma ap_view_translate:
  assumes "vm_ok s" and "ap_view s"
  shows "ap_translate s a = (if butlast (lin_path a) = [511, 511, 0] then translate s a else None)"
proof -
  let ?k = "kpt_slot s"
  obtain b c where v: "frame_of (cr3 s) = cr3 s" "frame_of b = b" "frame_of c = c"
    "\<forall>j < 512. pmem s (slot (cr3 s) j) = (if j = 511 then calc_page b else 0)"
    "\<forall>j < 512. pmem s (slot b j) = (if j = 511 then calc_page c else 0)"
    "\<forall>j < 512. pmem s (slot c j) = (if j = 0 then calc_page ?k else 0)"
    "tab_at (pmem s) (Page.root s) [511, 511, 0] = Some ?k" using assms(2) by (auto simp: ap_view_def)
  have l: "lin_pml4 a < 512" "lin_pdp a < 512" "lin_pd a < 512" "lin_pt a < 512"
    using lin_path_ok [of a] by (auto simp: path_ok_def lin_path_def)
  have k: "frame_of ?k = ?k" using v(7) by (auto split: if_splits) (metis frame_of_idem)
  have "translate s a = walk (pmem s) ?k [lin_pt a]" if "butlast (lin_path a) = [511, 511, 0]"
    using walk_last [OF _ lin_path_ok [of a]] assms(1) v(7) that
    by (simp add: translate_def vm_ok_def tables_ok_def del: walk.simps) (simp add: lin_path_def)
  then show ?thesis using v(2-6) l k by (auto simp: ap_translate_def lin_path_def Let_def)
qed

text \<open>\<^verbatim>\<open>page_init_ap\<close> builds such tables from three fresh frames and changes nothing else.\<close>

lemma page_init_ap_ok:
  assumes ok: "vm_ok s" and d: "intr_depth (this_cpu s) (irq s) < 254" and av: "available (n + 3) (frames s)"
    and K: "kernel_pt s AND 0x0FFFFFFF = kpt_slot s" and T: "tab_at (pmem s) (Page.root s) [511, 511, 0] = Some (kpt_slot s)"
  obtains s' where "page_init_ap s = Inr s'" and "vm_ok s'" and "\<And>a. translate s' a = translate s a" and "available n (frames s')"
    and "kheap s' = kheap s" and "this_cpu s' = this_cpu s" and "kernel_pt s' = kernel_pt s" and "PML4 s' = PML4 s"
    and "intr_depth (this_cpu s) (irq s') = intr_depth (this_cpu s) (irq s)" and "cr3 s' \<notin> used_frames (frames s)"
    and "ap_view s'"
proof -
  let ?k = "kpt_slot s"
  have o: "irq_ok s" "page_aligned ?k" "pmem s ?k = 0" "?k \<in> used_frames (frames s)" "phys_ok (frames s)"
    using ok by (auto simp: vm_ok_def tables_ok_def)
  obtain q where q: "irq_off s = Inr (s\<lparr>irq := q\<rparr>)" "irq_ok (s\<lparr>irq := q\<rparr>)" "0 < intr_depth (this_cpu s) q"
    "intr_depth (this_cpu s) q = Suc (intr_depth (this_cpu s) (irq s))" by (rule irq_off_eq [OF o(1) d])
  obtain a b c f1 f2 f3 where A: "alloc_phys_page (frames s) = Inr (a, f1)" "alloc_phys_page f1 = Inr (b, f2)"
    "alloc_phys_page f2 = Inr (c, f3)" and di: "distinct [a, b, c]" and f: "frame_of a = a" "frame_of b = b" "frame_of c = c"
    and F: "{a, b, c} \<inter> used_frames (frames s) = {}" "used_frames f3 = {a, b, c} \<union> used_frames (frames s)"
      "free_frames f3 \<subseteq> free_frames (frames s)" "phys_ok f3" "available n f3"
    by (rule three_frames [OF o(5) av])
  define v where "v = s\<lparr>irq := q, cr3 := PML4 s AND 0x000FFFFFFFFFF000, frames := f3\<rparr>"
  have v: "irq_ok v" "kpt_slot v = ?k" "pmem v = pmem s" using q(2) by (simp_all add: v_def irq_ok_def kpt_slot_def)
  have kpv: "kernel_pt v = kernel_pt s" by (simp add: v_def)
  have kn: "?k \<notin> {a, b, c}" using F(1) o(4) by blast
  obtain m where m: "rbind (init_table a 511 (calc_page b) v) (\<lambda>s. rbind (init_table b 511 (calc_page c) s)
      (\<lambda>s. rbind (init_table c 0 (calc_page (kernel_pt s AND 0x0FFFFFFF)) s) (\<lambda>s. irq_on (cr3_load a s))))
      = irq_on (cr3_load a (pulse (v\<lparr>pmem := m\<rparr>)))"
    "\<And>j. j < 512 \<Longrightarrow> m (slot a j) = (if j = 511 then calc_page b else 0)"
    "\<And>j. j < 512 \<Longrightarrow> m (slot b j) = (if j = 511 then calc_page c else 0)"
    "\<And>j. j < 512 \<Longrightarrow> m (slot c j) = (if j = 0 then calc_page ?k else 0)"
    "\<And>h j. page_aligned h \<Longrightarrow> h \<notin> {a, b, c} \<Longrightarrow> j < 512 \<Longrightarrow> m (slot h j) = pmem s (slot h j)"
    using init_three [of v a b c "calc_page b" "calc_page c" "\<lambda>s. irq_on (cr3_load a s)", OF v(1)] unfolding v(2,3) kpv K
    using o(2,3) kn di f by blast
  let ?w = "cr3_load a (pulse (v\<lparr>pmem := m\<rparr>))"
  have w: "irq_ok ?w" "intr_depth (this_cpu s) (irq ?w) = intr_depth (this_cpu s) q" "this_cpu ?w = this_cpu s"
    using v(1) by (simp_all add: cr3_load_def pulse_def irq_ok_def v_def intr_depth_def cpu_ok_def)
  obtain q' where q': "irq_on ?w = Inr (?w\<lparr>irq := q'\<rparr>)" "irq_ok (?w\<lparr>irq := q'\<rparr>)"
    "intr_depth (this_cpu ?w) q' = intr_depth (this_cpu ?w) (irq ?w) - 1"
    using irq_on_eq [OF w(1)] w(2,3) q(3) by auto
  let ?u = "s\<lparr>frames := f3, pmem := m\<rparr>"
  let ?t = "?w\<lparr>irq := q'\<rparr>"
  have u: "vm_ok ?u" "\<And>x. translate ?u x = translate s x"
    using vm_ok_other [OF ok F(4), of "{a, b, c}" m] F(1-3) m(5) by auto
  have eqs: "pmem ?t = m" "PML4 ?t = PML4 s" "kernel_pt ?t = kernel_pt s" "frames ?t = f3" "cr3 ?t = a" "kheap ?t = kheap s" "this_cpu ?t = this_cpu s"
    using f(1) by (simp_all add: cr3_load_def v_def frame_of_eq pulse_def)
  have av: "ap_view ?t"
  proof -
    have "table_frames ?t = table_frames s"
      using vm_ok_other(3) [OF ok F(4), of "{a, b, c}" m] F(1-3) m(5) eqs by (auto simp: table_frames_def Page.root_def)
    moreover have "table_frames s \<subseteq> used_frames (frames s)" using ok by (simp add: table_frames_def vm_ok_def tables_ok_def)
    moreover have "tab_at m (Page.root s) (butlast [511, 511, 0, 0]) = Some ?k"
      using vm_ok_other(4) [OF ok F(4), of "{a, b, c}" m "[511, 511, 0, 0]"] F(1-3) m(5) T
      by (auto simp: path_ok_def simp del: tab_at.simps)
    moreover have "Page.root ?t = Page.root s" "kpt_slot ?t = ?k" using eqs by (simp_all add: Page.root_def kpt_slot_def)
    ultimately show ?thesis
      unfolding ap_view_def eqs using F(1,2) f m(2-4) by (intro exI [of _ b] exI [of _ c]) (auto simp del: tab_at.simps)
  qed
  show thesis
  proof (rule that [of ?t])
    show "page_init_ap s = Inr ?t"
      using q(1) A m(1) q'(1) by (simp add: page_init_ap_def alloc_frame_vm_def cr3_load_def v_def)
    show "vm_ok ?t" using u(1) q'(2) eqs by (simp add: vm_ok_def Page.root_def kpt_slot_def)
    show "translate ?t x = translate s x" for x using u(2) [of x] eqs by (simp add: translate_def Page.root_def)
  qed (use eqs F q' w q av in \<open>simp_all\<close>)
qed

section \<open>The tables of the processor and later mappings\<close>

text \<open>An insertion removes no table.\<close>

lemma below_keeps_tab:
  assumes ok: "tables_ok (Suc d) f m fr" and i: "i < 512" "m (slot f i) \<noteq> 0"
    and ins: "inserted d (frame_of (m (slot f i))) is ph m fr m' fr'"
    and IH: "\<And>js. path_ok d js \<Longrightarrow> tab_at m (frame_of (m (slot f i))) (butlast js) = Some g
      \<Longrightarrow> tab_at m' (frame_of (m (slot f i))) (butlast js) = Some g"
    and js: "path_ok (Suc d) js" "tab_at m f (butlast js) = Some g"
  shows "tab_at m' f (butlast js) = Some g"
proof -
  let ?g = "frame_of (m (slot f i))" and ?N = "used_frames fr' - used_frames fr"
  have t: "tree m (Suc d) f" and u: "tabs m (Suc d) f \<subseteq> used_frames fr" using ok by (auto simp: tables_ok_def)
  have r: "tree m' d ?g" "tabs m' d ?g \<subseteq> tabs m d ?g \<union> ?N"
    "\<forall>h. page_aligned h \<longrightarrow> h \<notin> tabs m' d ?g \<longrightarrow> (\<forall>j < 512. m' (slot h j) = m (slot h j))"
    using ins by (auto simp: inserted_def)
  have N: "?N \<inter> tabs m (Suc d) f = {}" using u by blast
  note D = descend [OF t i refl r(1,2) N r(3)]
  obtain k k' ks where k: "js = k # k' # ks" "k < 512" "path_ok d (k' # ks)" using path_ok_Suc [OF js(1)] by blast
  then have nz: "m (slot f k) \<noteq> 0" and tk: "tab_at m (frame_of (m (slot f k))) (butlast (k' # ks)) = Some g"
    using js(2) by (auto split: if_splits)
  have "tab_at m' (frame_of (m (slot f k))) (butlast (k' # ks)) = Some g"
  proof (cases "k = i")
    case True
    then show ?thesis using IH k(3) tk by blast
  next
    case False
    then show ?thesis using tab_at_agree [OF D(7) [OF k(2) nz False] k(3)] tk by simp
  qed
  then show ?thesis using k(1) nz D(6) [OF k(2)] by simp
qed

lemma map_path_keeps_tab:
  assumes "tables_ok d f m fr" and "path_ok d is" and "available d fr" and "map_path ph f is (m, fr) = Inr (m', fr')"
    and "path_ok d js" and "tab_at m f (butlast js) = Some g"
  shows "tab_at m' f (butlast js) = Some g"
  using assms
proof (induction d arbitrary: f m fr "is" js)
  case 0
  then show ?case using path_ok_0 by fastforce
next
  case (Suc d)
  obtain i j ks where p: "is = i # j # ks" "i < 512" "path_ok d (j # ks)" using path_ok_Suc [OF Suc.prems(2)] by blast
  have av: "available d fr" using available_mono [OF Suc.prems(3)] by simp
  show ?case
  proof (cases "m (slot f i) = 0")
    case False
    note c = tables_ok_child [OF Suc.prems(1) p(2) False]
    have mp: "map_path ph (frame_of (m (slot f i))) (j # ks) (m, fr) = Inr (m', fr')" using Suc.prems(4) p(1) False by simp
    then have ins: "inserted d (frame_of (m (slot f i))) (j # ks) ph m fr m' fr'"
      using map_path_inserts [OF c p(3) av, of ph] by auto
    show ?thesis
      by (rule below_keeps_tab [OF Suc.prems(1) p(2) False ins Suc.IH [OF c p(3) av mp] Suc.prems(5,6)])
  next
    case True
    obtain q fr1 where a: "alloc_phys_page fr = Inr (q, fr1)" "q \<noteq> 0" "available d fr1" by (rule available_Suc [OF Suc.prems(3)])
    define e where "e = set_flag 2 (bit ph 2) (calc_page q)"
    define m1 where "m1 = m(slot f i := e)"
    note I = insert_new [OF Suc.prems(1) p(2) True a(1,2), where b = "bit ph 2", folded e_def, folded m1_def]
    note c = tables_ok_child [OF I(1) p(2) I(2)]
    have mp: "map_path ph (frame_of (m1 (slot f i))) (j # ks) (m1, fr1) = Inr (m', fr')"
      using Suc.prems(4) p(1) True a(1) by (simp add: e_def m1_def Let_def)
    then have ins: "inserted d (frame_of (m1 (slot f i))) (j # ks) ph m1 fr1 m' fr'"
      using map_path_inserts [OF c p(3) a(3), of ph] by auto
    have t1: "tab_at m1 f (butlast js) = Some g"
    proof -
      obtain k k' ls where k: "js = k # k' # ls" "k < 512" "path_ok d (k' # ls)" using path_ok_Suc [OF Suc.prems(5)] by blast
      then have nz: "m (slot f k) \<noteq> 0" and tk: "tab_at m (frame_of (m (slot f k))) (butlast (k' # ls)) = Some g"
        using Suc.prems(6) by (auto split: if_splits)
      have t: "tree m (Suc d) f" using Suc.prems(1) by (simp add: tables_ok_def)
      then have c: "tree m d (frame_of (m (slot f k)))" "f \<notin> tabs m d (frame_of (m (slot f k)))" "page_aligned f"
        using k(2) nz by (simp_all add: tree.simps(2))
      have "agree_on (tabs m d (frame_of (m (slot f k)))) m m1"
        unfolding m1_def by (rule agree_on_upd [OF c(3) p(2) _ c(2)]) (use tabs_aligned [OF c(1)] in blast)
      moreover have "m1 (slot f k) = m (slot f k)"
        using slot_inj [OF c(3,3) k(2) p(2)] nz True by (auto simp: m1_def)
      ultimately show ?thesis using tab_at_agree [OF _ k(3)] tk k(1) nz by simp
    qed
    show ?thesis
      by (rule below_keeps_tab [OF I(1) p(2) I(2) ins Suc.IH [OF c p(3) a(3) mp] Suc.prems(5) t1])
  qed
qed

text \<open>The tables depend on memory, frames and \<^verbatim>\<open>cr3\<close> only.\<close>

lemma ap_view_cong:
  assumes "pmem t = pmem s" and "frames t = frames s" and "cr3 t = cr3 s" and "kernel_pt t = kernel_pt s" and "PML4 t = PML4 s"
  shows "ap_view t = ap_view s" and "ap_translate t a = ap_translate s a" and "translate t a = translate s a"
  using assms by (simp_all add: ap_view_def ap_translate_def translate_def table_frames_def Page.root_def kpt_slot_def)

lemma view_irq:
  "ap_view (s\<lparr>irq := q\<rparr>) = ap_view s" "ap_translate (s\<lparr>irq := q\<rparr>) a = ap_translate s a" "translate (s\<lparr>irq := q\<rparr>) a = translate s a"
  by (rule ap_view_cong; simp)+

lemma ap_view_mount:
  assumes ok: "vm_ok s" and v: "ap_view s" and a: "outside_window a" "available 3 (frames s)" and m: "mount_page_do a ph s = Inr s'"
  shows "ap_view s'"
proof -
  obtain m fr where r: "mount_page_do a ph s = Inr (pulse (s\<lparr>frames := fr, pmem := m\<rparr>))"
    and ins: "inserted 3 (Page.root s) (lin_path a) ph (pmem s) (frames s) m fr"
    and mp: "map_path ph (Page.root s) (lin_path a) (pmem s, frames s) = Inr (m, fr)"
    by (rule mount_page_do_inserts [OF ok a])
  have w: "m (kpt_slot s) = 0" using mount_page_do_closes [OF r] by simp
  note V = inserted_vm [OF ok ins w]
  have s': "s' = pulse (s\<lparr>frames := fr, pmem := m\<rparr>)" using r assms(5) by simp
  have f: "frames s' = fr" "cr3 s' = cr3 s" "kpt_slot s' = kpt_slot s" "pmem s' = m" "Page.root s' = Page.root s"
    by (simp_all add: s' Page.root_def)
  have u: "used_frames (frames s) \<subseteq> used_frames fr" using ins by (simp add: inserted_def)
  obtain b c where v: "{cr3 s, b, c} \<subseteq> used_frames (frames s) - table_frames s" "frame_of (cr3 s) = cr3 s" "frame_of b = b" "frame_of c = c"
    "\<forall>j < 512. pmem s (slot (cr3 s) j) = (if j = 511 then calc_page b else 0)"
    "\<forall>j < 512. pmem s (slot b j) = (if j = 511 then calc_page c else 0)"
    "\<forall>j < 512. pmem s (slot c j) = (if j = 0 then calc_page (kpt_slot s) else 0)"
    "tab_at (pmem s) (Page.root s) [511, 511, 0] = Some (kpt_slot s)" using v by (auto simp: ap_view_def)
  have t: "{cr3 s, b, c} \<subseteq> used_frames fr - table_frames s'" using V(5) v(1) u unfolding s' by auto
  have same: "m (slot h j) = pmem s (slot h j)" if "h \<in> {cr3 s, b, c}" "j < 512" for h j
  proof -
    have "page_aligned h" using that(1) v(2-4) page_aligned_frame_of by (metis insertE emptyE)
    then show ?thesis using V(4) [of h j] t that unfolding s' by auto
  qed
  have "tab_at m (Page.root s) (butlast [511, 511, 0, 0]) = Some (kpt_slot s)"
    by (rule map_path_keeps_tab [OF _ lin_path_ok a(2) mp])
      (use ok v(8) in \<open>simp_all add: vm_ok_def path_ok_def del: tab_at.simps\<close>)
  then show ?thesis
    unfolding ap_view_def f using t same v(2-7) by (intro exI [of _ b] exI [of _ c]) (simp add: f del: tab_at.simps)
qed

lemma ap_view_frames: "ap_view s \<Longrightarrow> used_frames (frames s) \<subseteq> used_frames fr \<Longrightarrow> ap_view (s\<lparr>frames := fr\<rparr>)"
proof -
  assume v: "ap_view s" and u: "used_frames (frames s) \<subseteq> used_frames fr"
  have e: "table_frames (s\<lparr>frames := fr\<rparr>) = table_frames s" "kpt_slot (s\<lparr>frames := fr\<rparr>) = kpt_slot s"
    "Page.root (s\<lparr>frames := fr\<rparr>) = Page.root s" by (simp_all add: table_frames_def Page.root_def kpt_slot_def)
  show "ap_view (s\<lparr>frames := fr\<rparr>)" using v unfolding ap_view_def e
    by (elim ex_forward conj_forward) (use u in \<open>auto simp del: tab_at.simps\<close>)
qed

lemma tls_outside: "outside_window TLS_ADDR"
  by (simp add: outside_window_def lin_path_window TLS_ADDR_def)
    (simp add: lin_path_def lin_pml4_def lin_pdp_def lin_pd_def lin_pt_def)

lemma ap_view_tls:
  assumes ok: "vm_ok s" and v: "ap_view s" and av: "available 4 (frames s)" and u: "alloc_pages_user TLS_ADDR 4 s = Inr s'"
  shows "ap_view s'" and "lin_path b \<noteq> lin_path TLS_ADDR \<Longrightarrow> translate s' b = translate s b"
proof -
  have pok: "phys_ok (frames s)" and av': "available (Suc 3) (frames s)" using ok av by (simp_all add: vm_ok_def tables_ok_def)
  obtain p fr where p: "alloc_phys_page (frames s) = Inr (p, fr)" "available 3 fr" "phys_ok fr"
    "used_frames fr = insert p (used_frames (frames s))" "free_frames fr \<subseteq> free_frames (frames s)"
    by (rule available_used [OF pok av'])
  have v1: "vm_ok (s\<lparr>frames := fr\<rparr>)" "\<And>b. translate (s\<lparr>frames := fr\<rparr>) b = translate s b"
    using vm_ok_frames [OF ok p(3) _ p(5)] p(4) by auto
  have v2: "ap_view (s\<lparr>frames := fr\<rparr>)" by (rule ap_view_frames [OF v]) (use p(4) in auto)
  have m: "mount_page_do TLS_ADDR (user_page p) (s\<lparr>frames := fr\<rparr>) = Inr s'"
  proof -
    have "page_loop f 4 0x1000 t = Some (Inr t)" for f t by (subst page_loop.simps) simp
    then show ?thesis
      using u p(1) unfolding alloc_pages_user_add
      by (simp add: page_loop.simps [of _ _ 0] add_page_def alloc_frame_vm_def split: sum.splits)
  qed
  have a3: "available 3 (frames (s\<lparr>frames := fr\<rparr>))" using p(2) by simp
  show "ap_view s'" by (rule ap_view_mount [OF v1(1) v2 tls_outside a3 m])
  show "translate s' b = translate s b" if "lin_path b \<noteq> lin_path TLS_ADDR"
  proof -
    obtain s1 where s1: "mount_page_do TLS_ADDR (user_page p) (s\<lparr>frames := fr\<rparr>) = Inr s1"
      "\<And>b. lin_path b \<noteq> lin_path TLS_ADDR \<Longrightarrow> translate s1 b = translate (s\<lparr>frames := fr\<rparr>) b"
      by (rule mount_page_do_spec [OF v1(1) tls_outside a3, of "user_page p"]) blast
    then show ?thesis using m s1(2) [OF that] v1(2) [of b] by simp
  qed
qed

section \<open>The other parts of the start\<close>

lemma tss_room:
  assumes "length (GDT_addr (sgdt s)) = 16" and "1 \<le> i" and "i < 15" and "GDT_addr (sgdt s) ! i = 0"
  obtains g r where "tss_init_cpu tss cpu s = Inr (s\<lparr>sgdt := g, task_reg := r\<rparr>)"
proof -
  have "find (\<lambda>i. GDT_addr (sgdt s) ! i = 0) [1..<16] \<noteq> None" using assms(2-4) by (auto simp: find_None_iff intro!: exI [of _ i])
  then obtain j where j: "find (\<lambda>i. GDT_addr (sgdt s) ! i = 0) [1..<16] = Some j" by blast
  then obtain n where n: "n < length [1..<16::nat]" "j = [1..<16] ! n" "\<forall>k < n. GDT_addr (sgdt s) ! ([1..<16] ! k) \<noteq> 0"
    by (auto simp only: find_Some_iff)
  have "n < 14"
  proof (rule ccontr)
    assume "\<not> n < 14"
    then have "i - 1 < n" using assms(2,3) by linarith
    then have "GDT_addr (sgdt s) ! ([1..<16] ! (i - 1)) \<noteq> 0" using n(3) by blast
    moreover have "[1..<16] ! (i - 1) = i" using assms(2,3) by (simp del: upt_rec_numeral)
    ultimately show False using assms(4) by simp
  qed
  then have j15: "j < 15" "1 \<le> j" using n(1,2) by simp_all
  have "gdt_free (sgdt s) 1 = Inr j" using gdt_free_spec [of "sgdt s" 1] assms(1) j by simp
  moreover have "unat (of_nat j :: u64) = j" "unat ((of_nat j :: u64) + 1) = j + 1"
    using j15 by (simp_all add: unat_of_nat unat_word_ariths take_bit_nat_def)
  ultimately show thesis
    using that assms(1) j15 by (auto simp: tss_init_cpu_def GDT_smartaput_def GDT_smartput_def GDT_put_def Let_def SEG_PRESENT_def SEG_TSS64_def SEG_DPL3_def)
qed

lemma controller_frame:
  "\<exists>h. avm (timer_start (lapic_setup mmd s)) = (avm s)\<lparr>irq := (irq (avm s))\<lparr>ports := h\<rparr>\<rparr>"
  "acon (timer_start (lapic_setup mmd s)) = acon s" "cpu_nr (timer_start (lapic_setup mmd s)) = cpu_nr s"
  by (auto simp: timer_start_def lapic_setup_def lapic_wr_def lapic_upd_def reg_wr_def reg_rd_def port_out_def out_port_def Let_def)

lemma vm_ok_irq: "vm_ok v \<Longrightarrow> intr_sema q = intr_sema (irq v) \<Longrightarrow> vm_ok (v\<lparr>irq := q\<rparr>)"
  by (simp add: vm_ok_def tables_ok_def Page.root_def kpt_slot_def irq_ok_def cpu_ok_def intr_depth_def)

text \<open>The local interrupt controller becomes visible in the shared page table.\<close>

lemma apic_init_ap_ok:
  assumes ok: "vm_ok (avm x)" and v: "ap_view (avm x)" and av: "available (n + 3) (frames (avm x))" and l: "lapic_addr x = APIC_LAPIC_ADDR"
  obtains y where "apic_init_ap mmd x = Inr y" and "vm_ok (avm y)" and "ap_view (avm y)" and "available n (frames (avm y))"
    and "translate (avm y) APIC_LAPIC_ADDR = Some (calc_page_hw (ucast (lapic_hw_addr x)))" and "kheap (avm y) = kheap (avm x)"
    and "this_cpu (avm y) = this_cpu (avm x)" and "intr_sema (irq (avm y)) = intr_sema (irq (avm x))" and "acon y = acon x" and "cpu_nr y = cpu_nr x"
proof -
  let ?ph = "calc_page_hw (ucast (lapic_hw_addr x))"
  have o: "outside_window APIC_LAPIC_ADDR"
    by (simp add: outside_window_def lin_path_window APIC_LAPIC_ADDR_def)
      (simp add: lin_path_def lin_pml4_def lin_pdp_def lin_pd_def lin_pt_def)
  have a3: "available 3 (frames (avm x))" using available_mono [OF av] by simp
  obtain w where w: "mount_page_do APIC_LAPIC_ADDR ?ph (avm x) = Inr w" "vm_ok w" "available n (frames w)" "translate w APIC_LAPIC_ADDR = Some ?ph"
    by (rule mount_page_do_present [OF ok o av calc_page_hw_present]) blast
  obtain w' where "mount_page_do APIC_LAPIC_ADDR ?ph (avm x) = Inr w'" "w' = pulse ((avm x)\<lparr>frames := frames w', pmem := pmem w'\<rparr>)"
    by (rule mount_page_do_spec [OF ok o a3, of ?ph]) blast
  then have p: "w = pulse ((avm x)\<lparr>frames := frames w, pmem := pmem w\<rparr>)" using w(1) by simp
  have k: "kheap w = kheap (avm x)" by (rule trans [OF arg_cong [OF p, of kheap]]) simp
  have k2: "this_cpu w = this_cpu (avm x)" by (rule trans [OF arg_cong [OF p, of this_cpu]]) simp
  have k3: "intr_sema (irq w) = intr_sema (irq (avm x))"
    by (rule trans [OF arg_cong [OF p, of "\<lambda>w. intr_sema (irq w)"]]) (simp add: pulse_def)
  have vw: "ap_view w" by (rule ap_view_mount [OF ok v o a3 w(1)])
  let ?y = "timer_start (lapic_setup mmd (x\<lparr>avm := w\<rparr>))"
  obtain h where h: "avm ?y = w\<lparr>irq := (irq w)\<lparr>ports := h\<rparr>\<rparr>" using controller_frame(1) [of mmd "x\<lparr>avm := w\<rparr>"] by auto
  show thesis
  proof (rule that [of ?y])
    show "apic_init_ap mmd x = Inr ?y" using w(1) l by (simp add: apic_init_ap_def in_avm_def mount_page_hw_def)
    show "vm_ok (avm ?y)" unfolding h by (rule vm_ok_irq [OF w(2)]) simp
    show "ap_view (avm ?y)" unfolding h view_irq by (rule vw)
    show "translate (avm ?y) APIC_LAPIC_ADDR = Some ?ph" unfolding h view_irq by (rule w(4))
  qed (use h w(3) k k2 k3 controller_frame(2,3) [of mmd "x\<lparr>avm := w\<rparr>"] in simp_all)
qed

text \<open>The idle task of the processor.\<close>

lemma idle_task_ok:
  assumes ok: "vm_ok (svm s)" and v: "ap_view (svm s)" and d: "intr_depth (this_cpu (svm s)) (irq (svm s)) < 254"
    and av: "available 4 (frames (svm s))" and H: "kmalloc SIZEOF_TASK (kheap (svm s)) = Inr (p, H)" "p \<noteq> 0"
    and r: "ring (tasks s) (c # qs)" "p \<notin> set (c # qs)" and cpu: "0 < cpu" "cpu < length (curr s)" "curr s ! 0 = c"
  obtains s' where "task_init_cpu cpu junk s = Inr s'" and "ring (tasks s') (c # p # qs)" and "curr s' = (curr s)[cpu := p]"
    and "vm_ok (svm s')" and "ap_view (svm s')"
    and "\<And>b. lin_path b \<noteq> lin_path TLS_ADDR \<Longrightarrow> translate (svm s') b = translate (svm s) b"
proof -
  obtain w u v1 where G: "irq_off (svm s) = Inr w" "kmalloc SIZEOF_TASK (kheap w) = Inr (p, H)"
    "alloc_pages_user TLS_ADDR 4 (w\<lparr>kheap := H\<rparr>) = Inr u" "irq_on u = Inr v1" "vm_ok v1"
    by (rule guarded_task [OF ok d av H(1)]) blast
  obtain q where q: "w = (svm s)\<lparr>irq := q\<rparr>" "irq_ok w"
    using irq_off_eq [of "svm s"] ok d G(1) by (auto simp: vm_ok_def)
  have w: "vm_ok (w\<lparr>kheap := H\<rparr>)" "ap_view (w\<lparr>kheap := H\<rparr>)" "\<And>b. translate (w\<lparr>kheap := H\<rparr>) b = translate (svm s) b"
    "available 4 (frames (w\<lparr>kheap := H\<rparr>))"
    using ok v q av ap_view_cong [of "w\<lparr>kheap := H\<rparr>" "svm s"]
    by (auto simp: vm_ok_def tables_ok_def Page.root_def kpt_slot_def irq_ok_def)
  note T = ap_view_tls [OF w(1,2,4) G(3)]
  obtain q' where q': "v1 = u\<lparr>irq := q'\<rparr>" using G(4) by (auto simp: irq_on_def rbind_eq_Inr)
  have e: "ap_view v1" "translate v1 b = translate u b" for b using T(1) ap_view_cong [of v1 u] q' by auto
  obtain ct where ct: "tasks s c = Some ct" using links_dom [of "tasks s" c qs c c] r(1) by auto
  have pc: "p \<noteq> c" using r(2) by auto
  let ?t = "junk\<lparr>pid := next_pid s, regs := zero_regs, state := TASK_RUNNING, tls := TLS_ADDR,
    next_task := next_task ct, files := replicate 16 0\<rparr>"
  let ?s' = "s\<lparr>curr := (curr s)[cpu := p], next_pid := next_pid s + 1, tasks := (tasks s)(c \<mapsto> ct\<lparr>next_task := p\<rparr>, p \<mapsto> ?t), svm := v1\<rparr>"
  show thesis
  proof (rule that [of ?s'])
    show "task_init_cpu cpu junk s = Inr ?s'"
      using task_init_cpu_eq [OF G(1,2) H(2) cpu(1,2), of ct junk] G(3,4) ct pc cpu(3) by (simp add: MAX_OPEN_FILES_def)
    show "ring (tasks ?s') (c # p # qs)"
      by (rule ring_insert [where t = ?t, OF r H(2) ct]) (use r pc in auto)
  qed (use G(5) e T(2) w(3) in simp_all)
qed

section \<open>The start of a processor\<close>

text \<open>
  When \<^verbatim>\<open>kernel_ap_start\<close> runs on processor \<open>cpu\<close>: page tables in order with the kernel below 256 megabytes, a ring of tasks with
  that of the first processor \<open>c\<close>, a block \<open>p\<close> of the heap for a task, ten frames, room for a task state segment.
\<close>

definition ap_ready :: "nat \<Rightarrow> u64 \<Rightarrow> u64 \<Rightarrow> u64 list \<Rightarrow> machine \<Rightarrow> bool" where
  "ap_ready cpu p c qs m \<longleftrightarrow> (let P = procs (msys m); v = (svm P)\<lparr>this_cpu := cpu\<rparr> in
     vm_ok v \<and> intr_depth cpu (irq v) < 254 \<and> available 10 (frames v)
     \<and> kernel_pt v AND 0x0FFFFFFF = kpt_slot v \<and> tab_at (pmem v) (Page.root v) [511, 511, 0] = Some (kpt_slot v)
     \<and> (\<exists>H. kmalloc SIZEOF_TASK (kheap v) = Inr (p, H)) \<and> p \<noteq> 0
     \<and> ring (tasks P) (c # qs) \<and> p \<notin> set (c # qs) \<and> 0 < cpu \<and> cpu < length (curr P) \<and> curr P ! 0 = c
     \<and> length (GDT_addr (sgdt P)) = 16 \<and> (\<exists>i. 1 \<le> i \<and> i < 15 \<and> GDT_addr (sgdt P) ! i = 0)
     \<and> lapic_addr (mapic m) = APIC_LAPIC_ADDR \<and> ktty_ok (console (fsys (msys m))))"

text \<open>The three steps on the page tables.\<close>

lemma ap_memory:
  assumes R: "ap_ready cpu p c qs m"
  defines "v \<equiv> (svm (procs (msys m)))\<lparr>this_cpu := cpu\<rparr>"
  obtains w y where "page_init_ap (v\<lparr>irq := intr_init_ap cpu (irq v)\<rparr>) = Inr w"
    and "apic_init_ap mmd ((mapic m)\<lparr>avm := w, acon := console (fsys (msys m))\<rparr>) = Inr y"
    and "vm_ok (avm y)" and "ap_view (avm y)" and "available 4 (frames (avm y))" and "kheap (avm y) = kheap v"
    and "intr_depth (this_cpu (avm y)) (irq (avm y)) < 254" and "this_cpu (avm y) = cpu"
    and "translate (avm y) APIC_LAPIC_ADDR = Some (calc_page_hw (ucast (lapic_hw_addr (mapic m))))"
    and "acon y = console (fsys (msys m))" and "cpu_nr y = cpu_nr (mapic m)"
proof -
  have r: "vm_ok v" "intr_depth cpu (irq v) < 254" "available 10 (frames v)" "kernel_pt v AND 0x0FFFFFFF = kpt_slot v"
    "tab_at (pmem v) (Page.root v) [511, 511, 0] = Some (kpt_slot v)" "lapic_addr (mapic m) = APIC_LAPIC_ADDR"
    using R by (simp_all add: ap_ready_def Let_def v_def del: tab_at.simps)
  have tc: "this_cpu v = cpu" by (simp add: v_def)
  let ?q = "intr_init_ap cpu (irq v)"
  have q: "intr_sema ?q = intr_sema (irq v)" by (simp add: intr_init_ap_def IDT_load_def)
  let ?v = "v\<lparr>irq := ?q\<rparr>"
  have ok: "vm_ok ?v" by (rule vm_ok_irq [OF r(1) q])
  have d: "intr_depth (this_cpu ?v) (irq ?v) < 254" using r(2) q tc by (simp add: intr_depth_def)
  have av: "available (7 + 3) (frames ?v)" using r(3) by simp
  have K: "kernel_pt ?v AND 0x0FFFFFFF = kpt_slot ?v" using r(4) by (simp add: kpt_slot_def)
  have T: "tab_at (pmem ?v) (Page.root ?v) [511, 511, 0] = Some (kpt_slot ?v)"
    using r(5) by (simp add: kpt_slot_def Page.root_def del: tab_at.simps)
  obtain w where w: "page_init_ap ?v = Inr w" "vm_ok w" "available 7 (frames w)" "kheap w = kheap ?v" "this_cpu w = this_cpu ?v"
    "intr_depth (this_cpu ?v) (irq w) = intr_depth (this_cpu ?v) (irq ?v)" "ap_view w"
    by (rule page_init_ap_ok [OF ok d av K T])
  let ?x = "(mapic m)\<lparr>avm := w, acon := console (fsys (msys m))\<rparr>"
  have x: "vm_ok (avm ?x)" "ap_view (avm ?x)" "available (4 + 3) (frames (avm ?x))" "lapic_addr ?x = APIC_LAPIC_ADDR"
    using w(2,3,7) r(6) by simp_all
  obtain y where y: "apic_init_ap mmd ?x = Inr y" "vm_ok (avm y)" "ap_view (avm y)" "available 4 (frames (avm y))"
    "translate (avm y) APIC_LAPIC_ADDR = Some (calc_page_hw (ucast (lapic_hw_addr ?x)))" "kheap (avm y) = kheap (avm ?x)"
    "this_cpu (avm y) = this_cpu (avm ?x)" "intr_sema (irq (avm y)) = intr_sema (irq (avm ?x))" "acon y = acon ?x" "cpu_nr y = cpu_nr ?x"
    by (rule apic_init_ap_ok [OF x])
  show thesis
    by (rule that [OF w(1) y(1-4)]) (use y(5-10) w(4-6) d tc in \<open>simp_all add: intr_depth_def\<close>)
qed


section \<open>Witness\<close>

text \<open>Page tables as \<^verbatim>\<open>mem_init\<close> leaves them, seen from processor 2, with the heap of the other examples.\<close>

lemma demo_ap_vm:
  obtains v where "vm_ok (v\<lparr>this_cpu := 2\<rparr>)" and "intr_depth 2 (irq v) = 0" and "available 10 (frames v)"
    and "kernel_pt v AND 0x0FFFFFFF = kpt_slot v" and "tab_at (pmem v) (Page.root v) [511, 511, 0] = Some (kpt_slot v)"
    and "kheap v = boot_heap"
proof -
  have s: "sane_boot demo_boot 0x9000 [area_7mb] (pmem demo_vm)" using demo_sane by (simp add: demo_machine_def demo_sched_def)
  have z: "boot_size (mb_info demo_boot) = 16" "boot_last demo_boot = 0x106000"
    by (simp_all add: boot_last_def boot_size_def demo_boot_def demo_mb_def)
  have c: "16 \<le> card (map_free 0x106000 16 [area_7mb])" using s z by (simp add: sane_boot_def)
  obtain M v L lst f where mi: "mem_init 0x100000 16 0x9000 demo_mb [0xFFFFFFFFC000A000 \<mapsto> area_7mb] demo_vm = Inr (M, v)"
    and L: "L = (0x100000 AND 0x0FFFF000) + 0x1000"
    and lst: "lst = (0x100000 AND 0x0FFFF000) + 0x5000 + of_nat (4096 * ((unat (16 :: u64) + 127) div 128))"
    and fr: "phys_ok (frames v)" "npages (frames v) = 256 * unat (16 :: u64)"
      "\<forall>n < npages (frames v). busy (frames v) n \<longleftrightarrow> \<not> (\<exists>m \<in> set [area_7mb]. unit_freed lst m (n div 64))"
    and bt: "boot_tables L v" "low_frame L" "boot_image L (pmem demo_vm) (pmem v)" and q: "irq v = (irq demo_vm)\<lparr>iflag := f\<rparr>"
    by (rule mem_init_ok [OF demo_layout demo_vm_sel(5) demo_mmap demo_vm_heap_free]) blast
  have l: "L = 0x101000" "lst = 0x106000" using L lst by simp_all
  have "vm_ok v" by (rule boot_vm_ok [OF bt _ fr]) (use demo_boot_ram l in \<open>simp add: demo_vm_sel\<close>)
  moreover have "cpu_ok 2 (irq v)" "intr_depth 2 (irq v) = 0"
    using q by (simp_all add: cpu_ok_def intr_depth_def demo_vm_def demo_intr_def MAX_CPU_NR_def)
  ultimately have "vm_ok (v\<lparr>kheap := boot_heap, this_cpu := 2\<rparr>)"
    by (simp add: vm_ok_def tables_ok_def Page.root_def kpt_slot_def irq_ok_def)
  moreover have "available 10 (frames v)"
    using available_mono [OF map_free_available [OF fr, of 16], of 10] c l by simp
  moreover have "kernel_pt v AND 0x0FFFFFFF = kpt_slot v AND 0x0FFFFFFF" by (simp add: kpt_slot_def and.assoc)
  then have "kernel_pt v AND 0x0FFFFFFF = kpt_slot v" using bt(1) l by (simp add: boot_tables_def)
  moreover have "tab_at (pmem v) (Page.root v) [511, 511, 0] = Some (kpt_slot v)"
  proof -
    have nz: "calc_page x \<noteq> 0" for x using frame_of_calc_page(2) [of x] by (metis bit_0_eq bot_apply bot_bool_def)
    show ?thesis using bt(1) low_frames [OF bt(2)] nz by (simp add: boot_tables_def Page.root_def)
  qed
  ultimately show thesis
    using that [of "v\<lparr>kheap := boot_heap\<rparr>"] \<open>intr_depth 2 (irq v) = 0\<close> by (simp add: Page.root_def kpt_slot_def del: tab_at.simps)
qed


end
