(* ===== verification/Ext2_Old.thy ===== *)
theory Ext2_Old
  imports Vfs
begin

text \<open>
  The first version of the file system driver (\<^verbatim>\<open>fs/ext2_old\<close>), a program for the development machine: it opens an image of a
  disk as a file of the C library, keeps a table of open files with their positions, resolves paths, reads and seeks. The
  structures on disk are those of the driver in the kernel, whose decoders are used. A block of \<^verbatim>\<open>malloc\<close> is the list of its
  bytes; it is never short of memory. What \<^verbatim>\<open>printf\<close> reports about the volume is not modelled.
\<close>

section \<open>The C library below\<close>

text \<open>
  The image (\<open>None\<close>: it cannot be opened), what fresh memory holds, and the value of a function with result that
  ends by \<^verbatim>\<open>return;\<close>.
\<close>

record host =
  img :: "u8 list option"
  fresh :: "nat \<Rightarrow> u8"
  no_value :: int

abbreviation image_bytes :: "host \<Rightarrow> u8 list" where
  "image_bytes E \<equiv> (case img E of None \<Rightarrow> [] | Some F \<Rightarrow> F)"

text \<open>\<^verbatim>\<open>realloc\<close>; \<^verbatim>\<open>fseek\<close> with \<^verbatim>\<open>fread\<close> of \<open>n\<close> bytes to place \<open>pos\<close> of a buffer: what lies behind the end of the image is left out.\<close>

definition realloc :: "host \<Rightarrow> nat \<Rightarrow> u8 list \<Rightarrow> u8 list" where
  "realloc E n buf = take n buf @ map (fresh E) [length buf..<n]"

definition fread :: "host \<Rightarrow> nat \<Rightarrow> nat \<Rightarrow> nat \<Rightarrow> u8 list \<Rightarrow> u8 list res" where
  "fread E off pos n buf =
     (if pos + n \<le> length buf
      then let got = take n (drop off (image_bytes E)) in Inr (take pos buf @ got @ drop (pos + length got) buf)
      else Inl (Oob (int (pos + n))))"

text \<open>A structure that is allocated and filled, and a field in a buffer.\<close>

definition fetch :: "host \<Rightarrow> nat \<Rightarrow> nat \<Rightarrow> u8 list res" where
  "fetch E off n = fread E off 0 n (realloc E n [])"

definition bytes_at :: "u8 list \<Rightarrow> u64 \<Rightarrow> u8" where
  "bytes_at buf a = (if unat a < length buf then buf ! unat a else 0)"

definition field :: "((u64 \<Rightarrow> u8) \<Rightarrow> u64 \<Rightarrow> 'a) \<Rightarrow> nat \<Rightarrow> nat \<Rightarrow> u8 list \<Rightarrow> 'a res" where
  "field get off n buf =
     (if off + n \<le> length buf then Inr (get (bytes_at buf) (of_nat off)) else Inl (Oob (int off)))"

section \<open>The driver\<close>

definition EMFILE_old :: int where "EMFILE_old = -2"
definition ENOENT_old :: int where "ENOENT_old = -3"
definition ENOTDIR_old :: int where "ENOTDIR_old = -4"
definition EBADF_old :: int where "EBADF_old = -5"
definition EINVAL_old :: int where "EINVAL_old = -6"

lemmas old_errors = EMFILE_old_def ENOENT_old_def ENOTDIR_old_def EBADF_old_def EINVAL_old_def

definition EXT2_INODE_DIR :: u16 where "EXT2_INODE_DIR = 0x4000"

text \<open>The global variables. Of the initial values only the first of each table is \<^verbatim>\<open>0xFFFFFFFF\<close>.\<close>

record ext2_globals =
  start :: u32
  super :: "u8 list option"
  i_start :: "u32 list"
  open_files :: "u32 list"
  file_inodes :: "u32 list"

definition initial_globals :: ext2_globals where
  "initial_globals = \<lparr>start = 0, super = None, i_start = replicate 16 0,
     open_files = 0xFFFFFFFF # replicate 1023 0, file_inodes = 0xFFFFFFFF # replicate 1023 0\<rparr>"

definition super_at :: "ext2_globals \<Rightarrow> ext2_superblock res" where
  "super_at s = (case super s of None \<Rightarrow> Inl (BadAddr 0) | Some b \<Rightarrow> Inr (superblock_of (bytes_at b) 0))"

definition ext2_init_old :: "host \<Rightarrow> ext2_globals \<Rightarrow> ext2_globals res" where
  "ext2_init_old E s =
     (if img E = None then Inr s
      else rbind (fetch E 0 510) (\<lambda>p.
        case find (\<lambda>q. p_type q = 0x83) (map (\<lambda>i. partition_of (bytes_at p) (446 + 16 * of_nat i)) [0..<4]) of
          None \<Rightarrow> Inr s
        | Some q \<Rightarrow>
            let st = push_bit 9 (first_sector q) in
            rbind (fetch E (unat (st + 0x400)) 1024) (\<lambda>b.
            let s = s\<lparr>start := st, super := Some b\<rparr> in
            rbind (super_at s) (\<lambda>sb. rbind (BLKSZ sb) (\<lambda>_. Inr s)))))"

text \<open>After \<^verbatim>\<open>ext2_fini\<close> the pointer to the super block dangles.\<close>

definition ext2_fini_old :: "ext2_globals \<Rightarrow> ext2_globals res" where
  "ext2_fini_old s = (if start s = 0 then Inr s else rbind (super_at s) (\<lambda>_. Inr (s\<lparr>super := None\<rparr>)))"

text \<open>The place of the inode table of a group, which is kept once it was read.\<close>

definition group_table :: "host \<Rightarrow> ext2_superblock \<Rightarrow> u32 \<Rightarrow> u32 \<Rightarrow> u32 res" where
  "group_table E sb st bg =
     rbind (BLKSZ sb) (\<lambda>blk.
     rbind (fetch E (unat (ucast (st + blk * (sblock_num sb + 1)) + ucast bg * 32 :: u64)) 32) (\<lambda>d.
     Inr (inode_st (group_desc_of (bytes_at d) 0) * blk)))"

definition ext2_read_inode_old :: "host \<Rightarrow> u32 \<Rightarrow> ext2_globals \<Rightarrow> (u8 list \<times> ext2_globals) res" where
  "ext2_read_inode_old E ino s =
     rbind (super_at s) (\<lambda>sb.
     if ind_in_grp sb = 0 then Inl DivZero else
     let bg = (ino - 1) div ind_in_grp sb; ix = (ino - 1) mod ind_in_grp sb in
     if 16 \<le> unat bg then Inl (Oob (int (unat bg))) else
     rbind (if i_start s ! unat bg = 0
            then rbind (group_table E sb (start s) bg) (\<lambda>t. Inr (s\<lparr>i_start := (i_start s)[unat bg := t]\<rparr>))
            else Inr s) (\<lambda>s.
     rbind (fetch E (unat (i_start s ! unat bg + start s + ix * ucast (inode_size sb))) (unat (inode_size sb))) (\<lambda>buf.
     Inr (buf, s))))"

fun data_loop :: "host \<Rightarrow> u32 \<Rightarrow> u32 \<Rightarrow> u8 list \<Rightarrow> nat list \<Rightarrow> u8 list \<Rightarrow> u8 list res" where
  "data_loop E st blk buf [] data = Inr data"
| "data_loop E st blk buf (k # ks) data =
     rbind (field get32 (40 + 4 * k) 4 buf) (\<lambda>b.
       if b = 0 then Inr data
       else rbind (fread E (unat (st + b * blk)) (unat (int_u64 (of_nat k * blk))) (unat (int_u64 blk))
                     (realloc E (unat (int_u64 ((of_nat k + 1) * blk))) data))
              (data_loop E st blk buf ks))"

definition ext2_read_inode_data_old :: "host \<Rightarrow> u8 list \<Rightarrow> ext2_globals \<Rightarrow> u8 list res" where
  "ext2_read_inode_data_old E buf s =
     rbind (super_at s) (\<lambda>sb. rbind (BLKSZ sb) (\<lambda>blk. data_loop E (start s) blk buf [0..<12] []))"

text \<open>\<^verbatim>\<open>strncmp(dirent->name, path, s) == 0\<close>: the name has no end of its own.\<close>

fun same_name :: "u8 list \<Rightarrow> u8 list \<Rightarrow> nat \<Rightarrow> bool res" where
  "same_name xs ys 0 = Inr True"
| "same_name [] ys (Suc n) = Inl (Oob 0)"
| "same_name (x # xs) [] (Suc n) = Inr (x = 0)"
| "same_name (x # xs) (y # ys) (Suc n) = (if x \<noteq> y then Inr False else if x = 0 then Inr True else same_name xs ys n)"

text \<open>The search of a directory for the first \<open>n\<close> characters of \<open>path\<close>; \<open>None\<close> if it is never left.\<close>

partial_function (option) dir_loop :: "u8 list \<Rightarrow> nat \<Rightarrow> u8 list \<Rightarrow> u32 \<Rightarrow> nat \<Rightarrow> u32 option res option" where
  "dir_loop path n data dsize pos =
     (if pos < unat dsize
      then (case rbind (field (\<lambda>m. m) (pos + 6) 1 data) (\<lambda>l.
                   if l = 0 then Inr (Some None)
                   else rbind (same_name (drop (pos + 8) data) path n) (\<lambda>eq.
                        if eq then rbind (field get32 pos 4 data) (\<lambda>i. Inr (Some (Some i))) else Inr None)) of
              Inl e \<Rightarrow> Some (Inl e)
            | Inr (Some r) \<Rightarrow> Some (Inr r)
            | Inr None \<Rightarrow>
                (case field get16 (pos + 4) 2 data of
                   Inl e \<Rightarrow> Some (Inl e)
                 | Inr sz \<Rightarrow> dir_loop path n data dsize (pos + unat sz)))
      else Some (Inr None))"

text \<open>One component of a path: the inode that the directory has for it, 0 for none, or an error number.\<close>

definition path_step :: "host \<Rightarrow> u8 list \<Rightarrow> nat \<Rightarrow> u32 \<Rightarrow> ext2_globals \<Rightarrow> ((int + u32) \<times> ext2_globals) res" where
  "path_step E path n ino s =
     rbind (ext2_read_inode_old E ino s) (\<lambda>(buf, s).
     rbind (field get16 0 2 buf) (\<lambda>tp.
     if tp AND EXT2_INODE_DIR \<noteq> EXT2_INODE_DIR then Inr (Inl ENOTDIR_old, s) else
     rbind (ext2_read_inode_data_old E buf s) (\<lambda>data.
     rbind (field get32 4 4 buf) (\<lambda>dsize.
     rbind (of_loop (dir_loop path n data dsize 0)) (\<lambda>found.
       case found of
         None \<Rightarrow> Inr (Inl ENOENT_old, s)
       | Some i \<Rightarrow> Inr (if i = 0 then Inl ENOENT_old else Inr i, s))))))"

text \<open>The loop over the components of a path (without its terminating zero).\<close>

abbreviation slash :: u8 where "slash \<equiv> 47"

definition component :: "u8 list \<Rightarrow> nat" where
  "component path = length (takeWhile (\<lambda>c. c \<noteq> slash) path)"

lemma rest_shorter:
  assumes "drop (component (dropWhile (\<lambda>c. c = slash) path)) (dropWhile (\<lambda>c. c = slash) path) \<noteq> []"
  shows "length (drop (component (dropWhile (\<lambda>c. c = slash) path)) (dropWhile (\<lambda>c. c = slash) path)) < length path"
proof -
  let ?p = "dropWhile (\<lambda>c. c = slash) path"
  have "?p \<noteq> []" using assms by (metis drop_Nil)
  then obtain c cs where c: "?p = c # cs" by (cases ?p) auto
  then have "c \<noteq> slash" by (simp add: dropWhile_eq_Cons_conv)
  then have "component ?p \<noteq> 0" unfolding c by (simp add: component_def)
  moreover have "length ?p \<le> length path" by (rule length_dropWhile_le)
  ultimately show ?thesis using \<open>?p \<noteq> []\<close> by (cases ?p) auto
qed

lemma rbind_cong [fundef_cong]: "r = r' \<Longrightarrow> (\<And>x. r' = Inr x \<Longrightarrow> f x = f' x) \<Longrightarrow> rbind r f = rbind r' f'"
  by (cases r') auto

function path_loop :: "host \<Rightarrow> u8 list \<Rightarrow> u32 \<Rightarrow> ext2_globals \<Rightarrow> ((int + u32) \<times> ext2_globals) res" where
  "path_loop E path ino s =
     (let path = dropWhile (\<lambda>c. c = slash) path; rest = drop (component path) path in
      rbind (path_step E path (component path) ino s) (\<lambda>(r, s).
        case r of
          Inl e \<Rightarrow> Inr (Inl e, s)
        | Inr i \<Rightarrow> if rest \<noteq> [] then path_loop E rest i s else Inr (Inr i, s)))"
  by pat_completeness auto
termination
  by (relation "measure (\<lambda>(E, path, ino, s). length path)") (auto dest: rest_shorter simp del: drop_eq_Nil length_drop)

declare path_loop.simps [simp del]

definition ext2_open_old :: "host \<Rightarrow> u8 list \<Rightarrow> u32 \<Rightarrow> ext2_globals \<Rightarrow> (int \<times> ext2_globals) res" where
  "ext2_open_old E path fl s =
     (if start s = 0 then Inr (no_value E, s)
      else case find (\<lambda>i. open_files s ! i = 0xFFFFFFFF) [0..<1024] of
        None \<Rightarrow> Inr (EMFILE_old, s)
      | Some i \<Rightarrow>
          rbind (path_loop E path 2 s) (\<lambda>(r, s).
            case r of
              Inl e \<Rightarrow> Inr (e, s)
            | Inr ino \<Rightarrow> Inr (int i, s\<lparr>open_files := (open_files s)[i := 0], file_inodes := (file_inodes s)[i := ino]\<rparr>)))"

text \<open>
  The loop of \<^verbatim>\<open>ext2_read\<close> over the direct blocks \<^verbatim>\<open>i\<close> that are left, with the number \<open>k\<close> of bytes from each; \<open>x\<close> is the
  buffer, \<^verbatim>\<open>cnt\<close>, \<^verbatim>\<open>count\<close> and \<^verbatim>\<open>pos\<close>.
\<close>

definition chunk_len :: "u32 \<Rightarrow> u64 \<Rightarrow> u32 \<Rightarrow> u32" where
  "chunk_len blk count pos =
     (let k = (if int_u64 blk < count then blk else ucast count); r = blk - pos mod blk in if r < k then r else k)"

fun read_loop :: "host \<Rightarrow> u32 \<Rightarrow> u32 \<Rightarrow> u8 list \<Rightarrow> nat list \<Rightarrow> u8 list \<times> u32 \<times> u64 \<times> u32
    \<Rightarrow> (u8 list \<times> u32 \<times> u64 \<times> u32) res" where
  "read_loop E st blk ino [] x = Inr x"
| "read_loop E st blk ino (i # is) (buf, cnt, count, pos) =
     (if count = 0 then Inr (buf, cnt, count, pos)
      else let k = chunk_len blk count pos in
           rbind (field get32 (40 + 4 * i) 4 ino) (\<lambda>b.
           rbind (fread E (unat (st + b * blk + pos mod blk)) (unat cnt) (unat (int_u64 k)) buf) (\<lambda>buf.
           read_loop E st blk ino is (buf, cnt + k, count - int_u64 k, pos + k))))"

text \<open>The checks of a descriptor that \<^verbatim>\<open>ext2_read\<close>, \<^verbatim>\<open>ext2_close\<close> and \<^verbatim>\<open>ext2_lseek\<close> share; \<open>Inr False\<close>: it is bad.\<close>

definition descriptor_ok :: "int \<Rightarrow> ext2_globals \<Rightarrow> bool res" where
  "descriptor_ok fd s =
     (if 1024 < fd then Inr False
      else if fd < 0 \<or> fd = 1024 then Inl (Oob fd)
      else Inr (open_files s ! nat fd \<noteq> 0xFFFFFFFF \<and> file_inodes s ! nat fd \<noteq> 0xFFFFFFFF))"

text \<open>\<^verbatim>\<open>ext2_read\<close>; the buffer is a list of bytes or, for \<^verbatim>\<open>NULL\<close>, \<open>None\<close>.\<close>

definition read_at :: "host \<Rightarrow> nat \<Rightarrow> u8 list \<Rightarrow> u64 \<Rightarrow> ext2_globals \<Rightarrow> (int \<times> u8 list \<times> ext2_globals) res" where
  "read_at E fd buf count s =
     (let pos = open_files s ! fd in
      rbind (ext2_read_inode_old E (file_inodes s ! fd) s) (\<lambda>(ino, s).
      rbind (field get32 4 4 ino) (\<lambda>size_low.
      if size_low \<le> pos then Inr (0, buf, s) else
      let count = (if ucast size_low < ucast pos + count then ucast (size_low - pos) else count) in
      rbind (super_at s) (\<lambda>sb.
      rbind (BLKSZ sb) (\<lambda>blk.
      rbind (if pos < blk * 12
             then if 32 \<le> unat (10 + block_size sb) then Inl (ShiftUB (unat (10 + block_size sb)))
                  else read_loop E (start s) blk ino [unat (drop_bit (unat (10 + block_size sb)) pos)..<12] (buf, 0, count, pos)
             else Inr (buf, 0, count, pos)) (\<lambda>(buf, cnt, count, pos).
      Inr (int (unat cnt), buf, s\<lparr>open_files := (open_files s)[fd := pos]\<rparr>)))))))"

definition ext2_read_old ::
  "host \<Rightarrow> int \<Rightarrow> u8 list option \<Rightarrow> u64 \<Rightarrow> ext2_globals \<Rightarrow> (int \<times> u8 list option \<times> ext2_globals) res" where
  "ext2_read_old E fd buf count s =
     (if start s = 0 then Inr (EINVAL_old, buf, s)
      else if count = 0 then Inr (0, buf, s)
      else rbind (descriptor_ok fd s) (\<lambda>ok.
        if \<not> ok then Inr (EBADF_old, buf, s)
        else case buf of
          None \<Rightarrow> Inr (EINVAL_old, buf, s)
        | Some b \<Rightarrow> rbind (read_at E (nat fd) b count s) (\<lambda>(n, b, s). Inr (n, Some b, s))))"

definition ext2_write_old :: "int \<Rightarrow> u64 \<Rightarrow> int" where
  "ext2_write_old fd count = EINVAL_old"

definition ext2_close_old :: "int \<Rightarrow> ext2_globals \<Rightarrow> (int \<times> ext2_globals) res" where
  "ext2_close_old fd s =
     (if start s = 0 then Inr (EINVAL_old, s)
      else rbind (descriptor_ok fd s) (\<lambda>ok.
        if \<not> ok then Inr (EBADF_old, s)
        else Inr (0, s\<lparr>open_files := (open_files s)[nat fd := 0xFFFFFFFF], file_inodes := (file_inodes s)[nat fd := 0xFFFFFFFF]\<rparr>)))"

text \<open>\<^verbatim>\<open>ext2_lseek\<close>. The test \<^verbatim>\<open>pos < 0\<close> of an unsigned number is never true.\<close>

definition SEEK_SET_old :: u32 where "SEEK_SET_old = 0"
definition SEEK_CUR_old :: u32 where "SEEK_CUR_old = 1"
definition SEEK_END_old :: u32 where "SEEK_END_old = 2"

definition ext2_lseek_old :: "host \<Rightarrow> int \<Rightarrow> u64 \<Rightarrow> u32 \<Rightarrow> ext2_globals \<Rightarrow> (int \<times> ext2_globals) res" where
  "ext2_lseek_old E fd offset whence s =
     (if start s = 0 then Inr (EINVAL_old, s)
      else rbind (descriptor_ok fd s) (\<lambda>ok.
        if \<not> ok then Inr (EBADF_old, s)
        else if whence \<noteq> SEEK_CUR_old \<and> whence \<noteq> SEEK_SET_old \<and> whence \<noteq> SEEK_END_old then Inr (EINVAL_old, s)
        else rbind (ext2_read_inode_old E (file_inodes s ! nat fd) s) (\<lambda>(ino, s).
             rbind (field get32 4 4 ino) (\<lambda>size_low.
             let pos = (if whence = SEEK_SET_old then ucast offset
                        else if whence = SEEK_CUR_old then ucast (ucast (open_files s ! nat fd) + offset)
                        else ucast (offset + ucast size_low)) :: u32
             in if size_low < pos then Inr (EINVAL_old, s)
                else Inr (int (unat pos), s\<lparr>open_files := (open_files s)[nat fd := pos]\<rparr>)))))"

section \<open>The program\<close>

text \<open>
  \<^verbatim>\<open>main\<close>: what the loop prints, two bytes at a time and at most \<open>n\<close> times. \<^verbatim>\<open>printf("%s")\<close> ends at a zero byte.
\<close>

fun print_file :: "host \<Rightarrow> int \<Rightarrow> nat \<Rightarrow> u8 list \<Rightarrow> ext2_globals \<Rightarrow> (u8 list \<times> ext2_globals) res" where
  "print_file E i 0 buf s = Inr ([], s)"
| "print_file E i (Suc n) buf s =
     rbind (ext2_read_old E i (Some buf) 2 s) (\<lambda>(k, b, s).
       if k = 0 then Inr ([], s)
       else let buf = (case b of None \<Rightarrow> buf | Some b \<Rightarrow> b) in
            if k < 0 \<or> int (length buf) \<le> k then Inl (Oob k)
            else let buf = buf[nat k := 0] in
                 rbind (print_file E i n buf s) (\<lambda>(out, s). Inr (cstr buf @ out, s)))"

definition help_file :: "u8 list" where
  "help_file = map of_char ''/home/barracuda/help.txt''"

definition ext2_main :: "host \<Rightarrow> (u8 list \<times> ext2_globals) res" where
  "ext2_main E =
     rbind (ext2_init_old E initial_globals) (\<lambda>s.
     rbind (ext2_open_old E help_file 0 s) (\<lambda>(i, s).
       if i < 0 then Inr ([], s)
       else rbind (print_file E i 512 (realloc E 1024 []) s) (\<lambda>(out, s).
            rbind (ext2_close_old i s) (\<lambda>(_, s).
            rbind (ext2_fini_old s) (\<lambda>s. Inr (out, s))))))"

section \<open>Reading through the image\<close>

definition put_bytes :: "nat \<Rightarrow> u8 list \<Rightarrow> u8 list \<Rightarrow> u8 list" where
  "put_bytes pos bs buf = take pos buf @ bs @ drop (pos + length bs) buf"

lemma put_bytes_length: "pos + length bs \<le> length buf \<Longrightarrow> length (put_bytes pos bs buf) = length buf"
  by (simp add: put_bytes_def)

lemma put_bytes_nil [simp]: "put_bytes pos [] buf = buf"
  by (simp add: put_bytes_def)

lemma put_bytes_append:
  assumes "pos + length xs + length ys \<le> length buf"
  shows "put_bytes (pos + length xs) ys (put_bytes pos xs buf) = put_bytes pos (xs @ ys) buf"
  using assms by (cases xs) (simp_all add: put_bytes_def min_def ac_simps)

lemma fread_eq: "pos + n \<le> length buf \<Longrightarrow> fread E off pos n buf = Inr (put_bytes pos (take n (drop off (image_bytes E))) buf)"
  by (simp add: fread_def put_bytes_def Let_def)

lemma fetch_total: "\<exists>buf. fetch E off n = Inr buf \<and> length buf = n"
  by (simp add: fetch_def fread_def realloc_def Let_def)

lemma field_eq: "off + n \<le> length buf \<Longrightarrow> field get off n buf = Inr (get (bytes_at buf) (of_nat off))"
  by (simp add: field_def)

text \<open>Block number \<open>k\<close> of the file of an inode, byte \<open>n\<close> of the file, and its contents.\<close>

definition inode_size_low :: "u8 list \<Rightarrow> u32" where
  "inode_size_low ino = get32 (bytes_at ino) 4"

definition inode_block :: "u8 list \<Rightarrow> nat \<Rightarrow> u32" where
  "inode_block ino k = get32 (bytes_at ino) (of_nat (40 + 4 * k))"

definition file_byte :: "host \<Rightarrow> u32 \<Rightarrow> u32 \<Rightarrow> u8 list \<Rightarrow> nat \<Rightarrow> u8" where
  "file_byte E st blk ino n =
     image_bytes E ! (unat (st + inode_block ino (n div unat blk) * blk) + n mod unat blk)"

definition file_bytes :: "host \<Rightarrow> u32 \<Rightarrow> u32 \<Rightarrow> u8 list \<Rightarrow> u8 list" where
  "file_bytes E st blk ino = map (file_byte E st blk ino) [0..<unat (inode_size_low ino)]"

text \<open>The file is described by its direct blocks, and these lie in the image.\<close>

definition file_there :: "host \<Rightarrow> u32 \<Rightarrow> u32 \<Rightarrow> u8 list \<Rightarrow> bool" where
  "file_there E st blk ino \<longleftrightarrow> 88 \<le> length ino \<and> unat (inode_size_low ino) \<le> 12 * unat blk \<and> length (image_bytes E) \<le> 2 ^ 32
     \<and> (\<forall>k < 12. k * unat blk < unat (inode_size_low ino) \<longrightarrow>
          unat (st + inode_block ino k * blk) + unat blk \<le> length (image_bytes E))"

definition block_ok :: "u32 \<Rightarrow> bool" where
  "block_ok blk \<longleftrightarrow> 0 < unat blk \<and> unat blk \<le> 2 ^ 26"

lemma chunk_len_value:
  assumes "block_ok blk" and "0 < unat count"
  shows "unat (chunk_len blk count pos) = min (unat count) (unat blk - unat pos mod unat blk)"
proof -
  have b: "unat blk < 2 ^ 31" "0 < unat blk" using assms(1) by (auto simp: block_ok_def)
  have m: "unat (pos mod blk) = unat pos mod unat blk" "unat pos mod unat blk < unat blk" using b(2) by (simp_all add: unat_mod)
  have r: "unat (blk - pos mod blk) = unat blk - unat pos mod unat blk"
    using m by (subst unat_sub) (auto simp: word_le_nat_alt)
  have c: "int_u64 blk < count \<longleftrightarrow> unat blk < unat count" using int_u64_blk [OF b(1)] by (simp add: word_less_nat_alt)
  have k: "unat (if int_u64 blk < count then blk else ucast count) = min (unat blk) (unat count)"
  proof (cases "unat blk < unat count")
    case False
    then have "unat count < 2 ^ 31" using b(1) by (metis leI le_less_trans)
    then have "unat (ucast count :: u32) = unat count" by (simp add: unsigned_ucast_eq take_bit_nat_eq_self)
    then show ?thesis using False c by simp
  qed (use c in simp)
  show ?thesis unfolding chunk_len_def Let_def using k r by (auto simp: word_less_nat_alt min_def split: if_splits)
qed

lemma div_mod_parts: "r < b \<Longrightarrow> n = r + i * b \<Longrightarrow> n div b = i \<and> n mod b = r" for n :: nat
  by simp

text \<open>The bytes that one round of the loop reads.\<close>

lemma chunk_bytes:
  assumes "file_there E st blk ino" and "block_ok blk" and "unat pos div unat blk = i" and "i < 12"
    and "0 < k" and "k \<le> unat blk - unat pos mod unat blk" and "unat pos + k \<le> unat (inode_size_low ino)"
  shows "take k (drop (unat (st + inode_block ino i * blk + pos mod blk)) (image_bytes E))
    = map (file_byte E st blk ino) [unat pos..<unat pos + k]"
proof -
  let ?o = "unat (st + inode_block ino i * blk)" and ?m = "unat pos mod unat blk"
  have b: "0 < unat blk" using assms(2) by (simp add: block_ok_def)
  have m: "unat (pos mod blk) = ?m" "?m < unat blk" using b by (simp_all add: unat_mod)
  have p: "unat pos = i * unat blk + ?m" using assms(3) by (metis div_mult_mod_eq)
  then have "i * unat blk < unat (inode_size_low ino)" using assms(5,7) by linarith
  then have e: "?o + unat blk \<le> length (image_bytes E)" "length (image_bytes E) \<le> 2 ^ 32" using assms(1,4) by (auto simp: file_there_def)
  then have o: "unat (st + inode_block ino i * blk + pos mod blk) = ?o + ?m"
    using m by (subst unat_add_lem [THEN iffD1]) simp_all
  show ?thesis unfolding o
  proof (rule nth_equalityI)
    show "length (take k (drop (?o + ?m) (image_bytes E))) = length (map (file_byte E st blk ino) [unat pos..<unat pos + k])"
      using e(1) m(2) assms(6) by simp
    fix j assume "j < length (take k (drop (?o + ?m) (image_bytes E)))"
    then have j: "j < k" "?o + ?m + j < length (image_bytes E)" by auto
    have "?m + j < unat blk" using j(1) assms(6) m(2) by linarith
    moreover have "unat pos + j = (?m + j) + i * unat blk" using p by linarith
    ultimately have "(unat pos + j) div unat blk = i" "(unat pos + j) mod unat blk = ?m + j" using div_mod_parts by blast+
    then show "take k (drop (?o + ?m) (image_bytes E)) ! j = map (file_byte E st blk ino) [unat pos..<unat pos + k] ! j"
      using j by (simp add: file_byte_def add.assoc)
  qed
qed


text \<open>The loop reads the bytes of the file from the position on.\<close>

lemma read_loop_reads:
  assumes F: "file_there E st blk ino" and b: "block_ok blk"
    and "i \<le> 12" and "unat count = 0 \<or> unat pos div unat blk = i" and "unat pos + unat count \<le> unat (inode_size_low ino)"
    and "unat cnt + unat count \<le> length buf" and "unat cnt + unat count < 2 ^ 31"
  shows "read_loop E st blk ino [i..<12] (buf, cnt, count, pos) =
    Inr (put_bytes (unat cnt) (map (file_byte E st blk ino) [unat pos..<unat pos + unat count]) buf, cnt + ucast count, 0, pos + ucast count)"
  using assms(3-)
proof (induction "12 - i" arbitrary: i buf cnt count pos)
  case 0
  have "unat count = 0"
  proof (rule ccontr)
    assume c: "unat count \<noteq> 0"
    then have "unat pos div unat blk = 12" using 0 by simp
    then have "12 * unat blk \<le> unat pos" by (metis div_times_less_eq_dividend)
    then show False using F 0 c by (auto simp: file_there_def)
  qed
  then show ?case using 0 by (simp add: unat_eq_zero)
next
  case (Suc n)
  then have i: "i < 12" and l: "[i..<12] = i # [Suc i..<12]" by (simp_all add: upt_conv_Cons)
  show ?case
  proof (cases "count = 0")
    case False
    define k where "k = chunk_len blk count pos"
    have c0: "0 < unat count" using False by (simp add: unat_gt_0)
    have d: "unat pos div unat blk = i" using Suc.prems(2) c0 by simp
    have bb: "0 < unat blk" "unat blk \<le> 2 ^ 26" using b by (auto simp: block_ok_def)
    then have m: "unat pos mod unat blk < unat blk" by simp
    have kv: "unat k = min (unat count) (unat blk - unat pos mod unat blk)" unfolding k_def by (rule chunk_len_value [OF b c0])
    then have k: "0 < unat k" "unat k \<le> unat blk - unat pos mod unat blk" "unat k \<le> unat count" using c0 m by auto
    have "unat k \<le> 2 ^ 26" using k(2) bb(2) by linarith
    then have k31: "unat k < 2 ^ 31" by simp
    have ik: "int_u64 k = ucast k" "unat (int_u64 k) = unat k" by (rule int_u64_blk [OF k31])+
    have fl: "field get32 (40 + 4 * i) 4 ino = Inr (inode_block ino i)"
      using F i by (simp add: field_eq file_there_def inode_block_def)
    let ?B = "map (file_byte E st blk ino) [unat pos..<unat pos + unat k]"
    have fr: "fread E (unat (st + inode_block ino i * blk + pos mod blk)) (unat cnt) (unat k) buf = Inr (put_bytes (unat cnt) ?B buf)"
      using chunk_bytes [OF F b d i k(1,2)] Suc.prems(3,4) k(3) by (subst fread_eq) simp_all
    have c: "unat (count - int_u64 k) = unat count - unat k"
      using k(3) ik(2) by (subst unat_sub) (simp_all add: word_le_nat_alt)
    have s: "unat (cnt + k) = unat cnt + unat k"
      using Suc.prems(5) k(3) by (subst unat_add_lem [THEN iffD1]) simp_all
    have "unat pos + unat k \<le> unat (inode_size_low ino)" using Suc.prems(3) k(3) by linarith
    then have p: "unat (pos + k) = unat pos + unat k"
      using unsigned_less [of "inode_size_low ino", where 'a = nat] by (subst unat_add_lem [THEN iffD1]) simp_all
    have nx: "unat (count - int_u64 k) = 0 \<or> unat (pos + k) div unat blk = Suc i"
    proof (cases "unat k = unat count")
      case False
      then have "unat k = unat blk - unat pos mod unat blk" using kv by simp
      then have "unat pos + unat k = unat pos div unat blk * unat blk + unat blk" using m by (simp add: minus_mod_eq_div_mult [symmetric])
      then show ?thesis using p d bb(1) by simp
    qed (use c in simp)
    let ?buf = "put_bytes (unat cnt) ?B buf"
    have lb: "length ?buf = length buf" using Suc.prems(4) k(3) by (intro put_bytes_length) simp
    have "read_loop E st blk ino [Suc i..<12] (?buf, cnt + k, count - int_u64 k, pos + k) =
      Inr (put_bytes (unat (cnt + k)) (map (file_byte E st blk ino) [unat (pos + k)..<unat (pos + k) + unat (count - int_u64 k)]) ?buf,
         cnt + k + ucast (count - int_u64 k), 0, pos + k + ucast (count - int_u64 k))"
      by (rule Suc.hyps(1)) (use Suc.hyps(2) Suc.prems c s p k(3) i nx lb in simp_all)
    moreover have "k + ucast (count - int_u64 k) = (ucast count :: u32)"
    proof -
      have "(of_nat (unat k + (unat count - unat k)) :: u32) = of_nat (unat count)" using k(3) by simp
      then have "of_nat (unat k) + of_nat (unat (count - int_u64 k)) = (of_nat (unat count) :: u32)" by (simp only: of_nat_add c)
      then show ?thesis by (simp only: of_nat_unat ucast_id)
    qed
    then have "cnt + k + ucast (count - int_u64 k) = cnt + ucast count" "pos + k + ucast (count - int_u64 k) = pos + ucast count"
      by (simp_all only: add.assoc)
    moreover have "put_bytes (unat (cnt + k)) (map (file_byte E st blk ino) [unat (pos + k)..<unat (pos + k) + unat (count - int_u64 k)]) ?buf
      = put_bytes (unat cnt) (map (file_byte E st blk ino) [unat pos..<unat pos + unat count]) buf"
    proof -
      have e: "[unat pos..<unat pos + unat count] = [unat pos..<unat pos + unat k] @ [unat pos + unat k..<unat pos + unat count]"
        using k(3) upt_add_eq_append [of "unat pos" "unat pos + unat k" "unat count - unat k"] by simp
      have "unat pos + unat k + (unat count - unat k) = unat pos + unat count" using k(3) by simp
      then show ?thesis
        unfolding e s p c using put_bytes_append [of "unat cnt" ?B "map (file_byte E st blk ino) [unat pos + unat k..<unat pos + unat count]" buf]
          Suc.prems(4) k(3) by simp
    qed
    ultimately show ?thesis unfolding l using False fl fr ik(2) by (simp add: k_def [symmetric] Let_def)
  qed (use l in simp)
qed

section \<open>The table of groups\<close>

text \<open>A volume is mounted; the entries of \<^verbatim>\<open>i_start\<close> that are set are those that would be read again.\<close>

definition cache_ok :: "host \<Rightarrow> ext2_superblock \<Rightarrow> ext2_globals \<Rightarrow> bool" where
  "cache_ok E sb s \<longleftrightarrow> length (i_start s) = 16
     \<and> (\<forall>g < 16. i_start s ! g \<noteq> 0 \<longrightarrow> group_table E sb (start s) (of_nat g) = Inr (i_start s ! g))"

definition mounted :: "host \<Rightarrow> ext2_superblock \<Rightarrow> u32 \<Rightarrow> ext2_globals \<Rightarrow> bool" where
  "mounted E sb blk s \<longleftrightarrow> start s \<noteq> 0 \<and> super_at s = Inr sb \<and> BLKSZ sb = Inr blk \<and> block_size sb \<le> 16 \<and> ind_in_grp sb \<noteq> 0
     \<and> cache_ok E sb s \<and> length (open_files s) = 1024 \<and> length (file_inodes s) = 1024"

text \<open>An inode as the image has it.\<close>

definition inode_there :: "ext2_superblock \<Rightarrow> u32 \<Rightarrow> bool" where
  "inode_there sb ino \<longleftrightarrow> unat ((ino - 1) div ind_in_grp sb) < 16"

definition inode_image :: "host \<Rightarrow> ext2_superblock \<Rightarrow> u32 \<Rightarrow> u32 \<Rightarrow> u8 list" where
  "inode_image E sb st ino =
     (case group_table E sb st ((ino - 1) div ind_in_grp sb) of
        Inl e \<Rightarrow> []
      | Inr t \<Rightarrow> (case fetch E (unat (t + st + (ino - 1) mod ind_in_grp sb * ucast (inode_size sb))) (unat (inode_size sb)) of
                  Inl e \<Rightarrow> [] | Inr buf \<Rightarrow> buf))"

lemma group_table_total: "BLKSZ sb = Inr blk \<Longrightarrow> \<exists>t. group_table E sb st bg = Inr t"
proof -
  assume b: "BLKSZ sb = Inr blk"
  obtain d where "fetch E (unat (ucast (st + blk * (sblock_num sb + 1)) + ucast bg * 32 :: u64)) 32 = Inr d"
    using fetch_total by blast
  then show ?thesis using b by (simp add: group_table_def)
qed

lemma read_inode_image:
  assumes "mounted E sb blk s" and "inode_there sb ino"
  obtains tab where "ext2_read_inode_old E ino s = Inr (inode_image E sb (start s) ino, s\<lparr>i_start := tab\<rparr>)"
    and "mounted E sb blk (s\<lparr>i_start := tab\<rparr>)"
proof -
  let ?g = "(ino - 1) div ind_in_grp sb"
  have m: "super_at s = Inr sb" "BLKSZ sb = Inr blk" "ind_in_grp sb \<noteq> 0" "length (i_start s) = 16"
    "\<forall>g < 16. i_start s ! g \<noteq> 0 \<longrightarrow> group_table E sb (start s) (of_nat g) = Inr (i_start s ! g)"
    using assms(1) by (auto simp: mounted_def cache_ok_def)
  have g: "unat ?g < 16" using assms(2) by (simp add: inode_there_def)
  obtain t where t: "group_table E sb (start s) ?g = Inr t" using group_table_total [OF m(2)] by blast
  obtain buf where f: "fetch E (unat (t + start s + (ino - 1) mod ind_in_grp sb * ucast (inode_size sb))) (unat (inode_size sb)) = Inr buf"
    using fetch_total by blast
  have im: "inode_image E sb (start s) ino = buf" using t f by (simp add: inode_image_def)
  let ?tab = "if i_start s ! unat ?g = 0 then (i_start s)[unat ?g := t] else i_start s"
  have n: "?tab ! unat ?g = t" using m(4,5) g t by (auto simp: of_nat_unat)
  show thesis
  proof (rule that [of ?tab])
    show "ext2_read_inode_old E ino s = Inr (inode_image E sb (start s) ino, s\<lparr>i_start := ?tab\<rparr>)"
      unfolding im using m(1,3) g t f n by (auto simp: ext2_read_inode_old_def Let_def)
    have c: "cache_ok E sb (s\<lparr>i_start := ?tab\<rparr>)"
      using m(4,5) g t unfolding cache_ok_def by (auto simp: nth_list_update of_nat_unat)
    show "mounted E sb blk (s\<lparr>i_start := ?tab\<rparr>)"
      using assms(1) c by (simp add: mounted_def super_at_def)
  qed
qed

text \<open>The size of a block below 64 megabytes, as a shift amount and as a product.\<close>

lemma block_size_facts:
  assumes "BLKSZ sb = Inr blk" and "block_size sb \<le> 16"
  shows "block_ok blk" and "unat blk = 2 ^ (10 + unat (block_size sb))" and "unat (10 + block_size sb) = 10 + unat (block_size sb)"
    and "unat (block_size sb) \<le> 16"
proof -
  show le: "unat (block_size sb) \<le> 16" using assms(2) by (simp add: word_le_nat_alt)
  then have e: "blk = push_bit (unat (block_size sb)) 1024" using assms(1) by (simp add: BLKSZ_def)
  show v: "unat blk = 2 ^ (10 + unat (block_size sb))"
  proof -
    have "blk = of_nat (2 ^ (10 + unat (block_size sb)))" unfolding e by (simp add: push_bit_eq_mult power_add)
    moreover have "(2 :: nat) ^ (10 + unat (block_size sb)) \<le> 2 ^ 26" by (rule power_increasing) (use le in simp_all)
    then have "(2 :: nat) ^ (10 + unat (block_size sb)) < 2 ^ 32" by simp
    moreover have "unat (of_nat n :: u32) = n" if "n < 2 ^ 32" for n using that by (simp add: unat_of_nat take_bit_nat_eq_self)
    ultimately show ?thesis by metis
  qed
  have "(2 :: nat) ^ (10 + unat (block_size sb)) \<le> 2 ^ 26" by (rule power_increasing) (use le in simp_all)
  then show "block_ok blk" unfolding block_ok_def v by simp
  show "unat (10 + block_size sb) = 10 + unat (block_size sb)" using le by (subst unat_add_lem [THEN iffD1]) simp_all
qed

text \<open>A read that stays within the file, at a position that is not behind its end.\<close>

lemma read_at_reads:
  assumes m: "mounted E sb blk s" and fd: "fd < 1024" and t: "inode_there sb (file_inodes s ! fd)"
    and F: "file_there E (start s) blk (inode_image E sb (start s) (file_inodes s ! fd))"
    and p: "unat (open_files s ! fd) \<le> length (file_bytes E (start s) blk (inode_image E sb (start s) (file_inodes s ! fd)))"
    and l: "unat count \<le> length buf" and c: "unat count < 2 ^ 31"
  defines "bs \<equiv> take (unat count) (drop (unat (open_files s ! fd)) (file_bytes E (start s) blk (inode_image E sb (start s) (file_inodes s ! fd))))"
  obtains tab where "read_at E fd buf count s = Inr (int (length bs), put_bytes 0 bs buf,
      s\<lparr>i_start := tab, open_files := (open_files s)[fd := open_files s ! fd + of_nat (length bs)]\<rparr>)"
    and "mounted E sb blk (s\<lparr>i_start := tab\<rparr>)"
proof -
  let ?pos = "open_files s ! fd" and ?ino = "inode_image E sb (start s) (file_inodes s ! fd)"
  let ?sz = "inode_size_low ?ino"
  obtain tab where r: "ext2_read_inode_old E (file_inodes s ! fd) s = Inr (?ino, s\<lparr>i_start := tab\<rparr>)" and
    m': "mounted E sb blk (s\<lparr>i_start := tab\<rparr>)" by (rule read_inode_image [OF m t])
  have b: "super_at s = Inr sb" "BLKSZ sb = Inr blk" "block_size sb \<le> 16" "length (open_files s) = 1024" using m by (auto simp: mounted_def)
  note B = block_size_facts [OF b(2,3)]
  have sup: "super_at (s\<lparr>i_start := tab\<rparr>) = Inr sb" using m' by (simp add: mounted_def)
  have fs: "field get32 4 4 ?ino = Inr ?sz" using F by (simp add: field_eq file_there_def inode_size_low_def)
  have p: "unat ?pos \<le> unat ?sz" using p by (simp add: file_bytes_def)
  show thesis
  proof (cases "?sz \<le> ?pos")
    case True
    then have "bs = []" using p by (simp add: bs_def file_bytes_def word_le_nat_alt)
    moreover have "s\<lparr>i_start := tab, open_files := (open_files s)[fd := ?pos]\<rparr> = s\<lparr>i_start := tab\<rparr>" by simp
    ultimately show thesis using that [of tab] r fs True m' by (simp add: read_at_def Let_def)
  next
    case False
    then have lt: "unat ?pos < unat ?sz" by (simp add: word_le_nat_alt)
    define n where "n = (if ucast ?sz < (ucast ?pos :: u64) + count then ucast (?sz - ?pos) else count)"
    have su: "unat (?sz - ?pos) = unat ?sz - unat ?pos" using lt by (subst unat_sub) (simp_all add: word_le_nat_alt)
    have ad: "unat ((ucast ?pos :: u64) + count) = unat ?pos + unat count"
      using unsigned_less [of ?pos, where 'a = nat] c by (subst unat_add_lem [THEN iffD1]) (simp_all add: unat_ucast_u32)
    have nv: "unat n = min (unat count) (unat ?sz - unat ?pos)"
      unfolding n_def using su ad by (auto simp: word_less_nat_alt unat_ucast_u32)
    have lb: "length bs = unat n" using nv lt by (simp add: bs_def file_bytes_def)
    have bv: "bs = map (file_byte E (start s) blk ?ino) [unat ?pos..<unat ?pos + unat n]"
      using nv lt by (simp add: bs_def file_bytes_def drop_map take_map min_def)
    have "unat ?pos < 12 * unat blk" using lt F by (auto simp: file_there_def)
    moreover have "unat (blk * 12) = 12 * unat blk"
      using B(1) by (subst unat_mult_lem [THEN iffD1]) (simp_all add: block_ok_def)
    ultimately have c12: "?pos < blk * 12" by (simp add: word_less_nat_alt)
    have i: "unat (drop_bit (unat (10 + block_size sb)) ?pos) = unat ?pos div unat blk"
      unfolding B(2,3) unat_drop_bit_eq by (rule drop_bit_eq_div)
    have "unat ?pos div unat blk < 12"
      using \<open>unat ?pos < 12 * unat blk\<close> B(1) by (simp add: less_mult_imp_div_less)
    then have L: "read_loop E (start s) blk ?ino [unat ?pos div unat blk..<12] (buf, 0, n, ?pos) =
      Inr (put_bytes (unat (0 :: u32)) (map (file_byte E (start s) blk ?ino) [unat ?pos..<unat ?pos + unat n]) buf, 0 + ucast n, 0, ?pos + ucast n)"
      by (intro read_loop_reads [OF F B(1)]) (use nv l c lt in auto)
    have u1: "unat (ucast n :: u32) = unat n" using nv c by (simp add: unsigned_ucast_eq take_bit_nat_eq_self)
    have u2: "(ucast n :: u32) = of_nat (unat n)" by (simp only: of_nat_unat)
    have L': "read_loop E (start s) blk ?ino [unat ?pos div unat blk..<12] (buf, 0, n, ?pos) =
      Inr (put_bytes 0 bs buf, of_nat (length bs), 0, ?pos + of_nat (length bs))"
      using L unfolding bv [symmetric] unfolding u2 lb [symmetric] by (simp only: unsigned_0 add_0)
    have N: "(if ucast ?sz < (ucast ?pos :: u64) + count then ucast (?sz - ?pos) else count) = n" by (simp add: n_def)
    have u3: "int (unat (of_nat (length bs) :: u32)) = int (length bs)" using u1 unfolding u2 lb [symmetric] by (rule arg_cong)
    have "\<not> 32 \<le> unat (10 + block_size sb)" using B(3,4) by simp
    then have "read_at E fd buf count s = Inr (int (length bs), put_bytes 0 bs buf,
        s\<lparr>i_start := tab, open_files := (open_files s)[fd := ?pos + of_nat (length bs)]\<rparr>)"
      using r fs False sup b(2) c12 L' i N u3 by (simp add: read_at_def Let_def)
    then show thesis using that m' by blast
  qed
qed

section \<open>Reading, in pieces or at once\<close>

text \<open>The contents of the file that is open as \<open>fd\<close>, and when it can be read.\<close>

definition open_inode :: "host \<Rightarrow> ext2_superblock \<Rightarrow> ext2_globals \<Rightarrow> nat \<Rightarrow> u8 list" where
  "open_inode E sb s fd = inode_image E sb (start s) (file_inodes s ! fd)"

definition open_file :: "host \<Rightarrow> ext2_superblock \<Rightarrow> u32 \<Rightarrow> ext2_globals \<Rightarrow> nat \<Rightarrow> u8 list" where
  "open_file E sb blk s fd = file_bytes E (start s) blk (open_inode E sb s fd)"

definition readable :: "host \<Rightarrow> ext2_superblock \<Rightarrow> u32 \<Rightarrow> ext2_globals \<Rightarrow> nat \<Rightarrow> bool" where
  "readable E sb blk s fd \<longleftrightarrow> mounted E sb blk s \<and> fd < 1024 \<and> open_files s ! fd \<noteq> 0xFFFFFFFF \<and> file_inodes s ! fd \<noteq> 0xFFFFFFFF
     \<and> inode_there sb (file_inodes s ! fd) \<and> file_there E (start s) blk (open_inode E sb s fd)
     \<and> unat (open_files s ! fd) \<le> length (open_file E sb blk s fd)"

lemma file_small:
  assumes "file_there E st blk ino" and "block_ok blk"
  shows "length (file_bytes E st blk ino) \<le> 12 * 2 ^ 26"
proof -
  have "length (file_bytes E st blk ino) \<le> 12 * unat blk" using assms(1) by (simp add: file_bytes_def file_there_def)
  moreover have "unat blk \<le> 2 ^ 26" using assms(2) by (simp add: block_ok_def)
  ultimately show ?thesis by linarith
qed

lemma old_read_step:
  assumes r: "readable E sb blk s fd" and c: "0 < unat count" "unat count < 2 ^ 31" "unat count \<le> length buf"
  defines "bs \<equiv> take (unat count) (drop (unat (open_files s ! fd)) (open_file E sb blk s fd))"
  obtains s' where "ext2_read_old E (int fd) (Some buf) count s = Inr (int (length bs), Some (put_bytes 0 bs buf), s')"
    and "readable E sb blk s' fd" and "start s' = start s" and "file_inodes s' = file_inodes s"
    and "open_files s' = (open_files s)[fd := open_files s ! fd + of_nat (length bs)]"
    and "unat (open_files s' ! fd) = unat (open_files s ! fd) + length bs" and "open_file E sb blk s' fd = open_file E sb blk s fd"
    and "super s' = super s"
proof -
  have R: "mounted E sb blk s" "fd < 1024" "open_files s ! fd \<noteq> 0xFFFFFFFF" "file_inodes s ! fd \<noteq> 0xFFFFFFFF"
    "inode_there sb (file_inodes s ! fd)" "file_there E (start s) blk (open_inode E sb s fd)"
    "unat (open_files s ! fd) \<le> length (open_file E sb blk s fd)" using r by (auto simp: readable_def)
  obtain tab where t: "read_at E fd buf count s = Inr (int (length bs), put_bytes 0 bs buf,
      s\<lparr>i_start := tab, open_files := (open_files s)[fd := open_files s ! fd + of_nat (length bs)]\<rparr>)"
    "mounted E sb blk (s\<lparr>i_start := tab\<rparr>)"
    unfolding bs_def open_file_def open_inode_def
    by (rule read_at_reads [OF R(1,2,5) R(6,7) [unfolded open_file_def open_inode_def] c(3,2)])
  let ?s' = "s\<lparr>i_start := tab, open_files := (open_files s)[fd := open_files s ! fd + of_nat (length bs)]\<rparr>"
  have l: "length (open_files s) = 1024" "start s \<noteq> 0" "BLKSZ sb = Inr blk" "block_size sb \<le> 16" using R(1) by (auto simp: mounted_def)
  have sm: "length (open_file E sb blk s fd) \<le> 12 * 2 ^ 26"
    unfolding open_file_def by (rule file_small [OF R(6) block_size_facts(1) [OF l(3,4)]])
  have b: "unat (open_files s ! fd) + length bs \<le> length (open_file E sb blk s fd)" using R(7) by (simp add: bs_def)
  then have b': "unat (open_files s ! fd) + length bs \<le> 12 * 2 ^ 26" using sm by linarith
  then have n: "unat (of_nat (length bs) :: u32) = length bs" by (simp add: unat_of_nat take_bit_nat_eq_self)
  have v: "unat (open_files s ! fd + of_nat (length bs)) = unat (open_files s ! fd) + length bs"
    using b' n by (subst unat_add_lem [THEN iffD1]) simp_all
  have ne: "open_files s ! fd + of_nat (length bs) \<noteq> 0xFFFFFFFF"
  proof
    assume "open_files s ! fd + of_nat (length bs) = 0xFFFFFFFF"
    then have "unat (open_files s ! fd) + length bs = 4294967295" using v by simp
    then show False using b' by simp
  qed
  have o: "open_file E sb blk ?s' fd = open_file E sb blk s fd" "open_inode E sb ?s' fd = open_inode E sb s fd"
    by (simp_all add: open_file_def open_inode_def)
  have m: "mounted E sb blk ?s'" using t(2) by (simp add: mounted_def cache_ok_def super_at_def)
  show thesis
  proof (rule that [of ?s'])
    show "ext2_read_old E (int fd) (Some buf) count s = Inr (int (length bs), Some (put_bytes 0 bs buf), ?s')"
      using t(1) R(2-4) l(2) c(1) by (auto simp: ext2_read_old_def descriptor_ok_def)
    show "readable E sb blk ?s' fd"
      unfolding readable_def o using m R ne v b l(1) by simp
  qed (use o v R(2) l(1) in simp_all)
qed

text \<open>
  C36. The old driver reads what the file holds: \<^verbatim>\<open>ext2_read\<close> on an open file gives the bytes of the file from the position on, as many as
  wanted or as are left, leaves the rest of the buffer alone and advances the position by their number. A read that crosses the end of
  a block goes on in the next block of the file.
\<close>

theorem ext2_old_reads_file:
  assumes "readable E sb blk s fd" and "0 < unat count" and "unat count < 2 ^ 31" and "unat count \<le> length buf"
    and "bs = take (unat count) (drop (unat (open_files s ! fd)) (open_file E sb blk s fd))"
  shows "\<exists>s'. ext2_read_old E (int fd) (Some buf) count s = Inr (int (length bs), Some (bs @ drop (length bs) buf), s')
    \<and> unat (open_files s' ! fd) = unat (open_files s ! fd) + length bs \<and> readable E sb blk s' fd"
proof -
  obtain s' where "ext2_read_old E (int fd) (Some buf) count s = Inr (int (length bs), Some (put_bytes 0 bs buf), s')"
    "readable E sb blk s' fd" "unat (open_files s' ! fd) = unat (open_files s ! fd) + length bs"
    unfolding assms(5) by (rule old_read_step [OF assms(1-4)])
  then show ?thesis by (auto simp: put_bytes_def)
qed

text \<open>The loop of the program.\<close>

lemma print_file_prints:
  assumes "readable E sb blk s fd" and "length buf = 1024" and "0 \<notin> set (open_file E sb blk s fd)"
  shows "\<exists>s'. print_file E (int fd) n buf s = Inr (take (2 * n) (drop (unat (open_files s ! fd)) (open_file E sb blk s fd)), s')
    \<and> readable E sb blk s' fd \<and> super s' = super s"
  using assms
proof (induction n arbitrary: buf s)
  case 0
  then show ?case by auto
next
  case (Suc n)
  let ?F = "open_file E sb blk s fd" and ?p = "unat (open_files s ! fd)"
  define bs where "bs = take (unat (2 :: u64)) (drop ?p ?F)"
  obtain s1 where r: "ext2_read_old E (int fd) (Some buf) 2 s = Inr (int (length bs), Some (put_bytes 0 bs buf), s1)"
    "readable E sb blk s1 fd" "unat (open_files s1 ! fd) = ?p + length bs" "open_file E sb blk s1 fd = ?F" "super s1 = super s"
    unfolding bs_def by (rule old_read_step [OF Suc.prems(1), of 2 buf]) (use Suc.prems(2) in auto)
  have b: "length bs \<le> 2" "set bs \<subseteq> set ?F" by (auto simp: bs_def dest: in_set_takeD in_set_dropD)
  show ?case
  proof (cases "bs = []")
    case True
    then have "drop ?p ?F = []" by (simp add: bs_def)
    then show ?thesis using r True by auto
  next
    case False
    let ?buf = "(put_bytes 0 bs buf)[length bs := 0]"
    have lb: "length (put_bytes 0 bs buf) = 1024" using Suc.prems(2) b(1) by (simp add: put_bytes_length)
    have "drop (length bs) buf = buf ! length bs # drop (Suc (length bs)) buf"
      by (rule Cons_nth_drop_Suc [symmetric]) (use b(1) Suc.prems(2) in simp)
    then have "?buf = bs @ 0 # drop (Suc (length bs)) buf" by (simp add: put_bytes_def list_update_append)
    moreover have "\<forall>x \<in> set bs. x \<noteq> 0" using b(2) Suc.prems(3) by fastforce
    ultimately have c: "cstr ?buf = bs" by (simp add: cstr_def takeWhile_append2 takeWhile_tail)
    obtain s' where s': "print_file E (int fd) n ?buf s1 = Inr (take (2 * n) (drop (unat (open_files s1 ! fd)) (open_file E sb blk s1 fd)), s')"
      "readable E sb blk s' fd" "super s' = super s1"
      using Suc.IH [OF r(2), of ?buf] lb Suc.prems(3) r(4) by auto
    have "bs @ take (2 * n) (drop (?p + length bs) ?F) = take (2 * Suc n) (drop ?p ?F)"
    proof (cases "length bs = 2")
      case True
      have "bs = take 2 (drop ?p ?F)" by (simp add: bs_def)
      moreover have "take (2 + 2 * n) (drop ?p ?F) = take 2 (drop ?p ?F) @ take (2 * n) (drop (?p + 2) ?F)"
        by (simp only: take_add drop_drop add.commute)
      ultimately show ?thesis unfolding True by (simp only: mult_Suc_right)
    next
      case False
      then have "length (drop ?p ?F) < 2" using b(1) by (auto simp: bs_def)
      then show ?thesis by (simp add: bs_def)
    qed
    then have "print_file E (int fd) (Suc n) buf s = Inr (take (2 * Suc n) (drop ?p ?F), s')"
      using False b(1) lb c r(1) s'(1) unfolding r(3,4) by (simp add: Let_def)
    then show ?thesis using s' r(5) by auto
  qed
qed

section \<open>Directories and paths\<close>

text \<open>What the driver reads of a directory: its direct blocks up to the first that is not used.\<close>

definition used_blocks :: "u8 list \<Rightarrow> nat \<Rightarrow> nat list" where
  "used_blocks ino j = takeWhile (\<lambda>k. inode_block ino k \<noteq> 0) [j..<12]"

definition block_bytes :: "host \<Rightarrow> u32 \<Rightarrow> u32 \<Rightarrow> u32 \<Rightarrow> u8 list" where
  "block_bytes E st blk b = take (unat blk) (drop (unat (st + b * blk)) (image_bytes E))"

definition dir_data :: "host \<Rightarrow> u32 \<Rightarrow> u32 \<Rightarrow> u8 list \<Rightarrow> u8 list" where
  "dir_data E st blk ino = concat (map (\<lambda>k. block_bytes E st blk (inode_block ino k)) (used_blocks ino 0))"

definition blocks_there :: "host \<Rightarrow> u32 \<Rightarrow> u32 \<Rightarrow> u8 list \<Rightarrow> bool" where
  "blocks_there E st blk ino \<longleftrightarrow> 88 \<le> length ino
     \<and> (\<forall>k < 12. inode_block ino k \<noteq> 0 \<longrightarrow> unat (st + inode_block ino k * blk) + unat blk \<le> length (image_bytes E))"

lemma int_u64_blocks:
  assumes "block_ok blk" and "k \<le> 12"
  shows "unat (int_u64 (of_nat k * blk)) = k * unat blk"
proof -
  have "k * unat blk \<le> 12 * 2 ^ 26" using assms by (intro mult_mono) (auto simp: block_ok_def)
  then have s: "k * unat blk < 2 ^ 31" by simp
  have "unat (of_nat k :: u32) = k" using assms(2) by (simp add: unat_of_nat take_bit_nat_eq_self)
  then have "unat (of_nat k * blk) = k * unat blk" using s by (subst unat_mult_lem [THEN iffD1]) simp_all
  then show ?thesis using int_u64_blk [of "of_nat k * blk"] s by simp
qed

lemma data_loop_reads:
  assumes D: "blocks_there E st blk ino" and b: "block_ok blk" and "j \<le> 12" and "length data = j * unat blk"
  shows "data_loop E st blk ino [j..<12] data =
    Inr (data @ concat (map (\<lambda>k. block_bytes E st blk (inode_block ino k)) (used_blocks ino j)))"
  using assms(3,4)
proof (induction "12 - j" arbitrary: j data)
  case 0
  then show ?case by (simp add: used_blocks_def)
next
  case (Suc n)
  then have j: "j < 12" and l: "[j..<12] = j # [Suc j..<12]" by (simp_all add: upt_conv_Cons)
  have fl: "field get32 (40 + 4 * j) 4 ino = Inr (inode_block ino j)"
    using D j by (simp add: field_eq blocks_there_def inode_block_def)
  show ?case
  proof (cases "inode_block ino j = 0")
    case True
    then show ?thesis using fl unfolding l by (simp add: used_blocks_def l)
  next
    case False
    let ?B = "block_bytes E st blk (inode_block ino j)" and ?d = "realloc E (Suc j * unat blk) data"
    have lb: "length ?B = unat blk" using D j False by (auto simp: blocks_there_def block_bytes_def)
    have sz: "unat (int_u64 (of_nat j * blk)) = j * unat blk" "unat (int_u64 ((of_nat j + 1) * blk)) = Suc j * unat blk"
      "unat (int_u64 blk) = unat blk"
      using int_u64_blocks [OF b, of j] int_u64_blocks [OF b, of "Suc j"] int_u64_blocks [OF b, of 1] j by (simp_all add: add.commute)
    have rl: "?d = data @ map (fresh E) [j * unat blk..<Suc j * unat blk]" using Suc.prems(2) by (simp add: realloc_def)
    then have ld: "length ?d = Suc j * unat blk" using Suc.prems(2) by simp
    have tk: "take (j * unat blk) ?d = data" unfolding rl using Suc.prems(2) by simp
    have fr: "fread E (unat (st + inode_block ino j * blk)) (j * unat blk) (unat blk) ?d = Inr (data @ ?B)"
    proof (subst fread_eq)
      show "Inr (put_bytes (j * unat blk) (take (unat blk) (drop (unat (st + inode_block ino j * blk)) (image_bytes E))) ?d) = Inr (data @ ?B)"
        unfolding put_bytes_def tk using lb ld by (simp add: block_bytes_def)
    qed (use ld in simp)
    have "data_loop E st blk ino [Suc j..<12] (data @ ?B) =
        Inr ((data @ ?B) @ concat (map (\<lambda>k. block_bytes E st blk (inode_block ino k)) (used_blocks ino (Suc j))))"
      by (rule Suc.hyps(1)) (use Suc.hyps(2) Suc.prems j lb in simp_all)
    moreover have "used_blocks ino j = j # used_blocks ino (Suc j)" using False by (simp add: used_blocks_def l)
    ultimately show ?thesis unfolding l using fl False fr sz by simp
  qed
qed

text \<open>The places of the entries of a directory, from \<open>pos\<close> to its end.\<close>

fun dir_lists :: "u8 list \<Rightarrow> nat \<Rightarrow> nat \<Rightarrow> nat list \<Rightarrow> bool" where
  "dir_lists data dsize pos [] \<longleftrightarrow> dsize \<le> pos"
| "dir_lists data dsize pos (p # ps) \<longleftrightarrow> p = pos \<and> pos < dsize \<and> pos + 8 \<le> length data \<and> pos < 2 ^ 32
     \<and> data ! (pos + 6) \<noteq> 0 \<and> dir_lists data dsize (pos + unat (get16 (bytes_at data) (of_nat (pos + 4)))) ps"

definition entry_inode :: "u8 list \<Rightarrow> nat \<Rightarrow> u32" where
  "entry_inode data p = get32 (bytes_at data) (of_nat p)"

definition stands_at :: "u8 list \<Rightarrow> u8 list \<Rightarrow> nat \<Rightarrow> bool" where
  "stands_at data c p \<longleftrightarrow> take (length c) (drop (p + 8) data) = c"

lemma same_name_eq:
  "n \<le> length xs \<Longrightarrow> n \<le> length ys \<Longrightarrow> 0 \<notin> set (take n ys) \<Longrightarrow> same_name xs ys n = Inr (take n xs = take n ys)"
proof (induction xs ys n rule: same_name.induct)
  case (4 x xs y ys n)
  then show ?case by (cases "x = y") auto
qed auto

lemma dir_loop_finds:
  assumes "dir_lists data (unat dsize) pos ps" and "\<forall>p \<in> set ps. p + 8 + length c \<le> length data"
    and "n = length c" and "take n path = c" and "0 \<notin> set c"
  shows "dir_loop path n data dsize pos = Some (Inr (map_option (entry_inode data) (find (stands_at data c) ps)))"
  using assms(1,2)
proof (induction ps arbitrary: pos)
  case Nil
  then show ?case by (subst dir_loop.simps) simp
next
  case (Cons p ps)
  have p: "p = pos" "pos < unat dsize" "pos + 8 \<le> length data" "pos < 2 ^ 32" "data ! (pos + 6) \<noteq> 0"
    "dir_lists data (unat dsize) (pos + unat (get16 (bytes_at data) (of_nat (pos + 4)))) ps"
    using Cons.prems(1) by simp_all
  have u: "unat (of_nat (pos + 6) :: u64) = pos + 6" using p(4) by (simp only: unat_of_nat take_bit_nat_eq_self_iff) simp
  then have "bytes_at data (of_nat (pos + 6)) = data ! (pos + 6)" using p(3) unfolding bytes_at_def u by simp
  then have len: "field (\<lambda>m. m) (pos + 6) 1 data = Inr (data ! (pos + 6))"
    using p(3) by (subst field_eq) simp_all
  have np: "n \<le> length path" using assms(3,4) by (metis length_take min.cobounded1)
  have nm: "same_name (drop (pos + 8) data) path n = Inr (stands_at data c pos)"
    using Cons.prems(2) p(1) np assms(3-5) by (subst same_name_eq) (auto simp: stands_at_def)
  have i: "field get32 pos 4 data = Inr (entry_inode data pos)"
    and sz: "field get16 (pos + 4) 2 data = Inr (get16 (bytes_at data) (of_nat (pos + 4)))"
    using p(3) by (simp_all add: field_eq entry_inode_def)
  show ?case
  proof (cases "stands_at data c pos")
    case True
    then show ?thesis using p(1,2,5) len nm i by (subst dir_loop.simps) simp
  next
    case False
    then have "dir_loop path n data dsize pos = dir_loop path n data dsize (pos + unat (get16 (bytes_at data) (of_nat (pos + 4))))"
      using p(2,5) len nm sz by (subst dir_loop.simps) simp
    then show ?thesis using False Cons.IH [OF p(6)] Cons.prems(2) p(1) by simp
  qed
qed

text \<open>
  What a path names: in each directory the first entry at whose name the characters of the component stand.
\<close>

definition is_dir :: "u8 list \<Rightarrow> bool" where
  "is_dir ino \<longleftrightarrow> get16 (bytes_at ino) 0 AND EXT2_INODE_DIR = EXT2_INODE_DIR"

definition dir_entry :: "u8 list \<Rightarrow> u32 \<Rightarrow> u8 list \<Rightarrow> u32 \<Rightarrow> bool" where
  "dir_entry data dsize c i \<longleftrightarrow> (\<exists>ps. dir_lists data (unat dsize) 0 ps \<and> (\<forall>p \<in> set ps. p + 8 + length c \<le> length data)
     \<and> map_option (entry_inode data) (find (stands_at data c) ps) = Some i)"

definition dir_has :: "host \<Rightarrow> ext2_superblock \<Rightarrow> u32 \<Rightarrow> u32 \<Rightarrow> u32 \<Rightarrow> u8 list \<Rightarrow> u32 \<Rightarrow> bool" where
  "dir_has E sb st blk d c i \<longleftrightarrow> inode_there sb d \<and> blocks_there E st blk (inode_image E sb st d) \<and> is_dir (inode_image E sb st d)
     \<and> dir_entry (dir_data E st blk (inode_image E sb st d)) (inode_size_low (inode_image E sb st d)) c i \<and> i \<noteq> 0"

fun resolves :: "host \<Rightarrow> ext2_superblock \<Rightarrow> u32 \<Rightarrow> u32 \<Rightarrow> u32 \<Rightarrow> u8 list list \<Rightarrow> u32 \<Rightarrow> bool" where
  "resolves E sb st blk d [] i \<longleftrightarrow> i = d"
| "resolves E sb st blk d (c # cs) i \<longleftrightarrow> (\<exists>j. dir_has E sb st blk d c j \<and> resolves E sb st blk j cs i)"

definition name_ok :: "u8 list \<Rightarrow> bool" where
  "name_ok c \<longleftrightarrow> c \<noteq> [] \<and> slash \<notin> set c \<and> 0 \<notin> set c"

definition path_of :: "u8 list list \<Rightarrow> u8 list" where
  "path_of cs = concat (map (\<lambda>c. slash # c) cs)"

lemma path_step_finds:
  assumes m: "mounted E sb blk s" and d: "dir_has E sb (start s) blk d c i" and c: "name_ok c" and n: "n = length c" "take n path = c"
  obtains tab where "path_step E path n d s = Inr (Inr i, s\<lparr>i_start := tab\<rparr>)" and "mounted E sb blk (s\<lparr>i_start := tab\<rparr>)"
proof -
  let ?ino = "inode_image E sb (start s) d"
  have D: "inode_there sb d" "blocks_there E (start s) blk ?ino" "is_dir ?ino" "i \<noteq> 0"
    "dir_entry (dir_data E (start s) blk ?ino) (inode_size_low ?ino) c i" using d by (auto simp: dir_has_def)
  obtain tab where r: "ext2_read_inode_old E d s = Inr (?ino, s\<lparr>i_start := tab\<rparr>)" and m': "mounted E sb blk (s\<lparr>i_start := tab\<rparr>)"
    by (rule read_inode_image [OF m D(1)])
  have b: "BLKSZ sb = Inr blk" "block_size sb \<le> 16" "super_at (s\<lparr>i_start := tab\<rparr>) = Inr sb" using m m' by (auto simp: mounted_def)
  obtain ps where ps: "dir_lists (dir_data E (start s) blk ?ino) (unat (inode_size_low ?ino)) 0 ps"
    "\<forall>p \<in> set ps. p + 8 + length c \<le> length (dir_data E (start s) blk ?ino)"
    "map_option (entry_inode (dir_data E (start s) blk ?ino)) (find (stands_at (dir_data E (start s) blk ?ino) c) ps) = Some i"
    using D(5) by (auto simp: dir_entry_def)
  have l: "88 \<le> length ?ino" using D(2) by (simp add: blocks_there_def)
  have dt: "ext2_read_inode_data_old E ?ino (s\<lparr>i_start := tab\<rparr>) = Inr (dir_data E (start s) blk ?ino)"
    using b data_loop_reads [OF D(2) block_size_facts(1) [OF b(1,2)], of 0 "[]"]
    by (simp add: ext2_read_inode_data_old_def dir_data_def)
  have "0 \<notin> set c" using c by (simp add: name_ok_def)
  then have dl: "dir_loop path n (dir_data E (start s) blk ?ino) (inode_size_low ?ino) 0 = Some (Inr (Some i))"
    using dir_loop_finds [OF ps(1,2) n] ps(3) by simp
  have f: "field get16 0 2 ?ino = Inr (get16 (bytes_at ?ino) 0)" "field get32 4 4 ?ino = Inr (inode_size_low ?ino)"
    using l by (simp_all add: field_eq inode_size_low_def)
  show thesis
  proof (rule that [OF _ m'])
    show "path_step E path n d s = Inr (Inr i, s\<lparr>i_start := tab\<rparr>)"
      using r f D(3,4) dt dl by (simp add: path_step_def is_dir_def)
  qed
qed

lemma path_parts:
  assumes "name_ok c" and "\<forall>d \<in> set cs. name_ok d"
  shows "dropWhile (\<lambda>x. x = slash) (path_of (c # cs)) = c @ path_of cs" and "component (c @ path_of cs) = length c"
proof -
  have c: "\<forall>x \<in> set c. x \<noteq> slash" "c \<noteq> []" using assms(1) by (auto simp: name_ok_def)
  then show "dropWhile (\<lambda>x. x = slash) (path_of (c # cs)) = c @ path_of cs" by (cases c) (auto simp: path_of_def)
  have "takeWhile (\<lambda>x. x \<noteq> slash) (path_of cs) = []" by (cases cs) (auto simp: path_of_def)
  then show "component (c @ path_of cs) = length c" using c by (simp add: component_def takeWhile_append2)
qed

lemma path_loop_resolves:
  assumes "mounted E sb blk s" and "resolves E sb (start s) blk d cs i" and "cs \<noteq> []" and "\<forall>c \<in> set cs. name_ok c"
  obtains tab where "path_loop E (path_of cs) d s = Inr (Inr i, s\<lparr>i_start := tab\<rparr>)" and "mounted E sb blk (s\<lparr>i_start := tab\<rparr>)"
  using assms
proof (induction cs arbitrary: d s thesis)
  case (Cons c cs)
  obtain j where j: "dir_has E sb (start s) blk d c j" "resolves E sb (start s) blk j cs i" using Cons.prems(3) by auto
  have ok: "name_ok c" "\<forall>d \<in> set cs. name_ok d" using Cons.prems(5) by simp_all
  note P = path_parts [OF ok]
  have tk: "take (length c) (c @ path_of cs) = c" by simp
  obtain t where t: "path_step E (c @ path_of cs) (length c) d s = Inr (Inr j, s\<lparr>i_start := t\<rparr>)" "mounted E sb blk (s\<lparr>i_start := t\<rparr>)"
    by (rule path_step_finds [OF Cons.prems(2) j(1) ok(1) refl tk])
  have L: "path_loop E (path_of (c # cs)) d s =
      (if path_of cs \<noteq> [] then path_loop E (path_of cs) j (s\<lparr>i_start := t\<rparr>) else Inr (Inr j, s\<lparr>i_start := t\<rparr>))"
    by (subst path_loop.simps) (simp add: P t(1) Let_def)
  show ?case
  proof (cases "cs = []")
    case True
    then show ?thesis using L j(2) t(2) by (intro Cons.prems(1) [of t]) (simp_all add: path_of_def)
  next
    case False
    then have ne: "path_of cs \<noteq> []" by (cases cs) (simp_all add: path_of_def)
    obtain t' where t': "path_loop E (path_of cs) j (s\<lparr>i_start := t\<rparr>) = Inr (Inr i, s\<lparr>i_start := t\<rparr>\<lparr>i_start := t'\<rparr>)"
      "mounted E sb blk (s\<lparr>i_start := t\<rparr>\<lparr>i_start := t'\<rparr>)"
      by (rule Cons.IH [OF _ t(2) _ False ok(2), of j]) (use j(2) in simp_all)
    then show ?thesis using L ne by (intro Cons.prems(1) [of t']) simp_all
  qed
qed simp

text \<open>A path that leads to a file opens it.\<close>

lemma open_resolves:
  assumes m: "mounted E sb blk s" and r: "resolves E sb (start s) blk 2 cs i" and cs: "cs \<noteq> []" "\<forall>c \<in> set cs. name_ok c"
    and k: "find (\<lambda>k. open_files s ! k = 0xFFFFFFFF) [0..<1024] = Some k"
  obtains tab where "ext2_open_old E (path_of cs) fl s =
      Inr (int k, s\<lparr>i_start := tab, open_files := (open_files s)[k := 0], file_inodes := (file_inodes s)[k := i]\<rparr>)"
    and "mounted E sb blk (s\<lparr>i_start := tab\<rparr>)"
proof -
  obtain tab where t: "path_loop E (path_of cs) 2 s = Inr (Inr i, s\<lparr>i_start := tab\<rparr>)" "mounted E sb blk (s\<lparr>i_start := tab\<rparr>)"
    by (rule path_loop_resolves [OF m r cs])
  have "start s \<noteq> 0" using m by (simp add: mounted_def)
  then show thesis using t k by (intro that [of tab]) (simp_all add: ext2_open_old_def)
qed

section \<open>The table of groups makes no difference\<close>


section \<open>Moving the position\<close>

lemma seek_set:
  assumes r: "readable E sb blk s fd" and o: "unat off \<le> length (open_file E sb blk s fd)"
  obtains s' where "ext2_lseek_old E (int fd) off SEEK_SET_old s = Inr (int (unat off), s')" and "readable E sb blk s' fd"
    and "unat (open_files s' ! fd) = unat off" and "open_file E sb blk s' fd = open_file E sb blk s fd"
proof -
  have R: "mounted E sb blk s" "fd < 1024" "open_files s ! fd \<noteq> 0xFFFFFFFF" "file_inodes s ! fd \<noteq> 0xFFFFFFFF"
    "inode_there sb (file_inodes s ! fd)" "file_there E (start s) blk (open_inode E sb s fd)"
    using r by (auto simp: readable_def)
  have l: "length (open_files s) = 1024" "start s \<noteq> 0" "BLKSZ sb = Inr blk" "block_size sb \<le> 16" using R(1) by (auto simp: mounted_def)
  obtain tab where i: "ext2_read_inode_old E (file_inodes s ! fd) s = Inr (open_inode E sb s fd, s\<lparr>i_start := tab\<rparr>)"
    "mounted E sb blk (s\<lparr>i_start := tab\<rparr>)"
    unfolding open_inode_def by (rule read_inode_image [OF R(1,5)])
  have "length (open_file E sb blk s fd) \<le> 12 * 2 ^ 26"
    unfolding open_file_def by (rule file_small [OF R(6) block_size_facts(1) [OF l(3,4)]])
  then have sm: "unat off \<le> 12 * 2 ^ 26" using o by linarith
  let ?p = "ucast off :: u32" let ?s' = "s\<lparr>i_start := tab, open_files := (open_files s)[fd := ?p]\<rparr>"
  have p: "unat ?p = unat off" using sm by (simp add: unsigned_ucast_eq take_bit_nat_eq_self)
  have ne: "?p \<noteq> 0xFFFFFFFF"
  proof
    assume "?p = 0xFFFFFFFF"
    then have "unat off = 4294967295" using p by simp
    then show False using sm by simp
  qed
  have sz: "length (open_file E sb blk s fd) = unat (inode_size_low (open_inode E sb s fd))" by (simp add: open_file_def file_bytes_def)
  have f: "field get32 4 4 (open_inode E sb s fd) = Inr (inode_size_low (open_inode E sb s fd))"
    using R(6) by (simp add: field_eq file_there_def inode_size_low_def)
  have le: "\<not> inode_size_low (open_inode E sb s fd) < ?p" using o p sz by (simp add: word_less_nat_alt)
  have same: "open_file E sb blk ?s' fd = open_file E sb blk s fd" "open_inode E sb ?s' fd = open_inode E sb s fd"
    by (simp_all add: open_file_def open_inode_def)
  have m: "mounted E sb blk ?s'" using i(2) by (simp add: mounted_def cache_ok_def super_at_def)
  show thesis
  proof (rule that [of ?s'])
    show "ext2_lseek_old E (int fd) off SEEK_SET_old s = Inr (int (unat off), ?s')"
      using i(1) R(2-4) l(2) f le p by (simp add: ext2_lseek_old_def descriptor_ok_def)
    show "readable E sb blk ?s' fd"
      unfolding readable_def same using m R ne o p l(1) by simp
  qed (use same p R(2) l(1) in simp_all)
qed

text \<open>
  C39. \<^verbatim>\<open>ext2_lseek\<close> and \<^verbatim>\<open>ext2_read\<close> go together: after a move to a position in the file, the read gives the bytes of the file from there.
\<close>

theorem ext2_old_seek_reads:
  assumes "readable E sb blk s fd" and "unat off \<le> length (open_file E sb blk s fd)"
    and "0 < unat count" and "unat count < 2 ^ 31" and "unat count \<le> length buf"
    and "bs = take (unat count) (drop (unat off) (open_file E sb blk s fd))"
  shows "rbind (ext2_lseek_old E (int fd) off SEEK_SET_old s) (\<lambda>(p, s'). rbind (ext2_read_old E (int fd) (Some buf) count s') (\<lambda>(n, b, s''). Inr (p, n, b)))
    = Inr (int (unat off), int (length bs), Some (bs @ drop (length bs) buf))"
proof -
  obtain s' where s': "ext2_lseek_old E (int fd) off SEEK_SET_old s = Inr (int (unat off), s')" "readable E sb blk s' fd"
    "unat (open_files s' ! fd) = unat off" "open_file E sb blk s' fd = open_file E sb blk s fd" by (rule seek_set [OF assms(1,2)])
  obtain s'' where "ext2_read_old E (int fd) (Some buf) count s' = Inr (int (length bs), Some (put_bytes 0 bs buf), s'')"
    by (rule old_read_step [OF s'(2) assms(3-5)]) (simp add: assms(6) s')
  then show ?thesis using s'(1) by (simp add: put_bytes_def)
qed

section \<open>The whole program\<close>

text \<open>A Linux partition that starts at byte \<open>st\<close> of the image, with a super block.\<close>

definition linux_partition :: "u8 list \<Rightarrow> partition option" where
  "linux_partition p = find (\<lambda>q. p_type q = 0x83) (map (\<lambda>i. partition_of (bytes_at p) (446 + 16 * of_nat i)) [0..<4])"

definition volume :: "host \<Rightarrow> u32 \<Rightarrow> ext2_superblock \<Rightarrow> u32 \<Rightarrow> bool" where
  "volume E st sb blk \<longleftrightarrow> img E \<noteq> None
     \<and> rbind (fetch E 0 510) (\<lambda>p. Inr (map_option (\<lambda>q. push_bit 9 (first_sector q)) (linux_partition p))) = Inr (Some st) \<and> st \<noteq> 0
     \<and> rbind (fetch E (unat (st + 0x400)) 1024) (\<lambda>b. Inr (superblock_of (bytes_at b) 0)) = Inr sb
     \<and> BLKSZ sb = Inr blk \<and> block_size sb \<le> 16 \<and> ind_in_grp sb \<noteq> 0"

lemma first_free:
  assumes "xs = 0xFFFFFFFF # ys"
  shows "find (\<lambda>k. xs ! k = (0xFFFFFFFF :: u32)) [0..<1024] = Some 0"
proof -
  have "[0..<1024] = 0 # [Suc 0..<1024]" by (rule upt_conv_Cons) simp
  then show ?thesis unfolding assms by (simp del: upt_rec_numeral)
qed

lemma init_mounts:
  assumes "volume E st sb blk"
  obtains s where "ext2_init_old E initial_globals = Inr s" and "mounted E sb blk s" and "start s = st"
    and "open_files s = open_files initial_globals" and "file_inodes s = file_inodes initial_globals"
proof -
  have v: "img E \<noteq> None" "st \<noteq> 0" "BLKSZ sb = Inr blk" "block_size sb \<le> 16" "ind_in_grp sb \<noteq> 0" using assms by (auto simp: volume_def)
  obtain p where p: "fetch E 0 510 = Inr p" using fetch_total by blast
  obtain b where b: "fetch E (unat (st + 0x400)) 1024 = Inr b" using fetch_total by blast
  obtain q where q: "linux_partition p = Some q" "push_bit 9 (first_sector q) = st" using assms p by (auto simp: volume_def)
  have sb: "superblock_of (bytes_at b) 0 = sb" using assms b by (simp add: volume_def)
  let ?s = "initial_globals\<lparr>start := st, super := Some b\<rparr>"
  have "super_at ?s = Inr sb" using sb by (simp add: super_at_def)
  then have i: "ext2_init_old E initial_globals = Inr ?s" and m: "mounted E sb blk ?s"
    using v p b q by (simp_all add: ext2_init_old_def linux_partition_def [symmetric] mounted_def cache_ok_def initial_globals_def Let_def)
  show thesis by (rule that [OF i m]) simp_all
qed

lemma print_file_readable:
  assumes "readable E sb blk s fd" and "length buf = 1024" and "0 \<notin> set (open_file E sb blk s fd)" and "open_files s ! fd = 0"
  obtains s' where "print_file E (int fd) 512 buf s = Inr (take 1024 (open_file E sb blk s fd), s')" and "readable E sb blk s' fd"
  using print_file_prints [OF assms(1-3), of 512] assms(4) by auto

lemma close_and_fini:
  assumes "readable E sb blk s fd"
  shows "\<exists>s'. ext2_close_old (int fd) s = Inr (0, s') \<and> (\<exists>s''. ext2_fini_old s' = Inr s'')"
proof -
  have "start s \<noteq> 0" "super_at s = Inr sb" "fd < 1024" "open_files s ! fd \<noteq> 0xFFFFFFFF" "file_inodes s ! fd \<noteq> 0xFFFFFFFF"
    using assms by (auto simp: readable_def mounted_def)
  then show ?thesis by (auto simp: ext2_close_old_def descriptor_ok_def ext2_fini_old_def super_at_def split: option.splits)
qed

definition help_path :: "u8 list list" where
  "help_path = map (map of_char) [''home'', ''barracuda'', ''help.txt'']"

lemma help_path_ok: "help_file = path_of help_path" "help_path \<noteq> []" "\<forall>c \<in> set help_path. name_ok c"
  by (simp_all add: help_file_def help_path_def path_of_def name_ok_def)


section \<open>A small image\<close>

text \<open>
  A disk with one partition, and on it the directories of the path and the file with the bytes \<^verbatim>\<open>Hi!\<close>: what is not
  zero, by place.
\<close>

fun chunk_byte :: "(nat \<times> u8 list) list \<Rightarrow> nat \<Rightarrow> u8" where
  "chunk_byte [] n = 0"
| "chunk_byte ((a, bs) # cs) n = (if a \<le> n \<and> n < a + length bs then bs ! (n - a) else chunk_byte cs n)"

definition demo_byte :: "nat \<Rightarrow> u8" where
  "demo_byte = chunk_byte
     [(450, [0x83]), (454, [1]), (1556, [1]), (1576, [16]), (1624, [128]), (2568, [3]),
      (3713, [0x40]), (3717, [4]), (3752, [5]), (3841, [0x40]), (3845, [4]), (3880, [6]),
      (3969, [0x40]), (3973, [4]), (4008, [7]), (4100, [3]), (4136, [8]),
      (5632, [3, 0, 0, 0, 0, 4, 4, 2, 104, 111, 109, 101]),
      (6656, [4, 0, 0, 0, 0, 4, 9, 2, 98, 97, 114, 114, 97, 99, 117, 100, 97]),
      (7680, [2, 0, 0, 0, 12, 0, 1, 2, 46, 0, 0, 0, 5, 0, 0, 0, 0xF4, 3, 8, 1, 104, 101, 108, 112, 46, 116, 120, 116]),
      (8704, [72, 105, 33])]"

definition demo_host :: host where
  "demo_host = \<lparr>img = Some (map demo_byte [0..<9728]), fresh = (\<lambda>_. 0xCC), no_value = 7\<rparr>"

definition demo_piece :: "nat \<Rightarrow> nat \<Rightarrow> u8 list" where
  "demo_piece a n = map (\<lambda>k. demo_byte (a + k)) [0..<n]"

lemma demo_image: "length (image_bytes demo_host) = 9728" "i < 9728 \<Longrightarrow> image_bytes demo_host ! i = demo_byte i"
  by (simp_all add: demo_host_def del: upt_rec_numeral)

lemma demo_cut: "a + n \<le> 9728 \<Longrightarrow> take n (drop a (image_bytes demo_host)) = demo_piece a n"
  by (rule nth_equalityI) (simp_all add: demo_image demo_piece_def)

lemma demo_fetch: "a + n \<le> 9728 \<Longrightarrow> fetch demo_host a n = Inr (demo_piece a n)"
  unfolding fetch_def by (subst fread_eq) (simp_all add: demo_cut put_bytes_def realloc_def demo_piece_def)

lemma demo_piece_length [simp]: "length (demo_piece a n) = n"
  by (simp add: demo_piece_def)

lemma demo_piece_at: "bytes_at (demo_piece a n) w = (if unat w < n then demo_byte (a + unat w) else 0)"
  by (simp add: bytes_at_def demo_piece_def)

lemmas demo_eval = demo_piece_at demo_byte_def get16_def get32_def

definition demo_sb :: ext2_superblock where
  "demo_sb = superblock_of (bytes_at (demo_piece 1536 1024)) 0"

lemma demo_sb_fields: "block_size demo_sb = 0" "ind_in_grp demo_sb = 16" "inode_size demo_sb = 128" "sblock_num demo_sb = 1"
  by (simp_all add: demo_sb_def superblock_of_def demo_eval)

lemma demo_partition: "map_option (\<lambda>q. push_bit 9 (first_sector q)) (linux_partition (demo_piece 0 510)) = Some 512"
proof -
  have "[0..<4] = 0 # [1..<4 :: nat]" by (simp add: upt_conv_Cons)
  then show ?thesis by (simp add: linux_partition_def partition_of_def demo_eval del: upt_rec_numeral)
qed

lemma demo_blksz: "BLKSZ demo_sb = Inr 1024"
  by (simp add: BLKSZ_def demo_sb_fields)

lemma demo_volume: "volume demo_host 512 demo_sb 1024"
  using demo_partition by (simp add: volume_def demo_fetch demo_blksz demo_sb_fields demo_sb_def [symmetric])
    (simp add: demo_host_def)

lemma demo_group: "group_table demo_host demo_sb 512 0 = Inr 3072"
  by (simp add: group_table_def demo_blksz demo_sb_fields demo_fetch group_desc_of_def demo_eval)

lemma demo_inode:
  assumes "1 \<le> k" and "k \<le> (5 :: nat)"
  shows "inode_image demo_host demo_sb 512 (of_nat k) = demo_piece (3584 + 128 * (k - 1)) 128" and "inode_there demo_sb (of_nat k)"
proof -
  have "k \<in> {1, 2, 3, 4, 5}" using assms by auto
  then show "inode_image demo_host demo_sb 512 (of_nat k) = demo_piece (3584 + 128 * (k - 1)) 128" "inode_there demo_sb (of_nat k)"
    by (auto simp: inode_image_def inode_there_def demo_sb_fields demo_group demo_fetch)
qed

lemma demo_inodes:
  "inode_image demo_host demo_sb 512 2 = demo_piece 3712 128" "inode_image demo_host demo_sb 512 3 = demo_piece 3840 128"
  "inode_image demo_host demo_sb 512 4 = demo_piece 3968 128" "inode_image demo_host demo_sb 512 5 = demo_piece 4096 128"
  "inode_there demo_sb 2" "inode_there demo_sb 3" "inode_there demo_sb 4" "inode_there demo_sb 5"
  using demo_inode [of 2] demo_inode [of 3] demo_inode [of 4] demo_inode [of 5] by simp_all

lemma demo_dir_data:
  assumes "inode_block ino 0 = of_nat b" and "inode_block ino 1 = 0" and "b \<in> {5, 6, 7}"
  shows "dir_data demo_host 512 1024 ino = demo_piece (512 + 1024 * b) 1024"
proof -
  have "[0..<12] = 0 # 1 # [2..<12 :: nat]" by (simp add: upt_conv_Cons)
  then have "used_blocks ino 0 = [0]" using assms by (auto simp: used_blocks_def simp del: upt_rec_numeral)
  then show ?thesis using assms(1,3) by (auto simp: dir_data_def block_bytes_def demo_cut)
qed

lemma demo_piece_drop: "a + n \<le> m \<Longrightarrow> take n (drop a (demo_piece b m)) = demo_piece (b + a) n"
  by (rule nth_equalityI) (simp_all add: demo_piece_def add.assoc)

lemma demo_piece_step: "demo_piece a 0 = []" "demo_piece a (Suc n) = demo_byte a # demo_piece (Suc a) n"
  by (simp_all add: demo_piece_def map_upt_Suc del: upt_Suc)

lemma demo_piece_nth: "i < n \<Longrightarrow> demo_piece a n ! i = demo_byte (a + i)"
  by (simp add: demo_piece_def)

lemma below_twelve: "(k :: nat) < 12 \<Longrightarrow> k \<in> {0, 1, 2, 3, 4, 5, 6, 7, 8, 9, 10, 11}"
  by (simp, presburger)

lemma demo_blocks:
  "k < 12 \<Longrightarrow> inode_block (demo_piece 3712 128) k = (if k = 0 then 5 else 0)"
  "k < 12 \<Longrightarrow> inode_block (demo_piece 3840 128) k = (if k = 0 then 6 else 0)"
  "k < 12 \<Longrightarrow> inode_block (demo_piece 3968 128) k = (if k = 0 then 7 else 0)"
  "k < 12 \<Longrightarrow> inode_block (demo_piece 4096 128) k = (if k = 0 then 8 else 0)"
  by (drule below_twelve, elim insertE emptyE; simp add: inode_block_def demo_eval)+

lemma demo_dirs:
  "is_dir (demo_piece 3712 128)" "is_dir (demo_piece 3840 128)" "is_dir (demo_piece 3968 128)"
  "inode_size_low (demo_piece 3712 128) = 1024" "inode_size_low (demo_piece 3840 128) = 1024"
  "inode_size_low (demo_piece 3968 128) = 1024" "inode_size_low (demo_piece 4096 128) = 3"
  by (simp_all add: is_dir_def EXT2_INODE_DIR_def inode_size_low_def demo_eval)

lemma demo_entries:
  "dir_entry (demo_piece 5632 1024) 1024 (map of_char ''home'') 3"
  "dir_entry (demo_piece 6656 1024) 1024 (map of_char ''barracuda'') 4"
  "dir_entry (demo_piece 7680 1024) 1024 (map of_char ''help.txt'') 5"
proof -
  show "dir_entry (demo_piece 5632 1024) 1024 (map of_char ''home'') 3"
    unfolding dir_entry_def
    by (rule exI [where x = "[0]"]) (simp add: stands_at_def demo_piece_drop demo_piece_nth entry_inode_def demo_eval demo_piece_step)
  show "dir_entry (demo_piece 6656 1024) 1024 (map of_char ''barracuda'') 4"
    unfolding dir_entry_def
    by (rule exI [where x = "[0]"]) (simp add: stands_at_def demo_piece_drop demo_piece_nth entry_inode_def demo_eval demo_piece_step)
  show "dir_entry (demo_piece 7680 1024) 1024 (map of_char ''help.txt'') 5"
    unfolding dir_entry_def
    by (rule exI [where x = "[0, 12]"])
      (simp add: stands_at_def demo_piece_drop demo_piece_nth entry_inode_def demo_eval demo_piece_step)
qed

lemma demo_there:
  "blocks_there demo_host 512 1024 (demo_piece 3712 128)" "blocks_there demo_host 512 1024 (demo_piece 3840 128)"
  "blocks_there demo_host 512 1024 (demo_piece 3968 128)"
  by (auto simp: blocks_there_def demo_blocks demo_image)

lemma demo_resolves: "resolves demo_host demo_sb 512 1024 2 help_path 5"
proof -
  have "dir_has demo_host demo_sb 512 1024 2 (map of_char ''home'') 3"
    using demo_dir_data [of "demo_piece 3712 128" 5] demo_entries(1) by (simp add: dir_has_def demo_inodes demo_there demo_dirs demo_blocks)
  moreover have "dir_has demo_host demo_sb 512 1024 3 (map of_char ''barracuda'') 4"
    using demo_dir_data [of "demo_piece 3840 128" 6] demo_entries(2) by (simp add: dir_has_def demo_inodes demo_there demo_dirs demo_blocks)
  moreover have "dir_has demo_host demo_sb 512 1024 4 (map of_char ''help.txt'') 5"
    using demo_dir_data [of "demo_piece 3968 128" 7] demo_entries(3) by (simp add: dir_has_def demo_inodes demo_there demo_dirs demo_blocks)
  ultimately show ?thesis unfolding help_path_def list.map(1) [of "map of_char"] list.map(2) [of "map of_char"] resolves.simps by blast
qed

lemma demo_text:
  "file_there demo_host 512 1024 (demo_piece 4096 128)" "file_bytes demo_host 512 1024 (demo_piece 4096 128) = [72, 105, 33]"
proof -
  show "file_there demo_host 512 1024 (demo_piece 4096 128)" by (auto simp: file_there_def demo_dirs demo_blocks demo_image)
  have "[0..<3] = [0, 1, 2 :: nat]" by (simp add: upt_rec)
  then show "file_bytes demo_host 512 1024 (demo_piece 4096 128) = [72, 105, 33]"
    by (simp add: file_bytes_def demo_dirs file_byte_def demo_blocks demo_image demo_byte_def del: upt_rec_numeral)
qed


section \<open>The table of open files\<close>

text \<open>Reading inodes and resolving paths change nothing but the table of groups.\<close>

definition same_files :: "ext2_globals \<Rightarrow> ext2_globals \<Rightarrow> bool" where
  "same_files s s' \<longleftrightarrow> (\<exists>tab. s' = s\<lparr>i_start := tab\<rparr>)"

lemma same_files_refl [simp]: "same_files s s"
  by (auto simp: same_files_def intro: exI [of _ "i_start s"])

lemma same_files_trans: "same_files s s' \<Longrightarrow> same_files s' s'' \<Longrightarrow> same_files s s''"
  by (auto simp: same_files_def)

lemma read_inode_files: "ext2_read_inode_old E ino s = Inr (buf, s') \<Longrightarrow> same_files s s'"
  by (auto simp: ext2_read_inode_old_def Let_def rbind_eq_Inr same_files_def split: if_splits intro: exI [of _ "i_start s"])

lemma path_step_files: "path_step E path n d s = Inr (r, s') \<Longrightarrow> same_files s s'"
  by (auto simp: path_step_def rbind_eq_Inr dest: read_inode_files split: if_splits option.splits)

lemma path_loop_elim:
  assumes "path_loop E path d s = Inr (r, s')"
  obtains (error) p e where "path_step E p (component p) d s = Inr (Inl e, s')" and "r = Inl e"
  | (last) p i where "path_step E p (component p) d s = Inr (Inr i, s')" and "r = Inr i"
  | (more) p i s1 where "p = dropWhile (\<lambda>c. c = slash) path" and "path_step E p (component p) d s = Inr (Inr i, s1)"
      and "drop (component p) p \<noteq> []" and "path_loop E (drop (component p) p) i s1 = Inr (r, s')"
proof -
  let ?p = "dropWhile (\<lambda>c. c = slash) path"
  let ?rest = "drop (component ?p) ?p"
  define f where "f = (\<lambda>x s1. case x of Inl e \<Rightarrow> Inr (Inl e, s1)
    | Inr i \<Rightarrow> if ?rest \<noteq> [] then path_loop E ?rest i s1 else Inr (Inr i, s1))"
  have "path_loop E path d s = rbind (path_step E ?p (component ?p) d s) (\<lambda>(x, s1). f x s1)"
    unfolding f_def by (subst path_loop.simps) (simp only: Let_def)
  then have "rbind (path_step E ?p (component ?p) d s) (\<lambda>(x, s1). f x s1) = Inr (r, s')" using assms by metis
  then obtain x s1 where x: "path_step E ?p (component ?p) d s = Inr (x, s1)" "f x s1 = Inr (r, s')"
    unfolding rbind_eq_Inr by (metis surj_pair case_prod_conv)
  show thesis
  proof (cases x)
    case (Inl e)
    then have "path_step E ?p (component ?p) d s = Inr (Inl e, s')" "r = Inl e" using x by (simp_all add: f_def)
    then show thesis by (rule error)
  next
    case (Inr i)
    show thesis
    proof (cases "?rest = []")
      case True
      then have "path_step E ?p (component ?p) d s = Inr (Inr i, s')" "r = Inr i" using x Inr by (simp_all add: f_def)
      then show thesis by (rule last)
    next
      case False
      then have "path_loop E ?rest i s1 = Inr (r, s')" using x(2) Inr by (simp add: f_def del: drop_eq_Nil)
      then show thesis using more [OF refl _ False] x(1) Inr by blast
    qed
  qed
qed

lemma path_loop_files: "path_loop E path d s = Inr (r, s') \<Longrightarrow> same_files s s'"
proof (induction E path d s arbitrary: r s' rule: path_loop.induct)
  case (1 E path d s)
  from "1.prems" show ?case
  proof (cases rule: path_loop_elim)
    case (more p i s1)
    have "same_files s1 s'" by (rule "1.IH" [OF more(1) refl more(2) refl refl more(3,4)])
    then show ?thesis using path_step_files [OF more(2)] by (blast intro: same_files_trans)
  qed (blast dest: path_step_files)+
qed

lemma path_step_errors: "path_step E path n d s = Inr (Inl e, s') \<Longrightarrow> e < 0"
proof -
  assume "path_step E path n d s = Inr (Inl e, s')"
  then have "e = ENOTDIR_old \<or> e = ENOENT_old"
    unfolding path_step_def rbind_eq_Inr by (auto simp: rbind_eq_Inr split: if_split_asm option.split_asm)
  then show "e < 0" by (auto simp: old_errors)
qed

lemma path_loop_errors: "path_loop E path d s = Inr (Inl e, s') \<Longrightarrow> e < 0"
proof (induction E path d s rule: path_loop.induct)
  case (1 E path d s)
  from "1.prems" show ?case
  proof (cases rule: path_loop_elim)
    case (more p i s1)
    show ?thesis by (rule "1.IH" [OF more(1) refl more(2) refl refl more(3,4)])
  qed (auto dest: path_step_errors)
qed

text \<open>
  C38. Of the two tables only the first entries are set to \<^verbatim>\<open>0xFFFFFFFF\<close> before the program starts. So after a successful open, which
  gets descriptor 0, every other \<^verbatim>\<open>ext2_open\<close> fails with \<^verbatim>\<open>EMFILE\<close>, and changes nothing, until a descriptor is closed.
\<close>

theorem ext2_old_opens_one:
  assumes "ext2_init_old E initial_globals = Inr s" and "start s \<noteq> 0" and "ext2_open_old E path fl s = Inr (k, s')" and "0 \<le> k"
  shows "k = 0 \<and> ext2_open_old E path' fl' s' = Inr (EMFILE_old, s')"
proof -
  have o: "open_files s = 0xFFFFFFFF # replicate 1023 0"
    using assms(1) by (auto simp: ext2_init_old_def rbind_eq_Inr Let_def initial_globals_def split: if_splits option.splits)
  note z = first_free [OF o]
  obtain x s1 where x: "path_loop E path 2 s = Inr (x, s1)"
    "(case x of Inl e \<Rightarrow> Inr (e, s1) | Inr ino \<Rightarrow> Inr (int 0, s1\<lparr>open_files := (open_files s1)[0 := 0],
        file_inodes := (file_inodes s1)[0 := ino]\<rparr>)) = (Inr (k, s') :: (int \<times> ext2_globals) res)"
    using assms(2,3) z by (auto simp: ext2_open_old_def rbind_eq_Inr simp del: upt_rec_numeral)
  obtain ino where ino: "x = Inr ino" using x assms(4) path_loop_errors [of E path 2 s _ s1] by (cases x) auto
  then have p: "path_loop E path 2 s = Inr (Inr ino, s1)" "k = 0"
    "s' = s1\<lparr>open_files := (open_files s1)[0 := 0], file_inodes := (file_inodes s1)[0 := ino]\<rparr>" using x by auto
  have "open_files s1 = open_files s" "start s1 = start s" using path_loop_files [OF p(1)] by (auto simp: same_files_def)
  then have s': "open_files s' = 0 # replicate 1023 0" "start s' \<noteq> 0" using p(3) o assms(2) by simp_all
  have "(0 # replicate 1023 0) ! j \<noteq> (0xFFFFFFFF :: u32)" if "j < 1024" for j
    using that by (cases j) simp_all
  then have "find (\<lambda>k. open_files s' ! k = 0xFFFFFFFF) [0..<1024] = None"
    unfolding find_None_iff s' by (simp del: upt_rec_numeral)
  then show ?thesis using s'(2) p(2) by (simp add: ext2_open_old_def)
qed

section \<open>Witnesses\<close>

definition demo_open :: ext2_globals where
  "demo_open = \<lparr>start = 512, super = Some (demo_piece 1536 1024), i_start = 3072 # replicate 15 0,
     open_files = 1 # replicate 1023 0, file_inodes = 5 # replicate 1023 0\<rparr>"

lemma demo_mounted: "mounted demo_host demo_sb 1024 demo_open"
  by (auto simp: mounted_def cache_ok_def demo_open_def super_at_def demo_sb_def [symmetric] demo_blksz demo_sb_fields demo_group nth_Cons
      split: nat.split)

lemma demo_readable: "readable demo_host demo_sb 1024 demo_open 0"
  using demo_mounted demo_text
  by (simp add: readable_def open_file_def open_inode_def demo_inodes) (simp add: demo_open_def demo_inodes demo_text)

lemma demo_contents: "open_file demo_host demo_sb 1024 demo_open 0 = [72, 105, 33]"
  using demo_text(2) by (simp add: open_file_def open_inode_def) (simp add: demo_open_def demo_inodes)

theorem ext2_old_reads_file_witness:
  "\<exists>s. ext2_read_old demo_host 0 (Some [9, 9, 9]) 3 demo_open = Inr (2, Some [105, 33, 9], s)"
  using ext2_old_reads_file [OF demo_readable, of 3 "[9, 9, 9]" "[105, 33]"] by (auto simp: demo_contents) (auto simp: demo_open_def)


theorem ext2_old_seek_reads_witness:
  "rbind (ext2_lseek_old demo_host 0 2 SEEK_SET_old demo_open) (\<lambda>(p, s'). rbind (ext2_read_old demo_host 0 (Some [9, 9]) 2 s') (\<lambda>(n, b, s''). Inr (p, n, b)))
    = Inr (2, 1, Some [33, 9])"
proof -
  have c: "unat (2 :: u64) \<le> length (open_file demo_host demo_sb 1024 demo_open 0)" "0 < unat (2 :: u64)" "unat (2 :: u64) < 2 ^ 31"
    "unat (2 :: u64) \<le> length [9, 9 :: u8]" "[33] = take (unat (2 :: u64)) (drop (unat (2 :: u64)) (open_file demo_host demo_sb 1024 demo_open 0))"
    by (simp_all add: demo_contents)
  have e: "int 0 = 0" "int (unat (2 :: u64)) = 2" "int (length [33 :: u8]) = 1" "[33] @ drop (length [33 :: u8]) [9, 9] = [33, 9]" by simp_all
  show ?thesis using ext2_old_seek_reads [OF demo_readable c] unfolding e .
qed

theorem ext2_old_opens_one_witness:
  "\<exists>s s'. ext2_init_old demo_host initial_globals = Inr s \<and> ext2_open_old demo_host help_file 0 s = Inr (0, s')
     \<and> ext2_open_old demo_host help_file 0 s' = Inr (EMFILE_old, s')"
proof -
  obtain s where s: "ext2_init_old demo_host initial_globals = Inr s" "mounted demo_host demo_sb 1024 s" "start s = 512"
    "open_files s = open_files initial_globals" by (rule init_mounts [OF demo_volume])
  have "open_files s = 0xFFFFFFFF # replicate 1023 0" using s(4) by (simp add: initial_globals_def)
  note z = first_free [OF this]
  obtain s' where o: "ext2_open_old demo_host help_file 0 s = Inr (int 0, s')"
    unfolding help_path_ok(1) by (rule open_resolves [OF s(2) demo_resolves [folded s(3)] help_path_ok(2,3) z])
  then show ?thesis using ext2_old_opens_one [OF s(1) _ o] s by fastforce
qed

end
