(* ===== verification/Ext2_File.thy ===== *)
theory Ext2_File
  imports Vfs
begin

text \<open>
  A file of the ext2 driver of the kernel, read as a whole: \<^verbatim>\<open>ext2_read\<close> with the blocks it takes from the heap, the inode and
  the group descriptor it reads from the device, the chain of direct blocks and the copy to the buffer of the caller. The file is what
  the inode on the device describes.
\<close>

section \<open>A heap with room\<close>

text \<open>The last chunk of the heap is free and has at least \<open>k\<close> bytes.\<close>

definition fits :: "heap \<Rightarrow> nat \<Rightarrow> bool" where
  "fits H k \<longleftrightarrow> (\<exists>bs t. heap_rep H (bs @ [(t, True)]) \<and> k \<le> t)"

text \<open>A byte below the heap or in a block in use: no block that is handed out contains it.\<close>

definition safe_byte :: "heap \<Rightarrow> u64 \<Rightarrow> bool" where
  "safe_byte H x \<longleftrightarrow> unat x < unat (kernel_heap H) \<or> (\<exists>(a, n) \<in> heap_live H. a \<le> unat x \<and> unat x < a + n)"

lemma first_fit_there: "(t, True) \<in> set bs \<Longrightarrow> n \<le> t \<Longrightarrow> first_fit n bs \<noteq> None"
  by (induction n bs rule: first_fit.induct) auto

lemma first_fit_keeps:
  assumes "first_fit n (bs @ [(t, True)]) = Some (off, bs')" and "n + HDR + m \<le> t" and "0 < m"
  obtains cs u where "bs' = cs @ [(u, True)]" and "m \<le> u"
proof -
  obtain xs s ys where bs: "bs @ [(t, True)] = xs @ (s, True) # ys" "n \<le> s" "bs' = xs @ split_chunk n s @ ys"
    using assms(1) by (rule first_fit_Some)
  show thesis
  proof (cases ys rule: rev_cases)
    case Nil
    then have "s = t" using bs(1) by simp
    then show thesis using that [of "xs @ [(n, False)]" "t - n - HDR"] bs(3) assms(2,3) Nil by (simp add: split_chunk_def)
  next
    case (snoc zs z)
    then have "z = (t, True)" using bs(1) by (metis append_Cons append_assoc last_snoc)
    then show thesis using that [of "xs @ split_chunk n s @ zs" t] bs(3) assms(2) snoc by simp
  qed
qed

lemma kmalloc_fits:
  assumes inv: "heap_inv H" and f: "fits H (unat sz + HDR + m)" and "0 < unat sz" and "0 < m" and b: "4096 \<le> unat (kernel_heap H)"
  obtains p k H' where "kmalloc sz H = Inr (p, H')" and "4096 \<le> unat p" and "unat p + k < 2 ^ 64" and "unat sz \<le> k"
    and "heap_inv H'" and "heap_live H' = insert (unat p, k) (heap_live H)" and "(unat p, k) \<notin> heap_live H"
    and "fits H' m" and "kernel_heap H' = kernel_heap H"
    and "\<And>x. safe_byte H x \<Longrightarrow> unat x < unat p \<or> unat p + k \<le> unat x"
proof -
  obtain xs t where b0: "heap_rep H (xs @ [(t, True)])" "unat sz + HDR + m \<le> t" using f by (auto simp: fits_def)
  define bs where "bs = xs @ [(t, True)]"
  have bs: "heap_rep H bs" "(t, True) \<in> set bs" "unat sz + HDR + m \<le> t" using b0 by (simp_all add: bs_def)
  have "chunks_len xs + t + HDR + chunks_len [] = unat (kernel_hlim H) + HDR" by (rule heap_rep_bounds(4) [OF b0(1)])
  then have "unat sz < unat (kernel_hlim H)" using bs(3) by simp
  then have sz: "0 < sz" "sz < kernel_hlim H" using assms(3) by (simp_all add: word_less_nat_alt)
  obtain off bs' where ff: "first_fit (unat sz) bs = Some (off, bs')"
    using first_fit_there [OF bs(2), of "unat sz"] bs(3) by auto
  obtain H' where H': "kmalloc sz H = Inr (chunk_at H (off + HDR), H')" "heap_rep H' bs'" "kernel_heap H' = kernel_heap H"
    "kernel_hlim H' = kernel_hlim H" by (rule kmalloc_found [OF bs(1) sz ff])
  let ?p = "chunk_at H (off + HDR)"
  obtain as u zs where ff': "bs = as @ (u, True) # zs" "unat sz \<le> u" "off = chunks_len as" "bs' = as @ split_chunk (unat sz) u @ zs"
    using ff by (rule first_fit_Some)
  have up: "unat ?p = unat (kernel_heap H) + off + HDR"
    using unat_payload [of H as u True zs] bs(1) ff' by simp
  then have p: "4096 \<le> unat ?p" "?p \<noteq> 0" using b by auto
  obtain k where k: "unat sz \<le> k" "heap_inv H'" "heap_live H' = insert (unat ?p, k) (heap_live H)"
    "\<forall>c \<in> heap_live H. Alloc_Spec.apart (unat ?p, k) c"
    using kheap.malloc_live [OF inv H'(1) p(2)] by blast
  obtain cs v where cs: "bs' = cs @ [(v, True)]" "m \<le> v" by (rule first_fit_keeps [OF ff [unfolded bs_def] b0(2) assms(4)])
  then have "fits H' m" using H'(2) by (auto simp: fits_def)
  moreover have "unat ?p + k < 2 ^ 64"
  proof -
    have "(unat ?p, k) \<in> set (regions (unat (kernel_heap H')) bs')" using k(3) heap_live_rep [OF H'(2)] by auto
    then have "(unat ?p, k) \<in> set (regions (unat (kernel_heap H')) cs)" using cs(1) by simp
    then have "unat ?p + k \<le> unat (kernel_heap H') + chunks_len cs" by (auto dest: regions_bounds)
    also have "\<dots> < unat (kernel_heap H) + unat (kernel_hlim H) + HDR" using heap_rep_len [OF H'(2)] H'(3,4) cs(1) by simp
    also have "\<dots> \<le> 2 ^ 64" using heap_rep_frame [OF bs(1)] by (simp add: heap_frame_def)
    finally show ?thesis .
  qed
  moreover have "(unat ?p, k) \<notin> heap_live H" using k(1,4) assms(3) by (force simp: Alloc_Spec.apart_def)
  moreover have "unat x < unat ?p \<or> unat ?p + k \<le> unat x" if "safe_byte H x" for x
    using that k(4) up by (fastforce simp: safe_byte_def Alloc_Spec.apart_def)
  ultimately show thesis using that H'(1,3) p(1) k(1-3) by blast
qed

lemma absorb_keeps: "\<exists>cs u. absorb_next r (zs @ [(t, True)]) = cs @ [(u, True)] \<and> t \<le> u"
proof (cases zs)
  case Nil
  then show ?thesis by (simp add: absorb_next_def)
next
  case (Cons z ws)
  then show ?thesis by (cases z; cases "snd z") (auto simp: absorb_next_def)
qed

lemma release_keeps:
  obtains cs u where "release xs s (zs @ [(t, True)]) = cs @ [(u, True)]" and "t \<le> u"
proof -
  have "\<exists>cs u. release xs s (zs @ [(t, True)]) = cs @ [(u, True)] \<and> t \<le> u"
  proof (cases rule: chunks_last_cases [of xs])
    case 1
    then show ?thesis using absorb_keeps [of s zs t] by (auto simp: release_def)
  next
    case (2 r ws)
    then show ?thesis using absorb_keeps [of "r + HDR + s" zs t] by (auto simp: release_def intro: exI [of _ "ws @ _"])
  next
    case (3 r ws)
    then show ?thesis using absorb_keeps [of s zs t] by (auto simp: release_def intro: exI [of _ "(ws @ [(r, False)]) @ _"])
  qed
  then show thesis using that by blast
qed

lemma kfree_fits:
  assumes inv: "heap_inv H" and lv: "(unat p, k) \<in> heap_live H" and f: "fits H m"
  obtains H' where "kfree p H = Inr H'" and "heap_inv H'" and "heap_live H' = heap_live H - {(unat p, k)}" and "fits H' m"
    and "kernel_heap H' = kernel_heap H"
proof -
  let ?a = "unat (kernel_heap H)"
  obtain as t where b0: "heap_rep H (as @ [(t, True)])" "m \<le> t" using f by (auto simp: fits_def)
  define bs where "bs = as @ [(t, True)]"
  have bs: "heap_rep H bs" using b0(1) by (simp add: bs_def)
  obtain xs ys where sp: "bs = xs @ (k, False) # ys" and up: "unat p = ?a + chunks_len xs + HDR"
    using lv heap_live_rep [OF bs] by (auto elim: regions_split)
  note rep = bs [unfolded sp]
  have "p = chunk_at H (chunks_len xs + HDR)" using up unat_payload [OF rep] by (simp add: word_unat_eq_iff)
  then obtain H' where H': "kfree p H = Inr H'" "heap_rep H' (release xs k ys)" "kernel_heap H' = kernel_heap H"
    using kfree_rep [OF rep] by metis
  obtain zs where ys: "ys = zs @ [(t, True)]" using sp unfolding bs_def by (cases ys rule: rev_cases) auto
  obtain cs u where "release xs k ys = cs @ [(u, True)]" "t \<le> u" unfolding ys by (rule release_keeps)
  then have "fits H' m" using H'(2) b0(2) by (force simp: fits_def)
  then show thesis using kheap.dealloc_inv [OF inv lv H'(1)] H'(1,3) that by blast
qed

lemma safe_byte_more:
  "safe_byte H x \<Longrightarrow> heap_live H \<subseteq> heap_live H' \<Longrightarrow> kernel_heap H' = kernel_heap H \<Longrightarrow> safe_byte H' x"
  by (fastforce simp: safe_byte_def)

section \<open>Structures in memory and on the device\<close>

text \<open>The bytes of a device as memory.\<close>

definition disk_at :: "u8 list \<Rightarrow> u64 \<Rightarrow> u8" where
  "disk_at C a = (if unat a < length C then C ! unat a else 0)"

text \<open>A structure of at most \<open>n\<close> bytes has the same fields in both places.\<close>

definition same_bytes :: "nat \<Rightarrow> (u64 \<Rightarrow> u8) \<Rightarrow> u64 \<Rightarrow> (u64 \<Rightarrow> u8) \<Rightarrow> u64 \<Rightarrow> bool" where
  "same_bytes n m a f b \<longleftrightarrow> (\<forall>j < n. m (a + of_nat j) = f (b + of_nat j))"

lemma same_bytes_get:
  assumes "same_bytes n m a f b"
  shows "j < n \<Longrightarrow> m (a + of_nat j) = f (b + of_nat j)"
    and "j + 1 < n \<Longrightarrow> get16 m (a + of_nat j) = get16 f (b + of_nat j)"
    and "j + 3 < n \<Longrightarrow> get32 m (a + of_nat j) = get32 f (b + of_nat j)"
proof -
  have e: "m (a + of_nat i) = f (b + of_nat i)" if "i < n" for i using assms that by (simp add: same_bytes_def)
  have s: "x + of_nat j + 1 = x + of_nat (j + 1)" "x + of_nat j + 2 = x + of_nat (j + 2)" "x + of_nat j + 3 = x + of_nat (j + 3)" for x :: u64
    by simp_all
  show "j < n \<Longrightarrow> m (a + of_nat j) = f (b + of_nat j)" by (rule e)
  show "get16 m (a + of_nat j) = get16 f (b + of_nat j)" if "j + 1 < n"
    using e [of j] e [of "j + 1"] that unfolding get16_def s by simp
  show "get32 m (a + of_nat j) = get32 f (b + of_nat j)" if "j + 3 < n"
    using e [of j] e [of "j + 1"] e [of "j + 2"] e [of "j + 3"] that unfolding get32_def s by simp
qed

lemma inode_same:
  assumes "same_bytes 124 m a f b"
  shows "inode_of m a = inode_of f b"
proof -
  note g16 = same_bytes_get(2) [OF assms] and g32 = same_bytes_get(3) [OF assms] and g8 = same_bytes_get(1) [OF assms]
  have d: "map (\<lambda>i. get32 m (a + 40 + 4 * of_nat i)) [0..<12] = map (\<lambda>i. get32 f (b + 40 + 4 * of_nat i)) [0..<12]"
  proof (rule map_cong [OF refl])
    fix i :: nat assume "i \<in> set [0..<12]"
    then have "40 + 4 * i + 3 < 124" by simp
    then have "get32 m (a + of_nat (40 + 4 * i)) = get32 f (b + of_nat (40 + 4 * i))" by (rule g32)
    then show "get32 m (a + 40 + 4 * of_nat i) = get32 f (b + 40 + 4 * of_nat i)" by (simp add: add.assoc)
  qed
  show ?thesis
    unfolding inode_of_def d
    using g16 [of 0] g16 [of 2] g32 [of 4] g32 [of 8] g32 [of 12] g32 [of 16] g32 [of 20] g16 [of 24] g16 [of 26] g32 [of 28]
      g32 [of 32] g32 [of 36] g32 [of 88] g32 [of 92] g32 [of 96] g32 [of 100] g32 [of 104] g32 [of 108] g32 [of 112]
      g8 [of 116] g8 [of 117] g16 [of 120] g16 [of 122] by simp
qed

lemma store_same_bytes:
  assumes "unat off + n \<le> length C" and "length C < 2 ^ 64" and "k \<le> n"
  shows "same_bytes k (store p (cut (unat off) n C) m) p (disk_at C) off"
  unfolding same_bytes_def
proof (intro allI impI)
  fix j assume j: "j < k"
  have l: "length (cut (unat off) n C) = n" using assms(1) by (rule cut_length)
  have "store p (cut (unat off) n C) m (p + of_nat j) = cut (unat off) n C ! j" by (rule store_in) (use j l assms in simp_all)
  also have "\<dots> = C ! (unat off + j)" using j assms by (simp add: cut_def)
  also have "\<dots> = disk_at C (off + of_nat j)"
    using unat_add_of_nat [of off j] j assms by (simp add: disk_at_def)
  finally show "store p (cut (unat off) n C) m (p + of_nat j) = disk_at C (off + of_nat j)" .
qed

text \<open>A byte outside a block is not changed by a store to it.\<close>

lemma outside_block:
  fixes x p :: u64
  assumes "unat x < unat p \<or> unat p + k \<le> unat x" and "unat p + k < 2 ^ 64" and "n \<le> k"
  shows "\<not> unat (x - p) < n"
  using assms by (auto simp: unat_sub_if')

section \<open>The inode\<close>

text \<open>The place of an inode on the device, and that the driver finds it there.\<close>

definition desc_place :: "ext2_superblock \<Rightarrow> u32 \<Rightarrow> u64 \<Rightarrow> u64" where
  "desc_place sb blk ino = desc_offset blk (sblock_num sb) (ucast ((ino - 1) div ucast (ind_in_grp sb)))"

definition inode_place :: "u8 list \<Rightarrow> ext2_superblock \<Rightarrow> u32 \<Rightarrow> u64 \<Rightarrow> u64" where
  "inode_place C sb blk ino =
     inode_offset blk (inode_st (group_desc_of (disk_at C) (desc_place sb blk ino)))
       (ucast ((ino - 1) mod ucast (ind_in_grp sb))) (inode_size sb)"

definition inode_ok :: "u8 list \<Rightarrow> ext2_superblock \<Rightarrow> u32 \<Rightarrow> u64 \<Rightarrow> bool" where
  "inode_ok C sb blk ino \<longleftrightarrow> BLKSZ sb = Inr blk \<and> ind_in_grp sb \<noteq> 0 \<and> 124 \<le> unat (inode_size sb)
     \<and> unat (desc_place sb blk ino) + 32 \<le> length C \<and> unat (inode_place C sb blk ino) + unat (inode_size sb) \<le> length C"

text \<open>A file of direct blocks \<open>bs\<close>, as its inode describes it, and the bytes of the file.\<close>

definition file_inode :: "u8 list \<Rightarrow> ext2_superblock \<Rightarrow> u32 \<Rightarrow> u64 \<Rightarrow> ext2_inode" where
  "file_inode C sb blk ino = inode_of (disk_at C) (inode_place C sb blk ino)"

definition blocks_of :: "u8 list \<Rightarrow> u32 \<Rightarrow> ext2_inode \<Rightarrow> u32 list \<Rightarrow> bool" where
  "blocks_of C blk I bs \<longleftrightarrow> bs = take (length bs) (direct I) \<and> blocks_ok blk C bs \<and> unat (SIZE I) \<le> unat blk * length bs
     \<and> 12 * unat blk < 2 ^ 31"

definition file_data :: "u8 list \<Rightarrow> u32 \<Rightarrow> ext2_inode \<Rightarrow> u32 list \<Rightarrow> u8 list" where
  "file_data C blk I bs = take (unat (SIZE I)) (concat (map (block blk C) bs))"

lemma file_data_length:
  assumes "blocks_of C blk I bs"
  shows "length (file_data C blk I bs) = unat (SIZE I)"
proof -
  have "\<forall>x \<in> set (map (block blk C) bs). length x = unat blk" by (rule blocks_length) (use assms in \<open>simp add: blocks_of_def\<close>)
  then have "length (concat (map (block blk C) bs)) = unat blk * length bs"
    by (induction bs) auto
  then show ?thesis using assms by (simp add: file_data_def blocks_of_def)
qed

text \<open>The table of direct blocks of an inode in memory.\<close>

lemma inode_table:
  assumes "inode_of m a = I" and "bs = take (length bs) (direct I)" and "4096 \<le> unat a" and "unat a + k < 2 ^ 64" and "124 \<le> k"
  shows "table_is m (a + 40) 0 bs" and "length bs \<le> 12"
    and "x \<in> tab_bytes (a + 40) 0 (length bs) \<Longrightarrow> unat a \<le> unat x \<and> unat x < unat a + k"
proof -
  have d: "direct I = map (\<lambda>i. get32 m (a + 40 + 4 * of_nat i)) [0..<12]" using assms(1) by (auto simp: inode_of_def)
  then have "length (direct I) = 12" by simp
  moreover have "length bs = length (take (length bs) (direct I))" using assms(2) by (rule arg_cong)
  ultimately show l: "length bs \<le> 12" by simp
  have e: "tab_entry (a + 40) (0 + of_nat j) = a + of_nat (40 + 4 * j)" if "j < 12" for j
  proof -
    have "j \<in> {0, 1, 2, 3, 4, 5, 6, 7, 8, 9, 10, 11}" using that by (simp, presburger)
    then show ?thesis by (auto simp: tab_entry_def int_u64_def)
  qed
  have u: "unat (a + of_nat i) = unat a + i" if "i < 124" for i by (rule unat_add_of_nat) (use that assms(4,5) in simp)
  show "table_is m (a + 40) 0 bs"
    unfolding table_is_def
  proof (intro allI impI)
    fix j assume j: "j < length bs"
    then have j12: "j < 12" using l by simp
    have "bs ! j = direct I ! j" using assms(2) j by (metis nth_take)
    then have "bs ! j = get32 m (a + of_nat (40 + 4 * j))" unfolding d using j12 by (simp add: add.assoc)
    then show "4096 \<le> tab_entry (a + 40) (0 + of_nat j) \<and> get32 m (tab_entry (a + 40) (0 + of_nat j)) = bs ! j"
      unfolding e [OF j12] using u [of "40 + 4 * j"] j12 assms(3) by (simp add: word_le_nat_alt)
  qed
  assume "x \<in> tab_bytes (a + 40) 0 (length bs)"
  then obtain j where j: "j < length bs" and x: "x \<in> {tab_entry (a + 40) (0 + of_nat j), tab_entry (a + 40) (0 + of_nat j) + 1,
      tab_entry (a + 40) (0 + of_nat j) + 2, tab_entry (a + 40) (0 + of_nat j) + 3}"
    unfolding tab_bytes_def by blast
  have j: "j < 12" using j l by simp
  define y where "y = a + of_nat (40 + 4 * j)"
  have "x = y + of_nat 0 \<or> x = y + of_nat 1 \<or> x = y + of_nat 2 \<or> x = y + of_nat 3"
    using x unfolding e [OF j] y_def [symmetric] by simp
  then have "\<exists>c \<in> {0, 1, 2, 3}. x = y + of_nat c" by blast
  then obtain c where c: "c \<in> {0, 1, 2, 3 :: nat}" "x = y + of_nat c" by blast
  then have c: "c < 4" "x = a + of_nat (40 + 4 * j + c)" by (auto simp: y_def)
  then have "unat x = unat a + (40 + 4 * j + c)" unfolding c(2) by (intro u) (use j in simp)
  then show "unat a \<le> unat x \<and> unat x < unat a + k" using c(1) j assms(5) by simp
qed

text \<open>A device that has nothing in the headers of the heap.\<close>

locale file_device = storage +
  assumes heap_law: "ok s \<Longrightarrow> ok (s\<lparr>fheap := H\<rparr>) \<and> contents (s\<lparr>fheap := H\<rparr>) = contents s"
begin

lemma still:
  assumes "ok s" and "\<And>x. x \<in> own \<Longrightarrow> m x = ram s x"
  shows "ok (s\<lparr>fheap := H, ram := m\<rparr>)" and "contents (s\<lparr>fheap := H, ram := m\<rparr>) = contents s"
  using keep_law [of "s\<lparr>fheap := H\<rparr>" m] heap_law [OF assms(1)] assms(2) by auto

text \<open>A read into a block of the heap.\<close>

lemma read_to_block:
  assumes "ok s" and "\<And>x. x \<in> own \<Longrightarrow> m x = ram s x" and "p \<noteq> 0" and "unat off + unat n \<le> length (contents s)" and "0 < unat n" and "unat n < 2 ^ 31"
  shows "rd dev off n p (s\<lparr>fheap := H, ram := m\<rparr>) = Inr (n, s\<lparr>fheap := H, ram := store p (cut (unat off) (unat n) (contents s)) m\<rparr>)"
  using read_law [OF still(1) [OF assms(1,2)] assms(3), of off n] still(2) [OF assms(1,2)] assms(4-6) by simp

lemma read_inode_file:
  assumes s: "ok s" "fnodes s node = Some n" "ptr n = dev" "reserved n = sba" "4096 \<le> sba" "sb = superblock_of (ram s) sba"
    and i: "inode_ok (contents s) sb blk (inode n)"
    and h: "heap_inv (fheap s)" "fits (fheap s) (32 + HDR + (unat (inode_size sb) + HDR + r))" "0 < r" "4096 \<le> unat (kernel_heap (fheap s))"
    and o: "\<And>x. x \<in> own \<Longrightarrow> safe_byte (fheap s) x"
  obtains a k H' m where "ext2_read_inode rd node s = Inr (a, s\<lparr>fheap := H', ram := m\<rparr>)" and "4096 \<le> unat a" and "unat a + k < 2 ^ 64"
    and "unat (inode_size sb) \<le> k" and "heap_inv H'" and "heap_live H' = insert (unat a, k) (heap_live (fheap s))"
    and "(unat a, k) \<notin> heap_live (fheap s)" and "fits H' r" and "kernel_heap H' = kernel_heap (fheap s)"
    and "same_bytes 124 m a (disk_at (contents s)) (inode_place (contents s) sb blk (inode n))"
    and "\<And>x. safe_byte (fheap s) x \<Longrightarrow> m x = ram s x"
proof -
  let ?C = "contents s" and ?isz = "unat (inode_size sb)"
  have I: "BLKSZ sb = Inr blk" "ind_in_grp sb \<noteq> 0" "124 \<le> ?isz" "unat (desc_place sb blk (inode n)) + 32 \<le> length ?C"
    "unat (inode_place ?C sb blk (inode n)) + ?isz \<le> length ?C" using i by (auto simp: inode_ok_def)
  have C: "length ?C < 2 ^ 64" by (rule size_law [OF s(1)])
  have iszl: "?isz < 2 ^ 16" using unsigned_less [of "inode_size sb", where 'a = nat] by simp
  have iszu: "unat (ucast (inode_size sb) :: u64) = ?isz" using iszl by (simp add: unsigned_ucast_eq take_bit_nat_eq_self)
  obtain p k1 H1 where k1: "kmalloc 32 (fheap s) = Inr (p, H1)" "4096 \<le> unat p" "heap_inv H1"
    "heap_live H1 = insert (unat p, k1) (heap_live (fheap s))" "(unat p, k1) \<notin> heap_live (fheap s)"
    "fits H1 (?isz + HDR + r)" "kernel_heap H1 = kernel_heap (fheap s)" "32 \<le> k1"
    "\<And>x. safe_byte (fheap s) x \<Longrightarrow> unat x < unat p \<or> unat p + k1 \<le> unat x" "unat p + k1 < 2 ^ 64"
    by (rule kmalloc_fits [OF h(1), of 32 "?isz + HDR + r"]) (use h I(3) in simp_all)
  let ?d = "cut (unat (desc_place sb blk (inode n))) 32 ?C"
  have ld: "length ?d = 32" using I(4) by (rule cut_length)
  let ?m1 = "store p ?d (ram s)"
  have m1: "?m1 x = ram s x" if "safe_byte (fheap s) x" for x
  proof (rule store_out)
    show "\<not> unat (x - p) < length ?d" unfolding ld by (rule outside_block [OF k1(9) [OF that] k1(10,8)])
  qed
  obtain H2 where k2: "kfree p H1 = Inr H2" "heap_inv H2" "heap_live H2 = heap_live (fheap s)" "fits H2 (?isz + HDR + r)"
    "kernel_heap H2 = kernel_heap (fheap s)"
    by (rule kfree_fits [OF k1(3) _ k1(6), of p k1]) (use k1(4,5,7) in auto)
  have sf: "safe_byte H2 x = safe_byte (fheap s) x" for x using k2(3,5) by (simp add: safe_byte_def)
  obtain a k H3 where k3: "kmalloc (ucast (inode_size sb)) H2 = Inr (a, H3)" "4096 \<le> unat a" "unat a + k < 2 ^ 64" "?isz \<le> k" "heap_inv H3"
    "heap_live H3 = insert (unat a, k) (heap_live H2)" "(unat a, k) \<notin> heap_live H2" "fits H3 r" "kernel_heap H3 = kernel_heap H2"
    "\<And>x. safe_byte H2 x \<Longrightarrow> unat x < unat a \<or> unat a + k \<le> unat x"
    by (rule kmalloc_fits [OF k2(2), of "ucast (inode_size sb)" r]) (use h I(3) iszu k2(4,5) in simp_all)
  let ?i = "cut (unat (inode_place ?C sb blk (inode n))) ?isz ?C"
  have li: "length ?i = ?isz" using I(5) by (rule cut_length)
  let ?m2 = "store a ?i ?m1"
  have m2: "?m2 x = ram s x" if "safe_byte (fheap s) x" for x
  proof -
    have "unat x < unat a \<or> unat a + k \<le> unat x" by (rule k3(10)) (simp add: sf that)
    then have "\<not> unat (x - a) < length ?i" unfolding li by (rule outside_block [OF _ k3(3,4)])
    then show ?thesis using m1 [OF that] by (simp add: store_out)
  qed
  have pa: "p \<noteq> 0" "a \<noteq> 0" "\<not> p < 4096" "\<not> a < 4096" using k1(2) k3(2) by (auto simp: word_less_nat_alt)
  have r1: "rd dev (desc_place sb blk (inode n)) 32 p (s\<lparr>fheap := H1\<rparr>) = Inr (32, s\<lparr>fheap := H1, ram := ?m1\<rparr>)"
    using read_to_block [OF s(1) _ pa(1), of "ram s" "desc_place sb blk (inode n)" 32 H1] I(4) by simp
  have dp: "group_desc_of ?m1 p = group_desc_of (disk_at ?C) (desc_place sb blk (inode n))"
  proof -
    have sb: "same_bytes 32 ?m1 p (disk_at ?C) (desc_place sb blk (inode n))"
      using store_same_bytes [OF I(4) C order_refl] by simp
    show ?thesis
      unfolding group_desc_of_def
      using same_bytes_get(3) [OF sb, of 0] same_bytes_get(3) [OF sb, of 4] same_bytes_get(3) [OF sb, of 8]
        same_bytes_get(2) [OF sb, of 12] same_bytes_get(2) [OF sb, of 14] same_bytes_get(2) [OF sb, of 16] by simp
  qed
  have r2: "rd dev (inode_place ?C sb blk (inode n)) (ucast (inode_size sb)) a (s\<lparr>fheap := H3, ram := ?m1\<rparr>) =
      Inr (ucast (inode_size sb), s\<lparr>fheap := H3, ram := ?m2\<rparr>)"
    using read_to_block [OF s(1) _ pa(2), of ?m1 "inode_place ?C sb blk (inode n)" "ucast (inode_size sb)" H3] I(3,5) iszl iszu m1 o by simp
  have sw: "s\<lparr>fheap := H, ram := m\<rparr> = s\<lparr>ram := m, fheap := H\<rparr>" for H m by simp
  have "ext2_read_inode rd node s = Inr (a, s\<lparr>fheap := H3, ram := ?m2\<rparr>)"
    unfolding sw using s(2-5) s(6) [symmetric] I(1,2) k1(1) r1 [unfolded sw] dp k2(1) k3(1) r2 [unfolded sw] pa
    by (simp add: ext2_read_inode_def node_at_def deref_def Let_def fs_kmalloc_def fs_kfree_def desc_place_def inode_place_def not_less)
  moreover have "same_bytes 124 ?m2 a (disk_at ?C) (inode_place ?C sb blk (inode n))"
    by (rule store_same_bytes [OF I(5) C I(3)])
  ultimately show thesis using that k3 k2(3,5) m2 by metis
qed

text \<open>The data of a file in its direct blocks.\<close>

lemma apart_block:
  assumes "\<And>x. x \<in> R \<Longrightarrow> unat x < unat p \<or> unat p + k \<le> unat x" and "unat p + k < 2 ^ 64" and "n \<le> k"
  shows "apart p n R"
  unfolding apart_def
proof (intro allI impI notI)
  fix i assume i: "i < n" "p + of_nat i \<in> R"
  have "unat (p + of_nat i) = unat p + i" by (rule unat_add_of_nat) (use i(1) assms(2,3) in simp)
  then show False using assms(1) [OF i(2)] i(1) assms(3) by auto
qed

lemma data_ex_file:
  assumes s: "ok s" "ext2_node s node dev sba blk" "table_is (ram s) (i + 40) 0 bs" "blocks_ok blk (contents s) bs"
    and l: "length bs \<le> 12" "12 * unat blk < 2 ^ 31" "unat off + unat sz \<le> unat blk * length bs" "0 < unat sz"
    and c: "unat off mod unat blk = 0 \<or> unat off mod unat blk + unat sz \<le> unat blk"
    and h: "heap_inv (fheap s)" "fits (fheap s) (unat sz + HDR + r)" "0 < r" "4096 \<le> unat (kernel_heap (fheap s))"
    and o: "\<And>x. x \<in> own \<union> super_bytes sba \<union> tab_bytes (i + 40) 0 (length bs) \<Longrightarrow> safe_byte (fheap s) x"
  obtains p k H where "ext2_read_inode_data_ex rd node i off sz s =
      Inr (p, s\<lparr>fheap := H, ram := store p (cut (unat off) (unat sz) (concat (map (block blk (contents s)) bs))) (ram s)\<rparr>)"
    and "unat p + k < 2 ^ 64" and "unat sz \<le> k" and "heap_inv H" and "heap_live H = insert (unat p, k) (heap_live (fheap s))"
    and "(unat p, k) \<notin> heap_live (fheap s)" and "kernel_heap H = kernel_heap (fheap s)" and "fits H r"
    and "\<And>x. safe_byte (fheap s) x \<Longrightarrow> unat x < unat p \<or> unat p + k \<le> unat x"
proof -
  let ?F = "concat (map (block blk (contents s)) bs)"
  obtain n where n: "fnodes s node = Some n" "ptr n = dev" "reserved n = sba" "4096 \<le> sba"
    "BLKSZ (superblock_of (ram s) sba) = Inr blk" using s(2) by (auto simp: ext2_node_def split: option.splits)
  obtain p k H where k: "kmalloc sz (fheap s) = Inr (p, H)" "4096 \<le> unat p" "unat p + k < 2 ^ 64" "unat sz \<le> k" "heap_inv H"
    "heap_live H = insert (unat p, k) (heap_live (fheap s))" "(unat p, k) \<notin> heap_live (fheap s)" "fits H r"
    "kernel_heap H = kernel_heap (fheap s)" "\<And>x. safe_byte (fheap s) x \<Longrightarrow> unat x < unat p \<or> unat p + k \<le> unat x"
    by (rule kmalloc_fits [OF h(1,2) l(4) h(3,4)]) blast
  let ?s = "s\<lparr>fheap := H\<rparr>"
  have le: "unat blk * length bs \<le> 12 * unat blk" using l(1) by simp
  have sum: "unat off + unat sz < 2 ^ 31" using l(2,3) le by linarith
  then have szl: "unat sz < 2 ^ 31" by simp
  have u: "unat (12 * blk) = 12 * unat blk" using l(2) by (subst unat_mult_lem [THEN iffD1]) simp_all
  have ub: "unat (int_u64 (12 * blk)) = 12 * unat blk" using int_u64_blk [of "12 * blk"] u l(2) by simp
  have us: "unat (off + sz) = unat off + unat sz"
    using sum by (subst unat_add_lem [THEN iffD1]) simp_all
  have lt: "off < int_u64 (12 * blk)" "\<not> int_u64 (12 * blk) < off + sz"
  proof -
    have "unat off < 12 * unat blk" "unat off + unat sz \<le> 12 * unat blk" using l(3,4) le by linarith+
    then show "off < int_u64 (12 * blk)" "\<not> int_u64 (12 * blk) < off + sz" by (simp_all add: word_less_nat_alt ub us)
  qed
  have ok: "ok ?s" "contents ?s = contents s" using heap_law [OF s(1)] by auto
  have ch: "ext2_read_block_chain rd node (i + 40) off sz p ?s = Inr (?s\<lparr>ram := store p (cut (unat off) (unat sz) ?F) (ram s)\<rparr>)"
  proof -
    have nd: "ext2_node ?s node dev sba blk" using s(2) by (simp add: ext2_node_def)
    have tb: "table_is (ram ?s) (i + 40) 0 bs" using s(3) by simp
    have bl: "blocks_ok blk (contents ?s) bs" using s(4) ok(2) by simp
    have ap: "apart p (unat sz) (own \<union> super_bytes sba \<union> tab_bytes (i + 40) 0 (length bs))"
      by (rule apart_block [OF k(10) [OF o] k(3,4)])
    have "ext2_read_block_chain rd node (i + 40) off sz p ?s =
        Inr (?s\<lparr>ram := store p (cut (unat off) (unat sz) (concat (map (block blk (contents ?s)) bs))) (ram ?s)\<rparr>)"
      by (rule chain_file [OF ok(1) nd tb bl _ l(3) szl c _ _ l(4) ap]) (use l(1) k(2,3,4) in simp_all)
    then show ?thesis using ok(2) by simp
  qed
  have sm: "int_u64 (ucast sz) = sz" by (rule int_u64_small [OF szl])
  let ?t = "?s\<lparr>ram := store p (cut (unat off) (unat sz) ?F) (ram s)\<rparr>"
  have no: "(int_u64 (12 * blk) < off + sz) = False" using lt(2) by simp
  have d: "read_direct rd node i (12 * blk) (off, sz, p) ?s = Inr ((0, 0, p + sz), ?t)"
    using lt(1) ch sm by (simp add: read_direct_def no)
  have "read_single rd node i blk x (0, 0, q) s' = Inr ((0 - int_u64 x, 0, q), s')"
    "read_double rd node i blk x (y, 0, q) s' = Inr ((y - int_u64 (blk * x * x), 0, q), s')" for x y q s'
    by (simp_all add: read_single_def read_double_def Let_def)
  then have "ext2_read_inode_data_ex rd node i off sz s = Inr (p, ?t)"
    using n k(1) d by (simp add: ext2_read_inode_data_ex_def node_at_def fs_kmalloc_def deref_def Let_def)
  then show thesis using that [of p H k] k by simp
qed

text \<open>The whole of \<^verbatim>\<open>ext2_read\<close>.\<close>

lemma read_file:
  assumes s: "ok s" "ext2_node s node dev sba blk" "node \<noteq> 0" "fnodes s node = Some n" "sb = superblock_of (ram s) sba"
    and i: "inode_ok (contents s) sb blk (inode n)" "I = file_inode (contents s) sb blk (inode n)" "blocks_of (contents s) blk I bs"
    and r: "unat off < unat (SIZE I)" "0 < unat sz" "unat off + unat sz < 2 ^ 64"
    and l: "l = min (unat sz) (unat (SIZE I) - unat off)"
    and c: "unat off mod unat blk = 0 \<or> unat off mod unat blk + l \<le> unat blk"
    and h: "heap_inv (fheap s)" "fits (fheap s) (32 + HDR + (unat (inode_size sb) + HDR + (l + HDR + 1)))" "4096 \<le> unat (kernel_heap (fheap s))"
    and o: "\<And>x. x \<in> own \<union> super_bytes sba \<Longrightarrow> safe_byte (fheap s) x"
  obtains H m a k where "ext2_read E rd node off sz buf s =
      Inr (of_nat l, s\<lparr>fheap := H, ram := store buf (cut (unat off) l (file_data (contents s) blk I bs)) m\<rparr>)"
    and "heap_inv H" and "heap_live H = insert (a, k) (heap_live (fheap s))" and "(a, k) \<notin> heap_live (fheap s)"
    and "unat (inode_size sb) \<le> k" and "\<And>x. safe_byte (fheap s) x \<Longrightarrow> m x = ram s x"
proof -
  let ?C = "contents s" and ?F = "concat (map (block blk (contents s)) bs)"
  have nd: "ptr n = dev" "reserved n = sba" "4096 \<le> sba" using s(2,4) by (auto simp: ext2_node_def)
  have B: "bs = take (length bs) (direct I)" "blocks_ok blk ?C bs" "unat (SIZE I) \<le> unat blk * length bs" "12 * unat blk < 2 ^ 31"
    using i(3) by (auto simp: blocks_of_def)
  obtain a k H1 m1 where a: "ext2_read_inode rd node s = Inr (a, s\<lparr>fheap := H1, ram := m1\<rparr>)" "4096 \<le> unat a" "unat a + k < 2 ^ 64"
    "unat (inode_size sb) \<le> k" "heap_inv H1" "heap_live H1 = insert (unat a, k) (heap_live (fheap s))" "(unat a, k) \<notin> heap_live (fheap s)"
    "fits H1 (l + HDR + 1)" "kernel_heap H1 = kernel_heap (fheap s)" "same_bytes 124 m1 a (disk_at ?C) (inode_place ?C sb blk (inode n))"
    "\<And>x. safe_byte (fheap s) x \<Longrightarrow> m1 x = ram s x"
    by (rule read_inode_file [OF s(1,4) nd s(5) i(1) h(1,2) _ h(3)]) (use o in auto)
  let ?s1 = "s\<lparr>fheap := H1, ram := m1\<rparr>"
  have I: "inode_of m1 a = I" using inode_same [OF a(10)] i(2) by (simp add: file_inode_def)
  have k124: "124 \<le> k" using i(1) a(4) by (simp add: inode_ok_def)
  note T = inode_table [OF I B(1) a(2,3) k124]
  have sf1: "safe_byte H1 x" if "safe_byte (fheap s) x" for x using safe_byte_more [OF that] a(6,9) by blast
  have own1: "\<And>x. x \<in> own \<Longrightarrow> m1 x = ram s x" using a(11) o by simp
  have ok1: "ok ?s1" "contents ?s1 = ?C" by (rule still [OF s(1) own1]; assumption)+
  have nd1: "ext2_node ?s1 node dev sba blk"
    using ext2_node_ram [of "s\<lparr>fheap := H1\<rparr>" node dev sba blk m1] s(2) a(11) o by (simp add: ext2_node_def)
  define sz1 where "sz1 = (if SIZE I < off + sz then SIZE I - off else sz)"
  have ad: "unat (off + sz) = unat off + unat sz" using r(3) by (subst unat_add_lem [THEN iffD1]) simp_all
  have sb: "unat (SIZE I - off) = unat (SIZE I) - unat off" using r(1) by (subst unat_sub) (simp_all add: word_le_nat_alt)
  have u1: "unat sz1 = l" unfolding sz1_def l using ad sb by (auto simp: word_less_nat_alt min_def)
  have l0: "0 < l" "unat off + l \<le> unat (SIZE I)" using r l by auto
  have fit: "unat off + unat sz1 \<le> unat blk * length bs" unfolding u1 using l0(2) B(3) by linarith
  have safe1: "safe_byte (fheap ?s1) x" if "x \<in> own \<union> super_bytes sba \<union> tab_bytes (a + 40) 0 (length bs)" for x
  proof (cases "x \<in> tab_bytes (a + 40) 0 (length bs)")
    case True
    then have "unat a \<le> unat x" "unat x < unat a + k" using T(3) by auto
    then show ?thesis using a(6) by (auto simp: safe_byte_def)
  next
    case False
    then show ?thesis using that o sf1 by auto
  qed
  have t1: "table_is (ram ?s1) (a + 40) 0 bs" using T(1) by simp
  have b1: "blocks_ok blk (contents ?s1) bs" using B(2) ok1(2) by simp
  have l1: "0 < unat sz1" "unat off mod unat blk = 0 \<or> unat off mod unat blk + unat sz1 \<le> unat blk" using l0(1) c u1 by simp_all
  have h1: "heap_inv (fheap ?s1)" "fits (fheap ?s1) (unat sz1 + HDR + 1)" "4096 \<le> unat (kernel_heap (fheap ?s1))"
    using a(5,8,9) h(3) u1 by simp_all
  obtain p k2 H2 where p: "ext2_read_inode_data_ex rd node a off sz1 ?s1 =
      Inr (p, ?s1\<lparr>fheap := H2, ram := store p (cut (unat off) (unat sz1) (concat (map (block blk (contents ?s1)) bs))) (ram ?s1)\<rparr>)"
    "unat p + k2 < 2 ^ 64" "unat sz1 \<le> k2" "heap_inv H2" "heap_live H2 = insert (unat p, k2) (heap_live (fheap ?s1))"
    "(unat p, k2) \<notin> heap_live (fheap ?s1)" "kernel_heap H2 = kernel_heap (fheap ?s1)" "fits H2 1"
    "\<And>x. safe_byte (fheap ?s1) x \<Longrightarrow> unat x < unat p \<or> unat p + k2 \<le> unat x"
    by (rule data_ex_file [OF ok1(1) nd1 t1 b1 T(2) B(4) fit l1 h1(1,2) _ h1(3) safe1]) simp_all
  obtain H3 where f: "kfree p H2 = Inr H3" "heap_inv H3" "heap_live H3 = heap_live H1"
    by (rule kfree_fits [OF p(4) _ p(8), of p k2]) (use p(5,6) in auto)
  let ?D = "cut (unat off) l ?F" and ?m2 = "store p (cut (unat off) (unat sz1) ?F) m1"
  have lF: "length ?F = unat blk * length bs" using blocks_length [OF B(2)] by (induction bs) auto
  have lD: "length ?D = l" using fit u1 lF by (intro cut_length) simp
  have DD: "?D = cut (unat off) l (file_data ?C blk I bs)"
    using l0(2) by (simp add: file_data_def cut_def drop_take take_take min_def)
  have l64: "l < 2 ^ 63"
  proof -
    have "unat blk * length bs \<le> 12 * unat blk" using T(2) by simp
    then have "l < 2 ^ 31" using fit u1 B(4) by linarith
    then show ?thesis by simp
  qed
  have ld: "load p l ?m2 = ?D" using load_store [of ?D p m1] lD l64 u1 by simp
  have m2: "?m2 x = ram s x" if "safe_byte (fheap s) x" for x
  proof -
    have "unat x < unat p \<or> unat p + k2 \<le> unat x" by (rule p(9)) (use sf1 [OF that] in simp)
    then have "\<not> unat (x - p) < length (cut (unat off) (unat sz1) ?F)" unfolding u1 lD
      by (rule outside_block [OF _ p(2)]) (use p(3) u1 in simp)
    then show ?thesis using a(11) [OF that] by (simp add: store_out)
  qed
  have "sz1 = of_nat l" using u1 by (metis of_nat_unat ucast_id)
  moreover have zs: "(if SIZE I < off + sz then SIZE I - off else sz) = sz1" by (simp add: sz1_def)
  moreover have g: "\<not> a < 4096" "\<not> SIZE I < off" using a(2) r(1) by (simp_all add: word_less_nat_alt)
  ultimately have "ext2_read E rd node off sz buf s = Inr (of_nat l, s\<lparr>fheap := H3, ram := store buf ?D ?m2\<rparr>)"
    using s(3) a(1) I p(1) ok1(2) f(1) u1 l64 ld by (simp add: ext2_read_def deref_def memcpy_def fs_kfree_def Let_def split del: if_split cong del: if_weak_cong)
  then show thesis using that [of ?m2 H3 "unat a" k] f(2,3) a(4,6,7) m2 unfolding DD by simp
qed

end

section \<open>A file on a partition\<close>

text \<open>A partition of a RAM disk, as the file system sees it.\<close>

definition part_disk_ok :: "u64 \<Rightarrow> vfs_node \<Rightarrow> u64 \<Rightarrow> vfs_node \<Rightarrow> fs \<Rightarrow> bool" where
  "part_disk_ok dev nd part pn s \<longleftrightarrow> disk_ok dev nd s \<and> part \<noteq> 0 \<and> fnodes s part = Some pn \<and> drv pn = MdpartDrv \<and> ptr pn = dev
     \<and> unat (reserved pn) + unat (length_of pn) \<le> unat (length_of nd)"

definition part_data :: "vfs_node \<Rightarrow> vfs_node \<Rightarrow> fs \<Rightarrow> u8 list" where
  "part_data nd pn s = cut (unat (reserved pn)) (unat (length_of pn)) (disk_contents nd s)"

lemma disk_contents_length [simp]: "length (disk_contents nd s) = unat (length_of nd)"
  by (simp add: disk_contents_def)

lemma part_data_length: "part_disk_ok dev nd part pn s \<Longrightarrow> length (part_data nd pn s) = unat (length_of pn)"
  unfolding part_disk_ok_def part_data_def by (intro cut_length) simp

interpretation part_files: file_device "vfs_read (Suc (Suc k)) E" part "part_disk_ok dev nd part pn" "part_data nd pn" "disk_bytes nd"
  for k E dev nd part pn
proof
  show "vfs_read (Suc (Suc k)) E part off n buf s = Inr (n, s\<lparr>ram := store buf (cut (unat off) (unat n) (part_data nd pn s)) (ram s)\<rparr>)"
    if a: "part_disk_ok dev nd part pn s" "buf \<noteq> 0" "unat off + unat n \<le> length (part_data nd pn s)" "unat n < 2 ^ 31" "0 < unat n" for s buf off n
  proof -
    have p: "disk_part.part_ok dev nd part pn s" "dev \<noteq> 0"
      using a(1) by (auto simp: disk_part.part_ok_def part_disk_ok_def disk_ok_def)
    have "mdpart_read E (vfs_read (Suc k) E) part off n buf s =
        Inr (n, s\<lparr>ram := store buf (cut (unat off) (unat n) (disk_part.part_contents nd pn s)) (ram s)\<rparr>)"
      by (rule disk_part.part_read [OF p(1) a(2) _ a(4,5)]) (use a(3) in \<open>simp add: disk_part.part_contents_def part_data_def\<close>)
    then show ?thesis using a(1) by (simp add: part_disk_ok_def node_at_def disk_part.part_contents_def part_data_def)
  qed
  show "length (part_data nd pn s) < 2 ^ 64" if "part_disk_ok dev nd part pn s" for s
    using part_data_length [OF that] unsigned_less [of "length_of pn", where ?'a = nat] by simp
  show "part_disk_ok dev nd part pn (s\<lparr>ram := m\<rparr>) \<and> part_data nd pn (s\<lparr>ram := m\<rparr>) = part_data nd pn s"
    if "part_disk_ok dev nd part pn s" "\<And>x. x \<in> disk_bytes nd \<Longrightarrow> m x = ram s x" for s m
    using vfs_disk.keep_law [of dev nd s m] that by (auto simp: part_disk_ok_def part_data_def)
  show "part_disk_ok dev nd part pn (s\<lparr>fheap := H\<rparr>) \<and> part_data nd pn (s\<lparr>fheap := H\<rparr>) = part_data nd pn s"
    if "part_disk_ok dev nd part pn s" for s H
    using that by (simp add: part_disk_ok_def part_data_def disk_ok_def disk_contents_def)
qed


text \<open>
  A partition of 7680 bytes with the file \<^verbatim>\<open>Hi!\<close> as inode 2; the super block is in memory at 0x20000. By place: what is not zero.
\<close>

definition file_ram :: "u64 \<Rightarrow> u8" where
  "file_ram a =
     (if a = 0x20014 then 1 else if a = 0x20028 then 16 else if a = 0x20058 then 128
      else if a = 0x100A08 then 3 else if a = 0x100E84 then 3 else if a = 0x100EA8 then 5
      else if a = 0x101600 then 72 else if a = 0x101601 then 105 else if a = 0x101602 then 33 else 0)"

definition file_part :: vfs_node where
  "file_part = zero_node\<lparr>drv := MdpartDrv, reserved := 512, length_of := 7680, ptr := 0x1000\<rparr>"

definition file_node :: vfs_node where
  "file_node = zero_node\<lparr>drv := Ext2Drv, inode := 2, reserved := 0x20000, ptr := 0x2000\<rparr>"

definition file_fs :: fs where
  "file_fs = demo_fs\<lparr>fnodes := [0x1000 \<mapsto> demo_disk, 0x2000 \<mapsto> file_part, 0x3000 \<mapsto> file_node], ram := file_ram\<rparr>"

definition file_sb :: ext2_superblock where "file_sb = superblock_of (ram file_fs) 0x20000"

lemma file_fs_sel: "ram file_fs = file_ram" "fheap file_fs = boot_heap" "fnodes file_fs 0x1000 = Some demo_disk"
  "fnodes file_fs 0x2000 = Some file_part" "fnodes file_fs 0x3000 = Some file_node"
  by (simp_all add: file_fs_def demo_fs_def)

lemma file_sb_sel: "block_size file_sb = 0" "ind_in_grp file_sb = 16" "inode_size file_sb = 128" "sblock_num file_sb = 1"
  by (simp_all add: file_sb_def superblock_of_def get32_def get16_def file_fs_sel file_ram_def)

lemma file_part_ok: "part_disk_ok 0x1000 demo_disk 0x2000 file_part file_fs"
  by (simp add: part_disk_ok_def disk_ok_def file_fs_sel file_part_def demo_disk_def zero_node_def)

lemma file_contents:
  assumes "i < 7680"
  shows "part_data demo_disk file_part file_fs ! i = file_ram (of_nat (0x100200 + i))"
proof -
  have "unat (length_of demo_disk) = 8192" by (simp add: demo_disk_def)
  then have "part_data demo_disk file_part file_fs ! i = disk_contents demo_disk file_fs ! (512 + i)"
    using assms by (simp add: part_data_def cut_def file_part_def)
  also have "\<dots> = file_ram (0x100000 + of_nat (512 + i))"
    using assms unfolding disk_contents_def by (subst load_nth) (simp_all add: demo_disk_def zero_node_def file_fs_sel)
  finally show ?thesis by (simp add: add.assoc)
qed

lemma file_disk_at:
  assumes "unat a < 7680"
  shows "disk_at (part_data demo_disk file_part file_fs) a = file_ram (0x100200 + a)"
proof -
  have l: "length (part_data demo_disk file_part file_fs) = 7680"
    using part_data_length [OF file_part_ok] by (simp add: file_part_def)
  have "of_nat (0x100200 + unat a) = 0x100200 + a" by (simp only: of_nat_add of_nat_unat of_nat_numeral ucast_id)
  then show ?thesis using assms file_contents [OF assms] l by (simp add: disk_at_def)
qed

lemma file_places:
  "BLKSZ file_sb = Inr 1024" "desc_place file_sb 1024 2 = 2048" "inode_place (part_data demo_disk file_part file_fs) file_sb 1024 2 = 3200"
proof -
  show "BLKSZ file_sb = Inr 1024" by (simp add: BLKSZ_def file_sb_sel)
  show d: "desc_place file_sb 1024 2 = 2048" by (simp add: desc_place_def desc_offset_def file_sb_sel)
  show "inode_place (part_data demo_disk file_part file_fs) file_sb 1024 2 = 3200"
    by (simp add: inode_place_def d inode_offset_def file_sb_sel group_desc_of_def get32_def file_disk_at file_ram_def)
qed

definition file_ino :: ext2_inode where
  "file_ino = file_inode (part_data demo_disk file_part file_fs) file_sb 1024 2"

lemma file_ino_sel: "SIZE file_ino = 3" "take (Suc 0) (direct file_ino) = [5]"
proof -
  have f: "file_ino = inode_of (disk_at (part_data demo_disk file_part file_fs)) 3200"
    by (simp add: file_ino_def file_inode_def file_places)
  show "SIZE file_ino = 3" by (simp add: SIZE_def f inode_of_def get32_def file_disk_at file_ram_def)
  have "[0..<12] = 0 # [1..<12 :: nat]" by (simp add: upt_conv_Cons)
  then show "take (Suc 0) (direct file_ino) = [5]"
    by (simp add: f inode_of_def get32_def file_disk_at file_ram_def del: upt_rec_numeral)
qed

lemma file_blocks: "blocks_of (part_data demo_disk file_part file_fs) 1024 file_ino [5]"
proof -
  have "length (part_data demo_disk file_part file_fs) = 7680" using part_data_length [OF file_part_ok] by (simp add: file_part_def)
  then show ?thesis by (simp add: blocks_of_def file_ino_sel blocks_ok_def)
qed

lemma file_bytes_part: "file_data (part_data demo_disk file_part file_fs) 1024 file_ino [5] = [72, 105, 33]"
proof -
  let ?C = "part_data demo_disk file_part file_fs"
  have l: "length ?C = 7680" using part_data_length [OF file_part_ok] by (simp add: file_part_def)
  have "file_data ?C 1024 file_ino [5] = take 3 (drop 5120 ?C)"
    using l by (simp add: file_data_def file_ino_sel block_def cut_def)
  also have "\<dots> = [?C ! 5120, ?C ! 5121, ?C ! 5122]"
    by (rule nth_equalityI) (use l in \<open>auto simp: less_Suc_eq numeral_3_eq_3\<close>)
  finally show ?thesis by (simp add: file_contents file_ram_def)
qed

lemma file_safe: "\<forall>x \<in> disk_bytes demo_disk \<union> super_bytes 0x20000. safe_byte (fheap file_fs) x"
proof -
  have "unat x < 0x200000" if "x \<in> disk_bytes demo_disk \<union> super_bytes 0x20000" for x
  proof -
    have r: "reserved demo_disk = 0x100000" "unat (length_of demo_disk) = 8192" by (simp_all add: demo_disk_def)
    show ?thesis
      using that unat_add_of_nat [of "0x100000"] by (auto simp: disk_bytes_def r super_bytes_def)
  qed
  then show ?thesis by (fastforce simp: safe_byte_def file_fs_sel boot_heap_rep)
qed


end
