(* ===== verification/Fbtest.thy ===== *)
theory Fbtest
  imports Vesa
begin

text \<open>
  The trial of the graphics console on the development machine (\<^verbatim>\<open>fbtest.c\<close>): a text is converted, drawn with the font of the picture into
  a buffer of 160 by 45 cells, and the buffer is printed as characters. \<^verbatim>\<open>utf2win\<close> is the function that the kernel took over, \<open>utf2win\<close> of
  the theory \<open>Vesa\<close>; \<^verbatim>\<open>malloc\<close> is never short of memory.
\<close>

section \<open>The program\<close>

definition FBT_WIDTH :: nat where "FBT_WIDTH = 160"
definition FBT_HEIGHT :: nat where "FBT_HEIGHT = 45"

lemmas fbt_size = FBT_WIDTH_def FBT_HEIGHT_def

text \<open>The global variables; \<^verbatim>\<open>framebuf[x][y]\<close> is the cell \<^verbatim>\<open>x * FB_HEIGHT + y\<close>.\<close>

record fbtest =
  fb_font :: "u8 list list"
  fb_cells :: "u8 list"
  fb_x :: u32
  fb_y :: u32

definition fb_start :: fbtest where
  "fb_start = \<lparr>fb_font = replicate 256 (replicate 8 0), fb_cells = 32 # replicate 7199 0, fb_x = 0, fb_y = 0\<rparr>"

definition fb_put_cell :: "u8 \<Rightarrow> nat \<Rightarrow> nat \<Rightarrow> fbtest \<Rightarrow> fbtest res" where
  "fb_put_cell c i j s =
     (let k = unat (fb_x s + of_nat j) * FBT_HEIGHT + unat (fb_y s + of_nat i)
      in if k < FBT_WIDTH * FBT_HEIGHT
         then Inr (s\<lparr>fb_cells := (fb_cells s)[k := if push_bit (7 - j) 1 AND fb_font s ! unat c ! i \<noteq> 0 then 120 else 32]\<rparr>)
         else Inl (Oob (int k)))"

fun fb_put_cells :: "u8 \<Rightarrow> (nat \<times> nat) list \<Rightarrow> fbtest \<Rightarrow> fbtest res" where
  "fb_put_cells c [] s = Inr s"
| "fb_put_cells c ((i, j) # ps) s = rbind (fb_put_cell c i j s) (fb_put_cells c ps)"

definition fb_put_char :: "u8 \<Rightarrow> fbtest \<Rightarrow> fbtest res" where
  "fb_put_char c s =
     rbind (fb_put_cells c (List.product [0..<8] [0..<8]) s) (\<lambda>s.
       let s = s\<lparr>fb_x := fb_x s + 8\<rparr>
       in Inr (if of_nat FBT_WIDTH \<le> fb_x s + 8 then s\<lparr>fb_x := 0, fb_y := fb_y s + 8\<rparr> else s))"

fun fb_put_s :: "u8 list \<Rightarrow> fbtest \<Rightarrow> fbtest res" where
  "fb_put_s [] s = Inl (Oob 0)"
| "fb_put_s (c # cs) s = (if c = 0 then Inr s else rbind (fb_put_char c s) (fb_put_s cs))"

definition fb_font_bit :: "nat \<Rightarrow> nat \<Rightarrow> u8 list list \<Rightarrow> u8 list list" where
  "fb_font_bit i j F =
     (let c = i div 8 * 16 + j div 8 in F[c := (F ! c)[i mod 8 := F ! c ! (i mod 8) OR push_bit (7 - j mod 8) 1]])"

definition fb_load_font :: "(nat \<Rightarrow> u8) \<Rightarrow> u8 list list \<Rightarrow> u8 list list" where
  "fb_load_font header_data F =
     fold (\<lambda>(i, j) F. if header_data (i * 128 + j) \<noteq> 0 then fb_font_bit i j F else F) (List.product [0..<128] [0..<128]) F"

text \<open>The text, as numbers of Unicode.\<close>

definition fb_text :: "nat list" where
  "fb_text = [0x428, 0x438, 0x440, 0x43E, 0x43A, 0x430, 0x44F, 0x20, 0x44D, 0x43B, 0x435, 0x43A, 0x442, 0x440, 0x438, 0x444, 0x438, 0x43A, 0x430, 0x446, 0x438, 0x44F, 0x20, 0x44E, 0x436, 0x43D, 0x44B, 0x445, 0x20, 0x433, 0x443, 0x431, 0x435, 0x440, 0x43D, 0x438, 0x439]
     @ map of_char ''! Wild cat jumps over the lazy dog!''"

definition fb_show :: "fbtest \<Rightarrow> u8 list" where
  "fb_show s = concat (map (\<lambda>y. map (\<lambda>x. fb_cells s ! (x * FBT_HEIGHT + y)) [0..<FBT_WIDTH] @ [10]) [0..<FBT_HEIGHT])"

definition fb_main :: "(nat \<Rightarrow> u8) \<Rightarrow> u8 list res" where
  "fb_main header_data =
     (let s = fb_start\<lparr>fb_font := fb_load_font header_data (fb_font fb_start)\<rparr>
      in rbind (utf2win (concat (map utf8 fb_text) @ [0])) (\<lambda>w. rbind (fb_put_s w s) (\<lambda>s. Inr (fb_show s))))"

section \<open>The font\<close>

text \<open>The font is the one that the kernel loads.\<close>

lemma fb_load_font_eq: "font (load_font h s) = fb_load_font h (font s)"
proof -
  have "font (fold (\<lambda>(i, j) s. if h (i * 128 + j) \<noteq> 0 then font_bit i j s else s) qs s) =
      fold (\<lambda>(i, j) F. if h (i * 128 + j) \<noteq> 0 then fb_font_bit i j F else F) qs (font s)" for qs
    by (induction qs arbitrary: s) (auto simp: font_bit_def fb_font_bit_def Let_def)
  then show ?thesis by (simp add: load_font_def fb_load_font_def)
qed

definition fb_glyph :: "(nat \<Rightarrow> u8) \<Rightarrow> u8 \<Rightarrow> nat \<Rightarrow> nat \<Rightarrow> u8" where
  "fb_glyph h c i j = (if picture h (unat c) i j then 120 else 32)"

lemma fb_font_pixel:
  assumes "i < 8" and "j < 8"
  shows "push_bit (7 - j) 1 AND fb_load_font h (fb_font fb_start) ! unat (c :: u8) ! i \<noteq> 0 \<longleftrightarrow> picture h (unat c) i j"
proof -
  let ?s = "vesa_start undefined"
  have F: "fb_load_font h (fb_font fb_start) = font (load_font h ?s)" unfolding fb_load_font_eq by (simp add: fb_start_def vesa_start_def)
  have ok: "font_ok ?s" by (simp add: font_ok_def vesa_start_def)
  have c: "unat c < 256" using unsigned_less [of c, where 'a = nat] by simp
  have "bit (font (load_font h ?s) ! unat c ! i) (7 - j) \<longleftrightarrow> picture h (unat c) i j"
    using load_font_picture(2) [OF ok c assms, of h] c assms by (simp add: vesa_start_def)
  then show ?thesis
    unfolding F using and_exp_eq_0_iff_not_bit [of "font (load_font h ?s) ! unat c ! i" "7 - j"] by (simp add: push_bit_of_1 and.commute)
qed

section \<open>Drawing\<close>

lemma fold_updates:
  assumes "inj_on g (set qs)" and "\<forall>q \<in> set qs. g q < length f"
  shows "length (fold (\<lambda>q f. f[g q := v q]) qs f) = length f"
    and "q \<in> set qs \<Longrightarrow> fold (\<lambda>q f. f[g q := v q]) qs f ! g q = v q"
    and "k \<notin> g ` set qs \<Longrightarrow> fold (\<lambda>q f. f[g q := v q]) qs f ! k = f ! k"
  using assms
proof (induction qs arbitrary: q rule: rev_induct)
  case (snoc p qs)
  {
    case 1
    then show ?case using snoc.IH(1) by (auto simp: inj_on_def)
  next
    case 2
    have l: "length (fold (\<lambda>q f. f[g q := v q]) qs f) = length f" using snoc.IH(1) 2 by (auto simp: inj_on_def)
    show ?case
    proof (cases "g q = g p")
      case True
      then have "q = p" using 2 by (auto simp: inj_on_def)
      then show ?thesis using 2 l by simp
    next
      case False
      then have "q \<in> set qs" using 2 by auto
      then show ?thesis using snoc.IH(2) [of q] 2 False by (auto simp: inj_on_def)
    qed
  next
    case 3
    then show ?case using snoc.IH(3) by (auto simp: inj_on_def)
  }
qed simp_all

text \<open>Before character \<open>n\<close>: column \<open>a\<close> of 19, line \<open>b\<close> of 5.\<close>

definition fb_place :: "(nat \<Rightarrow> u8) \<Rightarrow> nat \<Rightarrow> nat \<Rightarrow> fbtest \<Rightarrow> bool" where
  "fb_place h a b s \<longleftrightarrow> a < 19 \<and> b < 5 \<and> fb_font s = fb_load_font h (fb_font fb_start) \<and> unat (fb_x s) = 8 * a \<and> unat (fb_y s) = 8 * b
     \<and> length (fb_cells s) = 7200"

definition fb_cell :: "nat \<Rightarrow> nat \<Rightarrow> nat \<times> nat \<Rightarrow> nat" where
  "fb_cell a b q = (8 * a + snd q) * 45 + (8 * b + fst q)"

lemma fb_cell_parts:
  assumes "b < 5" and "fst q < 8"
  shows "fb_cell a b q div 45 = 8 * a + snd q" and "fb_cell a b q mod 45 = 8 * b + fst q"
proof -
  have r: "8 * b + fst q < 45" using assms by linarith
  have "(m * 45 + r) div 45 = m \<and> (m * 45 + r) mod 45 = r" if "r < 45" for m r :: nat using that by simp
  then show "fb_cell a b q div 45 = 8 * a + snd q" "fb_cell a b q mod 45 = 8 * b + fst q" unfolding fb_cell_def using r by blast+
qed

lemma fb_cell_less:
  assumes "a < 19" and "b < 5" and "fst q < 8" and "snd q < 8"
  shows "fb_cell a b q < 7200"
proof -
  have "8 * a + snd q \<le> 151" "8 * b + fst q \<le> 39" using assms by linarith+
  moreover from this(1) have "(8 * a + snd q) * 45 \<le> 151 * 45" by (rule mult_le_mono1)
  ultimately show ?thesis unfolding fb_cell_def by linarith
qed

lemma fb_put_cells_eq:
  assumes "fb_place h a b s" and "set qs \<subseteq> {0..<8} \<times> {0..<8}"
  shows "fb_put_cells c qs s = Inr (s\<lparr>fb_cells := fold (\<lambda>q f. f[fb_cell a b q := fb_glyph h c (fst q) (snd q)]) qs (fb_cells s)\<rparr>)"
  using assms
proof (induction qs arbitrary: s)
  case (Cons q qs)
  obtain i j where q: "q = (i, j)" "i < 8" "j < 8" using Cons.prems(2) by (cases q) auto
  have P: "a < 19" "b < 5" "fb_font s = fb_load_font h (fb_font fb_start)" "unat (fb_x s) = 8 * a" "unat (fb_y s) = 8 * b"
    using Cons.prems(1) by (auto simp: fb_place_def)
  have u: "unat (of_nat j :: u32) = j" "unat (of_nat i :: u32) = i" using q by (simp_all add: unat_of_nat)
  have x: "unat (fb_x s + of_nat j) = 8 * a + j" using P(1,4) q(3) u by (subst unat_add_lem [THEN iffD1]) simp_all
  have y: "unat (fb_y s + of_nat i) = 8 * b + i" using P(2,5) q(2) u by (subst unat_add_lem [THEN iffD1]) simp_all
  have k: "(8 * a + j) * 45 + (8 * b + i) < 7200"
    using fb_cell_less [OF P(1,2), of "(i, j)"] q(2,3) by (simp add: fb_cell_def)
  let ?s = "s\<lparr>fb_cells := (fb_cells s)[fb_cell a b q := fb_glyph h c i j]\<rparr>"
  have "fb_put_cell c i j s = Inr ?s"
    unfolding fb_put_cell_def Let_def x y P(3) fb_font_pixel [OF q(2,3)] using k by (simp add: fbt_size fb_cell_def q(1) fb_glyph_def)
  moreover have "fb_place h a b ?s" using Cons.prems(1) by (simp add: fb_place_def)
  ultimately show ?case using Cons.IH [of ?s] Cons.prems(2) q(1) by simp
qed simp

text \<open>A character in its 64 cells; the line ends after 19 characters.\<close>

lemma fb_put_char_at:
  assumes P: "fb_place h a b s"
  obtains s' where "fb_put_char c s = Inr s'" and "fb_font s' = fb_font s" and "length (fb_cells s') = 7200"
    and "unat (fb_x s') = (if a = 18 then 0 else 8 * (a + 1))" and "unat (fb_y s') = (if a = 18 then 8 * (b + 1) else 8 * b)"
    and "\<And>X Y. X < 160 \<Longrightarrow> Y < 45 \<Longrightarrow> fb_cells s' ! (X * 45 + Y) =
      (if X div 8 = a \<and> Y div 8 = b then fb_glyph h c (Y mod 8) (X mod 8) else fb_cells s ! (X * 45 + Y))"
proof -
  let ?qs = "List.product [0..<8] [0..<8 :: nat]"
  define f where "f = fold (\<lambda>q f. f[fb_cell a b q := fb_glyph h c (fst q) (snd q)]) ?qs (fb_cells s)"
  have A: "a < 19" "b < 5" "unat (fb_x s) = 8 * a" "unat (fb_y s) = 8 * b" "length (fb_cells s) = 7200" using P by (auto simp: fb_place_def)
  have qs: "set ?qs = {0..<8} \<times> {0..<8}" by auto
  have inj: "inj_on (fb_cell a b) (set ?qs)"
  proof (rule inj_onI)
    fix p q assume p: "p \<in> set ?qs" "q \<in> set ?qs" "fb_cell a b p = fb_cell a b q"
    then have "fst p < 8" "fst q < 8" unfolding qs by auto
    then have "8 * a + snd p = 8 * a + snd q" "8 * b + fst p = 8 * b + fst q" using fb_cell_parts [OF A(2)] p(3) by metis+
    then show "p = q" by (simp add: prod_eq_iff)
  qed
  have lt: "\<forall>q \<in> set ?qs. fb_cell a b q < length (fb_cells s)"
  proof
    fix q assume "q \<in> set ?qs"
    then have "fst q < 8" "snd q < 8" unfolding qs by auto
    then show "fb_cell a b q < length (fb_cells s)" unfolding A(5) by (rule fb_cell_less [OF A(1,2)])
  qed
  note U = fold_updates [OF inj lt, where v = "\<lambda>q. fb_glyph h c (fst q) (snd q)", folded f_def]
  have cell: "f ! (X * 45 + Y) = (if X div 8 = a \<and> Y div 8 = b then fb_glyph h c (Y mod 8) (X mod 8) else fb_cells s ! (X * 45 + Y))"
    if "X < 160" "Y < 45" for X Y
  proof (cases "X div 8 = a \<and> Y div 8 = b")
    case True
    then have X: "X = 8 * a + X mod 8" "Y = 8 * b + Y mod 8" by auto
    have "fb_cell a b (Y mod 8, X mod 8) = X * 45 + Y" unfolding fb_cell_def fst_conv snd_conv X(1) [symmetric] X(2) [symmetric] ..
    moreover have "(Y mod 8, X mod 8) \<in> set ?qs" unfolding qs by simp
    ultimately show ?thesis using U(2) [of "(Y mod 8, X mod 8)"] True by simp
  next
    case False
    have "X * 45 + Y \<notin> fb_cell a b ` set ?qs"
    proof
      assume "X * 45 + Y \<in> fb_cell a b ` set ?qs"
      then obtain q where q: "X * 45 + Y = fb_cell a b q" "fst q < 8" "snd q < 8" unfolding qs by auto
      have "(X * 45 + Y) div 45 = X" "(X * 45 + Y) mod 45 = Y" using that(2) by simp_all
      then have "X = 8 * a + snd q" "Y = 8 * b + fst q" using fb_cell_parts [OF A(2) q(2)] q(1) by simp_all
      then show False using False q(2,3) by simp
    qed
    then show ?thesis unfolding if_not_P [OF False] by (rule U(3))
  qed
  have x8: "unat (fb_x s + 8) = 8 * (a + 1)" using A(1,3) by (subst unat_add_lem [THEN iffD1]) simp_all
  have x16: "unat (fb_x s + 8 + 8) = 8 * (a + 2)" using A(1) x8 by (subst unat_add_lem [THEN iffD1]) simp_all
  have y8: "unat (fb_y s + 8) = 8 * (b + 1)" using A(2,4) by (subst unat_add_lem [THEN iffD1]) simp_all
  have w: "(of_nat FBT_WIDTH :: u32) \<le> fb_x s + 8 + 8 \<longleftrightarrow> a = 18"
  proof -
    have "(of_nat FBT_WIDTH :: u32) \<le> fb_x s + 8 + 8 \<longleftrightarrow> 160 \<le> 8 * (a + 2)"
      unfolding word_le_nat_alt x16 by (simp add: fbt_size)
    then show ?thesis using A(1) by auto
  qed
  let ?s = "s\<lparr>fb_cells := f, fb_x := fb_x s + 8\<rparr>"
  have "fb_put_cells c ?qs s = Inr (s\<lparr>fb_cells := f\<rparr>)" unfolding f_def by (rule fb_put_cells_eq [OF P]) (simp add: qs)
  then have "fb_put_char c s = Inr (if a = 18 then ?s\<lparr>fb_x := 0, fb_y := fb_y s + 8\<rparr> else ?s)"
    using w by (simp add: fb_put_char_def Let_def)
  then show thesis using that [of "if a = 18 then ?s\<lparr>fb_x := 0, fb_y := fb_y s + 8\<rparr> else ?s"] U(1) A(4,5) x8 y8 cell by simp
qed

text \<open>What the buffer shows after \<open>n\<close> characters of \<open>cs\<close>.\<close>

definition fb_pixel :: "(nat \<Rightarrow> u8) \<Rightarrow> u8 list \<Rightarrow> nat \<Rightarrow> nat \<Rightarrow> nat \<Rightarrow> u8" where
  "fb_pixel h cs n X Y =
     (let q = Y div 8 * 19 + X div 8
      in if X < 152 \<and> Y < 40 \<and> q < n then fb_glyph h (cs ! q) (Y mod 8) (X mod 8) else if X = 0 \<and> Y = 0 then 32 else 0)"

definition fb_drawn :: "(nat \<Rightarrow> u8) \<Rightarrow> u8 list \<Rightarrow> nat \<Rightarrow> fbtest \<Rightarrow> bool" where
  "fb_drawn h cs n s \<longleftrightarrow> fb_font s = fb_load_font h (fb_font fb_start) \<and> unat (fb_x s) = 8 * (n mod 19) \<and> unat (fb_y s) = 8 * (n div 19)
     \<and> length (fb_cells s) = 7200 \<and> (\<forall>X < 160. \<forall>Y < 45. fb_cells s ! (X * 45 + Y) = fb_pixel h cs n X Y)"

lemma fb_step:
  assumes d: "fb_drawn h cs n s" and n: "n < length cs" "n < 95"
  obtains s' where "fb_put_char (cs ! n) s = Inr s'" and "fb_drawn h cs (Suc n) s'"
proof -
  let ?a = "n mod 19" and ?b = "n div 19"
  have b: "?b < 5" using n(2) by (simp add: less_mult_imp_div_less)
  have P: "fb_place h ?a ?b s" using d b by (simp add: fb_drawn_def fb_place_def)
  obtain s' where s': "fb_put_char (cs ! n) s = Inr s'" "fb_font s' = fb_font s" "length (fb_cells s') = 7200"
    "unat (fb_x s') = (if ?a = 18 then 0 else 8 * (?a + 1))" "unat (fb_y s') = (if ?a = 18 then 8 * (?b + 1) else 8 * ?b)"
    "\<And>X Y. X < 160 \<Longrightarrow> Y < 45 \<Longrightarrow> fb_cells s' ! (X * 45 + Y) =
      (if X div 8 = ?a \<and> Y div 8 = ?b then fb_glyph h (cs ! n) (Y mod 8) (X mod 8) else fb_cells s ! (X * 45 + Y))"
    by (rule fb_put_char_at [OF P]) blast
  have nx: "Suc n mod 19 = (if ?a = 18 then 0 else ?a + 1)" "Suc n div 19 = (if ?a = 18 then ?b + 1 else ?b)"
    by (simp_all add: mod_Suc div_Suc)
  have "fb_pixel h cs (Suc n) X Y = (if X div 8 = ?a \<and> Y div 8 = ?b then fb_glyph h (cs ! n) (Y mod 8) (X mod 8) else fb_pixel h cs n X Y)"
    if "X < 160" "Y < 45" for X Y
  proof (cases "X div 8 = ?a \<and> Y div 8 = ?b")
    case True
    then have "Y div 8 * 19 + X div 8 = n" by simp
    moreover have "X < 152" "Y < 40"
    proof -
      have "X div 8 < 19" "Y div 8 < 5" using True b by simp_all
      then show "X < 152" "Y < 40" by linarith+
    qed
    ultimately show ?thesis using True by (simp add: fb_pixel_def)
  next
    case False
    have "Y div 8 * 19 + X div 8 \<noteq> n" if "X < 152"
    proof
      assume e: "Y div 8 * 19 + X div 8 = n"
      have "X div 8 < 19" using that by (simp add: less_mult_imp_div_less)
      then have "?a = X div 8" "?b = Y div 8" unfolding e [symmetric] by simp_all
      then show False using False by simp
    qed
    then show ?thesis using False by (auto simp: fb_pixel_def Let_def less_Suc_eq)
  qed
  then have "fb_drawn h cs (Suc n) s'"
    using d s'(2-6) unfolding fb_drawn_def nx by auto
  then show thesis using that s'(1) by blast
qed

lemma fb_put_s_draws:
  assumes "fb_drawn h cs n s" and "length cs \<le> 95" and "n \<le> length cs" and "0 \<notin> set cs"
  shows "\<exists>s'. fb_put_s (drop n cs @ [0]) s = Inr s' \<and> fb_drawn h cs (length cs) s'"
  using assms
proof (induction "length cs - n" arbitrary: n s)
  case 0
  then show ?case by simp
next
  case (Suc m)
  then have n: "n < length cs" "n < 95" by simp_all
  obtain s1 where s1: "fb_put_char (cs ! n) s = Inr s1" "fb_drawn h cs (Suc n) s1" by (rule fb_step [OF Suc.prems(1) n])
  have "cs ! n \<noteq> 0" using Suc.prems(4) n(1) by (metis nth_mem)
  moreover have "drop n cs = cs ! n # drop (Suc n) cs" using n(1) by (simp add: Cons_nth_drop_Suc)
  moreover have "m = length cs - Suc n" using Suc.hyps(2) by simp
  then obtain s' where "fb_put_s (drop (Suc n) cs @ [0]) s1 = Inr s'" "fb_drawn h cs (length cs) s'"
    using Suc.hyps(1) [of "Suc n" s1] s1(2) Suc.prems(2,4) n(1) by auto
  ultimately show ?case using s1(1) by simp
qed

section \<open>The output\<close>

lemma fb_text_ok: "\<forall>c \<in> set fb_text. 0 < c \<and> c < 0x80 \<or> c \<in> set letters" "length fb_text = 72"
  by (simp_all add: fb_text_def letters_def)

lemma fb_shown: "0 \<notin> set (map shown fb_text)"
  by (simp add: fb_text_def shown_def cp1251_def like_yo_def)

text \<open>
  C40. The output of the program: 45 lines of 160 characters, in which the text stands in lines of 19 characters (the last 8 columns stay
  unused), every character as the 8 by 8 pixels of its picture; cells that are not drawn on are zero bytes.
\<close>

theorem fb_main_prints:
  "fb_main h = Inr (concat (map (\<lambda>Y. map (\<lambda>X. fb_pixel h (map shown fb_text) 72 X Y) [0..<160] @ [10]) [0..<45]))"
proof -
  let ?cs = "map shown fb_text"
  have u: "utf2win (concat (map utf8 fb_text) @ [0]) = Inr (?cs @ [0])" by (rule utf2win_text [OF fb_text_ok(1)])
  let ?s = "fb_start\<lparr>fb_font := fb_load_font h (fb_font fb_start)\<rparr>"
  have "fb_drawn h ?cs 0 ?s"
    by (auto simp: fb_drawn_def fb_pixel_def fb_start_def nth_Cons split: nat.split)
  then obtain s' where s': "fb_put_s (?cs @ [0]) ?s = Inr s'" "fb_drawn h ?cs 72 s'"
    using fb_put_s_draws [of h ?cs 0 ?s] fb_text_ok(2) fb_shown by auto
  have "fb_show s' = concat (map (\<lambda>Y. map (\<lambda>X. fb_pixel h ?cs 72 X Y) [0..<160] @ [10]) [0..<45])"
    unfolding fb_show_def fbt_size
    by (intro arg_cong [where f = concat] map_cong refl arg_cong [where f = "\<lambda>xs. xs @ [10]"]) (use s'(2) in \<open>auto simp: fb_drawn_def\<close>)
  then show ?thesis using u s'(1) by (simp add: fb_main_def Let_def del: upt_rec_numeral)
qed

end
