(* ===== verification/Fat32.thy ===== *)
theory Fat32
  imports Fs_Core
begin

text \<open>
  The structures of FAT32 (\<^verbatim>\<open>fs/fat32/fat32.h\<close>) as they are read from memory: the block of parameters at the start of a volume and
  an entry of a directory, with its times in bit fields. The driver that would use them is a stub (\<open>fat32_init\<close> in \<open>Drivers\<close>), so the
  lemmas only compare the layout with that of the volumes: the first block is a byte short, and the parts of the times and dates are taken
  from the wrong bits.
\<close>

section \<open>The block of parameters\<close>

record fat32_bpb =
  f_jump :: "u8 list"
  f_oem_id :: "u8 list"
  bytes_ps :: u16
  sec_pc :: u8
  num_rs :: u16
  num_fat :: u8
  num_de :: u16
  num_sec :: u16
  media_dt :: u8
  sec_pf :: u16
  sec_pt :: u16
  head_pv :: u16
  hidden :: u32
  num_sec2 :: u32
  sec_pf2 :: u32
  f_flags :: u16
  f_version :: u16
  root_c :: u32
  fsinfo_c :: u16
  boot_bkp :: u16
  f_rvd0 :: "u8 list"
  drv_num :: u8
  nt_flags :: u8
  f_sign :: u8
  vol_id :: u32
  f_label :: "u8 list"
  f_fs_id :: "u8 list"
  f_boot :: "u8 list"
  f_magic :: u8

abbreviation SIZEOF_BPB :: u64 where "SIZEOF_BPB \<equiv> 511"

definition fat32_bpb_of :: "(u64 \<Rightarrow> u8) \<Rightarrow> u64 \<Rightarrow> fat32_bpb" where
  "fat32_bpb_of m a =
     \<lparr>f_jump = load a 3 m, f_oem_id = load (a + 3) 8 m, bytes_ps = get16 m (a + 11), sec_pc = m (a + 13), num_rs = get16 m (a + 14),
      num_fat = m (a + 16), num_de = get16 m (a + 17), num_sec = get16 m (a + 19), media_dt = m (a + 21), sec_pf = get16 m (a + 22),
      sec_pt = get16 m (a + 24), head_pv = get16 m (a + 26), hidden = get32 m (a + 28), num_sec2 = get32 m (a + 32),
      sec_pf2 = get32 m (a + 36), f_flags = get16 m (a + 40), f_version = get16 m (a + 42), root_c = get32 m (a + 44),
      fsinfo_c = get16 m (a + 48), boot_bkp = get16 m (a + 50), f_rvd0 = load (a + 52) 12 m, drv_num = m (a + 64),
      nt_flags = m (a + 65), f_sign = m (a + 66), vol_id = get32 m (a + 67), f_label = load (a + 71) 11 m,
      f_fs_id = load (a + 82) 8 m, f_boot = load (a + 90) 420 m, f_magic = m (a + 510)\<rparr>"

text \<open>The mark 0xAA55 in the last two bytes of the block does not fit the field for it, which gets the first of them.\<close>

lemma bpb_magic:
  assumes "get16 m (a + 510) = 0xAA55"
  shows "f_magic (fat32_bpb_of m a) = 0x55"
proof -
  have "take_bit 8 (get16 m (a + 510)) = ucast (m (a + 510))"
    by (rule bit_word_eqI) (auto simp: get16_def bit_simps dest: bit_imp_le_length)
  then have "ucast (m (a + 510)) = (0x55 :: u16)" using assms by simp
  then have "ucast (ucast (m (a + 510)) :: u16) = (0x55 :: u8)" by simp
  moreover have "ucast (ucast (m (a + 510)) :: u16) = m (a + 510)" by (rule bit_word_eqI) (auto simp: bit_simps)
  ultimately show ?thesis by (simp add: fat32_bpb_of_def)
qed

section \<open>Entries of directories\<close>

text \<open>The three bit fields of a time or a date: the lowest bits first.\<close>

record fat32_stamp =
  st_first :: u16
  st_second :: u16
  st_third :: u16

definition bit_fields :: "nat \<Rightarrow> nat \<Rightarrow> u16 \<Rightarrow> fat32_stamp" where
  "bit_fields n k w = \<lparr>st_first = take_bit n w, st_second = take_bit k (drop_bit n w), st_third = drop_bit (n + k) w\<rparr>"

text \<open>\<^verbatim>\<open>hour : 5, min : 6, sec : 5\<close> and \<^verbatim>\<open>year : 7, month : 4, day : 5\<close>.\<close>

definition time_of :: "u16 \<Rightarrow> fat32_stamp" where "time_of w = bit_fields 5 6 w"
definition date_of :: "u16 \<Rightarrow> fat32_stamp" where "date_of w = bit_fields 7 4 w"

record fat32_direntry =
  fe_name :: "u8 list"
  fe_ext :: "u8 list"
  fe_attr :: u8
  fe_rsrvd0 :: u8
  fe_unk1 :: u8
  fe_c_time :: fat32_stamp
  fe_c_date :: fat32_stamp
  fe_a_date :: fat32_stamp
  first_clus_h :: u16
  fe_m_time :: fat32_stamp
  fe_m_date :: fat32_stamp
  first_clus_l :: u16
  fe_size :: u32

definition fat32_direntry_of :: "(u64 \<Rightarrow> u8) \<Rightarrow> u64 \<Rightarrow> fat32_direntry" where
  "fat32_direntry_of m a =
     \<lparr>fe_name = load a 8 m, fe_ext = load (a + 8) 3 m, fe_attr = m (a + 11), fe_rsrvd0 = m (a + 12), fe_unk1 = m (a + 13),
      fe_c_time = time_of (get16 m (a + 14)), fe_c_date = date_of (get16 m (a + 16)), fe_a_date = date_of (get16 m (a + 18)),
      first_clus_h = get16 m (a + 20), fe_m_time = time_of (get16 m (a + 22)), fe_m_date = date_of (get16 m (a + 24)),
      first_clus_l = get16 m (a + 26), fe_size = get32 m (a + 28)\<rparr>"

definition FAT32_DIREND :: u8 where "FAT32_DIREND = 0x00"
definition FAT32_READONLY :: u8 where "FAT32_READONLY = 0x01"
definition FAT32_HIDDEN :: u8 where "FAT32_HIDDEN = 0x02"
definition FAT32_SYSTEM :: u8 where "FAT32_SYSTEM = 0x04"
definition FAT32_VOLUMEID :: u8 where "FAT32_VOLUMEID = 0x08"
definition FAT32_LFN :: u8 where "FAT32_LFN = 0x0F"
definition FAT32_DIRECTORY :: u8 where "FAT32_DIRECTORY = 0x10"
definition FAT32_ARCHIVE :: u8 where "FAT32_ARCHIVE = 0x20"
definition FAT32_DELETED :: u8 where "FAT32_DELETED = 0xE5"

lemmas fat32_attributes = FAT32_DIREND_def FAT32_READONLY_def FAT32_HIDDEN_def FAT32_SYSTEM_def FAT32_VOLUMEID_def FAT32_LFN_def
  FAT32_DIRECTORY_def FAT32_ARCHIVE_def FAT32_DELETED_def

lemma lfn_attributes: "FAT32_LFN = FAT32_READONLY OR FAT32_HIDDEN OR FAT32_SYSTEM OR FAT32_VOLUMEID"
  by (simp add: fat32_attributes)

text \<open>A volume has seconds in twos, minutes and hours from the lowest bit on, so hours and seconds change places.\<close>

definition fat_time :: "u16 \<Rightarrow> u16 \<Rightarrow> u16 \<Rightarrow> u16" where
  "fat_time hours mins secs2 = push_bit 11 hours OR push_bit 5 mins OR secs2"

lemma time_swapped:
  assumes "hours < 24" and "mins < 60" and "secs2 < 30"
  shows "time_of (fat_time hours mins secs2) = \<lparr>st_first = secs2, st_second = mins, st_third = hours\<rparr>"
proof -
  have high: "\<not> bit w i" if "unat w < 2 ^ n" "n \<le> i" for w :: u16 and n i
  proof -
    have "unat w < 2 ^ i" by (rule less_le_trans [OF that(1)]) (use that(2) in simp)
    then have "take_bit i (unat w) = unat w" by (simp add: take_bit_nat_eq_self)
    then have "\<not> bit (unat w) i" by (metis bit_take_bit_iff less_irrefl)
    then show ?thesis by (simp add: bit_unsigned_iff impossible_bit)
  qed
  have h: "\<not> bit hours i" if "5 \<le> i" for i by (rule high [OF _ that]) (use assms(1) in \<open>simp add: word_less_nat_alt\<close>)
  have m: "\<not> bit mins i" if "6 \<le> i" for i by (rule high [OF _ that]) (use assms(2) in \<open>simp add: word_less_nat_alt\<close>)
  have s: "\<not> bit secs2 i" if "5 \<le> i" for i by (rule high [OF _ that]) (use assms(3) in \<open>simp add: word_less_nat_alt\<close>)
  have 1: "take_bit 5 (fat_time hours mins secs2) = secs2"
    by (rule bit_word_eqI) (use s in \<open>auto simp: fat_time_def bit_simps not_less\<close>)
  have 2: "take_bit 6 (drop_bit 5 (fat_time hours mins secs2)) = mins"
    by (rule bit_word_eqI) (use m s in \<open>auto simp: fat_time_def bit_simps not_less\<close>)
  have 3: "drop_bit 11 (fat_time hours mins secs2) = hours"
    by (rule bit_word_eqI) (use h m s in \<open>auto simp: fat_time_def bit_simps not_less intro: ccontr\<close>)
  show ?thesis using 1 2 3 by (simp add: time_of_def bit_fields_def)
qed

end
