(* ===== verification/Spec2Isabelle.thy ===== *)
theory Spec2Isabelle
  imports Scheduling Programs Ap_Start Ext2_Old Ext2_File Fbtest Fat32
begin

text \<open>
  A model of the kernel OS_64: a small multitasking kernel for x86-64 processors, written in C, with paging,
  a heap, tasks on several processors, a read-only ext2 file system on partitions of a disk, system calls, a
  text console and a loader for programs.

  \<^bold>\<open>The program.\<close> The boot loader starts the assembly code of \<^verbatim>\<open>x86_64/boot.S\<close>, which builds first page tables
  and calls \<^verbatim>\<open>kernel_start\<close>. That loads segment descriptors and task state segments, clears the screen, installs
  the interrupt table, and has \<^verbatim>\<open>mem_init\<close> set up page tables, the bitmap of physical pages and the heap. On a new
  stack \<^verbatim>\<open>kernel_run\<close> mounts the file systems, makes the running code the first task, starts the other processors,
  forks, and loads a program from the root directory. From then on the timer interrupt calls \<^verbatim>\<open>task_switch\<close>,
  programs enter through interrupt 0x80, and page faults in the heap area allocate pages.

  \<^bold>\<open>Conventions.\<close> Machine integers are words of their width, so arithmetic wraps as in C; an \<^verbatim>\<open>int\<close> is a word of 32
  bits, converted by sign extension (\<open>int_u64\<close>) and compared signed. A function of C that can fail to return has a
  result in \<open>fault + 'a\<close>: \<open>BadAddr\<close> is an access through a pointer below 4096 or to no object, \<open>Oob\<close> an index outside
  an array, \<open>ShiftUB\<close> an undefined shift, \<open>DivZero\<close> a division by zero, \<open>Halt\<close> a processor that was stopped, \<open>Diverge\<close> a
  loop that is never left, \<open>Deep\<close> a recursion beyond the bound described below. \<open>rbind\<close> puts statements in sequence. Loops over a
  known range are folds or structural recursion; loops that may run forever are \<open>partial_function (option)\<close> with
  \<open>None\<close> for not ending, and \<open>of_loop\<close> makes it \<open>Diverge\<close>. Names are those of the source; where C functions are cut
  into several definitions, the parts are named after what they do.

  \<^bold>\<open>Theories and code.\<close>
  \<^item> \<open>Prelude\<close>: words, faults, results, bytes of words; shared lemmas.
  \<^item> \<open>Alloc_Spec\<close>, \<open>Frame_Spec\<close>, \<open>Irq_Spec\<close>: the interfaces (locales) between the components: an allocator of blocks, a
    source of page frames, nested sections with interrupts off. \<open>Fs_Core\<close> has the locale \<open>storage\<close> of devices.
  \<^item> \<open>Mem\<close>: \<^verbatim>\<open>mm/mem.c\<close>. The heap is the map from addresses to chunk headers, as they lie in memory. \<open>kmalloc\<close> is
    first fit with splitting, \<open>kfree\<close> joins neighbours; both refine operations on the list of chunks. The heap
    interprets the locale \<open>allocator\<close>.
  \<^item> \<open>Phys\<close>: \<^verbatim>\<open>mm/phys.c\<close>. The bitmap of pages; allocation takes the lowest free page, and interprets \<open>frame_source\<close>.
  \<^item> \<open>Ioport\<close>, \<open>Intr\<close>, \<open>Gdt\<close>: \<^verbatim>\<open>x86_64/ioport.c\<close>, \<^verbatim>\<open>x86_64/intr.c\<close>, \<^verbatim>\<open>x86_64/gdt.c\<close>. Ports are a history of events; gates and
    descriptors are packed and read back; the counters of \<open>intr_disable\<close> interpret \<open>irq_guard\<close>.
  \<^item> \<open>Page_Tables\<close>: entries and addresses of \<^verbatim>\<open>mm/page.h\<close>, the walk of the processor over tables in physical memory, the
    insertion of an entry as a specification. \<open>Page\<close>: \<^verbatim>\<open>mm/page.c\<close> and \<^verbatim>\<open>mm/pagefault.h\<close>, which reach the
    tables through one window of the address space. The state \<open>vm\<close> joins memory, frames, heap and interrupts; \<open>vm_ok\<close> is its
    invariant. \<open>Boot\<close>: the boot loader's structures and \<open>mem_init\<close>.
  \<^item> \<open>Ktty\<close>: \<^verbatim>\<open>kernel/ktty.c\<close>, against a scrolling text of 25 lines.
  \<^item> \<open>Task\<close>: \<^verbatim>\<open>kernel/task.c\<close> and \<^verbatim>\<open>kernel/tls.c\<close>. Tasks at their addresses form rings; switching, forking, copying of stacks.
    \<open>Cpus\<close>: creation of tasks on the first and on other processors, with heap and paging below. \<open>Scheduling\<close>: the steps
    of all processors over time as an inductive relation, and the invariant that every reachable state has. \<open>Ap_Start\<close>: the
    start of another processor as a whole, with what its own page tables translate.
  \<^item> \<open>Fs_Core\<close>, \<open>Drivers\<close>, \<open>Ext2\<close>, \<open>Vfs\<close>: \<^verbatim>\<open>fs/\<close>. Nodes and directory entries at the addresses from \<open>kmalloc\<close>, drivers
    for RAM disk, ATA disk and terminal, the ext2 driver over any reader, partitions, the directory of
    devices, dispatch on the driver of a node, mounting, \<open>fs_init\<close>. \<open>Ext2_File\<close>: the reading of a file through
    \<open>vfs_read\<close>, from its inode on a partition to the buffer. \<open>Fat32\<close>: the structures of \<^verbatim>\<open>fs/fat32/fat32.h\<close>. \<open>Ext2_Old\<close>: \<^verbatim>\<open>fs/ext2_old/\<close>, the first driver, a program
    for the development machine over the files of the C library, with open files, positions and paths.
  \<^item> \<open>Syscall\<close>: \<^verbatim>\<open>sys/\<close>. The entry code, the table, and every handler; the state \<open>sys\<close> joins tasks and file system.
  \<^item> \<open>Elf\<close>: \<^verbatim>\<open>elf/elf.c\<close>, \<^verbatim>\<open>elf/start.c\<close>. Checks, relocations, loading of segments, start of a program.
    \<open>Programs\<close>: a program from its file to what it prints.
  \<^item> \<open>Apic\<close>: \<^verbatim>\<open>x86_64/apic.c\<close>, \<^verbatim>\<open>x86_64/smp.c\<close>, \<^verbatim>\<open>x86_64/cpuid.c\<close>. Accesses to the controllers are a history of events.
  \<^item> \<open>Vesa\<close>: \<^verbatim>\<open>x86_64/vesa/vesa.c\<close>. Mounting of the frame buffer, conversion of text, drawing.
    \<open>Fbtest\<close>: \<^verbatim>\<open>fbtest.c\<close>, the trial of the drawing on the development machine.
  \<^item> \<open>Kernel\<close>: \<^verbatim>\<open>kernel/kernel.c\<close>, \<^verbatim>\<open>fs/test.c\<close>, \<^verbatim>\<open>x86_64/kbd.h\<close>. The record \<open>machine\<close> joins all states; the combinators
    \<open>on_vm\<close>, \<open>on_fs\<close>, \<open>on_apic\<close> and so on run a component on its part and hand over what is shared.

  \<^bold>\<open>What the lemmas show.\<close> Heap: both operations refine the abstract heap, keep it consistent and coalesced, never hand
  out overlapping blocks, and end. Frames: allocated pages are fresh and distinct. Paging: mounting a page through the window is
  the insertion in the tables, changes no other translation and keeps \<open>vm_ok\<close>; ranges are mapped to distinct
  frames; a fault in the heap area is served; a copied data page is a fresh frame with the same contents, the kernel's table is shared;
  \<open>mem_init\<close> establishes the invariant from what the boot code left. Tasks: the switch saves and
  continues the right task, reaches every active task, new tasks join the ring; in whatever order processors act, the ring stays
  well-formed and the next timer interrupt returns. Files: partitions refine their
  disk, reads through chains of blocks give the bytes of the file, also for the whole call from inode to buffer with
  the heap below it, searching devices ends; the first driver, as a whole program, finds its
  file by path and prints it, whatever inode tables it has met. Programs: the check of a header is
  exact, the image in memory is that of the file, and the next timer interrupt runs the program, whose output is the bytes of its file. Drawing: each character
  of a text becomes its picture in the font. Start: the kernel
  comes up without a fault. Several lemmas state how the code fails: an exhausted heap reads address 0, a stale frame is
  mapped again, a page number in the upper half frees others, a name matches its prefix, the value of a system call arrives
  in a wrong register, and others that their texts name.

  \<^bold>\<open>Bounds.\<close> Calls between drivers (a file on a partition on a partition on a disk) are recursive over a number of levels: \<open>DEPTH\<close> is two
  more than the 100 nodes the directory of devices can hold, and exceeding it is the fault \<open>Deep\<close>. The lemma
  on \<open>devfs_add\<close> shows that the search for partitions, which adds a node on each level, is never deeper. The
  recursion of \<open>mount_map\<close> and of the loops over frames has a measure. Everything else is structural or may return \<open>None\<close>.

  \<^bold>\<open>Parameters.\<close> Ports, controller registers, disk contents, firmware tables and the result of \<^verbatim>\<open>cpuid\<close> are
  functions of the history or the address. The record \<open>boot_env\<close> has these with the addresses that the linker chose, the
  boot loader's structures and uninitialised memory; \<open>elf_env\<close> has what the two empty functions of the loader
  return, the code that indirect relocations call, and the bytes of fresh pages. The text that \<^verbatim>\<open>kprintf\<close> of the C library
  makes from a format with arguments is a parameter where it is printed by the main program.

  \<^bold>\<open>Assumption on memory.\<close> Data of the kernel (heap, tasks, nodes) are read and written without the walk of the page tables: they
  are taken to be mapped alike in every address space that is in use. Forked tasks share the page directory of the last gigabyte, where
  they lie; the tables of other processors share its first two megabytes only. Bytes of programs in \<open>ram\<close> are those of the
  current address space.

  \<^bold>\<open>Not modelled.\<close> The assembly files (\<^verbatim>\<open>boot.S\<close>, \<^verbatim>\<open>ap_init.S\<close>, \<^verbatim>\<open>timer.S\<close>, \<^verbatim>\<open>regs.S\<close>, \<^verbatim>\<open>spinlock.S\<close>, \<^verbatim>\<open>ata_pio.S\<close>): their effects are hypotheses on the
  initial state or parameters. Locks: a definition runs one operation of one processor to its end; interleavings of whole operations of
  several processors are sequences of calls. The translation cache and the ordering of memory. Debug messages of \<^verbatim>\<open>kprintf\<close> inside the components. The
  generated picture of the font, the programs for tests on the development machine (\<^verbatim>\<open>elf/main.c\<close>, \<^verbatim>\<open>fs/main.c\<close> and the programs they load), the
  C library (a submodule whose files are absent), \<^verbatim>\<open>call_entry\<close> of \<^verbatim>\<open>elf/start.c\<close> (hosted tests only).
\<close>

end
